(* ===== verification/Prelude.thy ===== *)
theory Prelude
  imports Main "HOL-Library.Word" "HOL-Library.Multiset"
begin

text \<open>
  What the components share: the error values that stand for a failed \<open>assert\<close>, a null
  dereference or an access past the end of a container, the bind of the error type, and the
  generic lemmas on lists, maps and 64-bit counters that the component proofs use.
\<close>

section \<open>Errors as values\<close>

text \<open>
  Every \<open>assert\<close> of the sources is a branch that yields \<open>Inl\<close> of one of these values, as does
  every dereference of a null pointer that the sources would perform.
\<close>

datatype rt_error =
    IncrementAfterTrigger   \<comment> \<open>\<open>assert(not is_triggered())\<close> of \<open>advance_count\<close>\<close>
  | DecrementAfterTrigger   \<comment> \<open>\<open>assert(not is_triggered())\<close> of \<open>decrement_count\<close>\<close>
  | ZeroInitialCount        \<comment> \<open>\<open>assert(initial_count != 0)\<close> of \<open>BasicFlow\<close>\<close>
  | NullPointer             \<comment> \<open>dereference of a null pointer\<close>
  | BrokenTail              \<comment> \<open>\<open>assert(tail_->next == nullptr)\<close> of \<open>emplace\<close>\<close>
  | RelatedFlowMissing      \<comment> \<open>\<open>assert(rel.related_flow())\<close> and its anti-flow variants\<close>
  | RelatedFlowPresent      \<comment> \<open>\<open>assert(rel.related_flow() == nullptr)\<close>\<close>
  | UnimplementedRelation   \<comment> \<open>\<open>assert(false)\<close> of a default case\<close>
  | AntiDependencyExpected  \<comment> \<open>\<open>assert(use->is_anti_dependency())\<close>\<close>
  | AntiDependencyForbidden \<comment> \<open>\<open>assert(not use->is_anti_dependency())\<close>\<close>
  | AntiFlowMissing         \<comment> \<open>\<open>assert(dep->get_anti_in_flow())\<close> and the like\<close>
  | TokenMissing            \<comment> \<open>\<open>assert(token)\<close>\<close>
  | ParentMissing           \<comment> \<open>\<open>assert(... parent_collection)\<close>\<close>
  | EntryMissing            \<comment> \<open>\<open>assert(entry.entry)\<close>\<close>
  | SizeMismatch            \<comment> \<open>the size assertions of the collectives\<close>
  | InvocationGone          \<comment> \<open>\<open>assert(invocation)\<close> after \<open>weak_ptr::lock\<close>\<close>
  | SingletonCollective     \<comment> \<open>\<open>assert(token->size != 1)\<close>\<close>
  | CollectionExpected      \<comment> \<open>\<open>assert(use->manages_collection())\<close> and its negation\<close>
  | UnreachableMessage      \<comment> \<open>\<open>assert(false)\<close> of \<open>run_operation\<close>\<close>
  | NoSuchWorker            \<comment> \<open>\<open>workers[i]\<close> outside the vector\<close>
  | NoThread                \<comment> \<open>\<open>assert(thread_)\<close> of \<open>join\<close>\<close>
  | DivisionByZero          \<comment> \<open>\<open>% nthreads_\<close> with no thread\<close>
  | BadFree                 \<comment> \<open>\<open>operator delete\<close> of a pointer that is not a live block\<close>
  | NoObject                \<comment> \<open>use of storage in which no object lives\<close>
  | ArgumentMissing         \<comment> \<open>\<open>assert(spot + 1 < argc)\<close>\<close>
  | NumberOutOfRange        \<comment> \<open>\<open>atoi\<close> on a value outside \<open>int\<close>\<close>
  | NotImplemented          \<comment> \<open>\<open>assert(false)\<close> of an operation that is only declared\<close>
  | UnevenPartitions        \<comment> \<open>\<open>assert(kokkos_partitions <= n_threads && ...)\<close>\<close>
  | BadAlloc                \<comment> \<open>\<open>std::bad_alloc\<close> of \<open>::operator new\<close>\<close>
  | IntOverflow             \<comment> \<open>\<open>++i\<close> of an \<open>int\<close> at \<open>INT_MAX\<close>\<close>
  | BadTeamSize             \<comment> \<open>\<open>num_threads\<close> of a value that is not positive\<close>
  | NoSuchPartition         \<comment> \<open>\<open>ready_kokkos_tasks[i]\<close> outside the vector\<close>

type_synonym 'a res = "rt_error + 'a"

definition bindE :: "'e + 'a \<Rightarrow> ('a \<Rightarrow> 'e + 'b) \<Rightarrow> 'e + 'b" where
  "bindE m f = (case m of Inl e \<Rightarrow> Inl e | Inr x \<Rightarrow> f x)"

lemma bindE_simps [simp]:
  "bindE (Inl e) f = Inl e"
  "bindE (Inr x) f = f x"
  by (simp_all add: bindE_def)

lemma bindE_eq_Inr: "bindE m f = Inr y \<longleftrightarrow> (\<exists>x. m = Inr x \<and> f x = Inr y)"
  by (cases m) auto

lemma bindE_eq_Inl: "bindE m f = Inl e \<longleftrightarrow> m = Inl e \<or> (\<exists>x. m = Inr x \<and> f x = Inl e)"
  by (cases m) auto

lemma bindE_InrE [elim!]:
  assumes "bindE m f = Inr y"
  obtains x where "m = Inr x" and "f x = Inr y"
  using assms by (auto simp: bindE_eq_Inr)

lemma bindE_cong [fundef_cong]:
  "m = m' \<Longrightarrow> (\<And>x. m' = Inr x \<Longrightarrow> f x = f' x) \<Longrightarrow> bindE m f = bindE m' f'"
  by (cases m') auto

text \<open>Dereference of a possibly null pointer, and a guard.\<close>

definition deref :: "'e \<Rightarrow> 'a option \<Rightarrow> 'e + 'a" where
  "deref e p = (case p of None \<Rightarrow> Inl e | Some x \<Rightarrow> Inr x)"

lemma deref_simps [simp]: "deref e None = Inl e" "deref e (Some x) = Inr x"
  by (simp_all add: deref_def)

lemma deref_eq_Inr [simp]: "deref e p = Inr x \<longleftrightarrow> p = Some x"
  by (cases p) auto

lemma deref_eq_Inl [simp]: "deref e p = Inl e' \<longleftrightarrow> p = None \<and> e' = e"
  by (cases p) auto

definition require :: "'e \<Rightarrow> bool \<Rightarrow> 'e + unit" where
  "require e b = (if b then Inr () else Inl e)"

lemma require_simps [simp]: "require e True = Inr ()" "require e False = Inl e"
  by (simp_all add: require_def)

lemma require_eq_Inr [simp]: "require e b = Inr u \<longleftrightarrow> b"
  by (cases b) auto

lemma require_eq_Inl [simp]: "require e b = Inl e' \<longleftrightarrow> \<not> b \<and> e' = e"
  by (cases b) auto

text \<open>Read of a container at an index, null or out of range being the error given.\<close>

definition at :: "'e \<Rightarrow> 'a list \<Rightarrow> nat \<Rightarrow> 'e + 'a" where
  "at e xs i = (if i < length xs then Inr (xs ! i) else Inl e)"

lemma at_simps [simp]:
  "i < length xs \<Longrightarrow> at e xs i = Inr (xs ! i)"
  "\<not> i < length xs \<Longrightarrow> at e xs i = Inl e"
  by (simp_all add: at_def)

lemma at_eq_Inr [simp]: "at e xs i = Inr x \<longleftrightarrow> i < length xs \<and> x = xs ! i"
  by (auto simp: at_def)

lemma at_eq_Inl [simp]: "at e xs i = Inl e' \<longleftrightarrow> \<not> i < length xs \<and> e' = e"
  by (auto simp: at_def)

section \<open>Sums over lists and updates\<close>

lemma sum_list_update:
  fixes f :: "'a \<Rightarrow> 'b :: comm_monoid_add"
  assumes "i < length xs"
  shows "sum_list (map f (xs[i := x])) + f (xs ! i) = sum_list (map f xs) + f x"
  using assms
proof (induction xs arbitrary: i)
  case Nil
  then show ?case by simp
next
  case (Cons y ys)
  then show ?case by (cases i) (auto simp: algebra_simps)
qed

lemma sum_list_update_same [simp]:
  fixes f :: "'a \<Rightarrow> nat"
  assumes "i < length xs" and "f x = f (xs ! i)"
  shows "sum_list (map f (xs[i := x])) = sum_list (map f xs)"
  using sum_list_update [OF assms(1), of f x] assms(2) by simp

lemma elem_le_sum_list_map:
  fixes f :: "'a \<Rightarrow> nat"
  assumes "x \<in> set xs"
  shows "f x \<le> sum_list (map f xs)"
  using assms by (induction xs) auto

lemma sum_list_map_eq_0 [simp]:
  fixes f :: "'a \<Rightarrow> nat"
  shows "sum_list (map f xs) = 0 \<longleftrightarrow> (\<forall>x\<in>set xs. f x = 0)"
  by (induction xs) auto

lemma sum_list_map_cong_set:
  fixes f :: "'a \<Rightarrow> nat"
  assumes "\<And>x. x \<in> set xs \<Longrightarrow> f x = g x"
  shows "sum_list (map f xs) = sum_list (map g xs)"
  using assms by (induction xs) auto

text \<open>Rearranging equations of sums, in the form in which an update of one summand gives them.\<close>

lemma add_frame:
  fixes a :: "'a :: comm_monoid_add"
  assumes "a' + x = a + y"
  shows "(a' + w) + x = (a + w) + y" and "(w + a') + x = (w + a) + y"
proof -
  have "(a' + w) + x = w + (a' + x)" "(w + a') + x = w + (a' + x)" by (simp_all add: ac_simps)
  moreover have "(a + w) + y = w + (a + y)" "(w + a) + y = w + (a + y)" by (simp_all add: ac_simps)
  ultimately show "(a' + w) + x = (a + w) + y" "(w + a') + x = (w + a) + y" using assms by simp_all
qed

lemma cancel_frame:
  fixes a :: "'a :: cancel_comm_monoid_add"
  shows "a' + x = a + (x + y) \<Longrightarrow> a' = a + y" and "a' + (y + x) = a + x \<Longrightarrow> a' + y = a"
proof -
  show "a' = a + y" if "a' + x = a + (x + y)"
  proof -
    have "a' + x = (a + y) + x" using that by (simp add: ac_simps)
    then show ?thesis by simp
  qed
  show "a' + y = a" if "a' + (y + x) = a + x"
  proof -
    have "(a' + y) + x = a + x" using that by (simp add: ac_simps)
    then show ?thesis by simp
  qed
qed

section \<open>64-bit counters\<close>

type_synonym u64 = "64 word"

lemma unat_u64_less: "unat (x :: u64) < 2 ^ 64"
  using unsigned_less [of x] by simp

lemma unat_u64_pred: "x \<noteq> (0 :: u64) \<Longrightarrow> unat (x - 1) = unat x - 1"
  by (rule unat_minus_one)

lemma unat_u64_add:
  "unat (a :: u64) + unat b < 2 ^ 64 \<Longrightarrow> unat (a + b) = unat a + unat b"
  using unat_add_lem [of a b] by simp

lemma unat_u64_of_nat: "n < 2 ^ 64 \<Longrightarrow> unat (of_nat n :: u64) = n"
  by (simp add: unat_of_nat take_bit_nat_eq_self)

lemma unat_u64_Suc:
  "unat (x :: u64) + 1 < 2 ^ 64 \<Longrightarrow> unat (x + 1) = unat x + 1"
  using unat_u64_add [of x 1] by simp

lemma unat_u64_mult:
  "unat (a :: u64) * unat b < 2 ^ 64 \<Longrightarrow> unat (a * b) = unat a * unat b"
  using unat_mult_lem [of a b] by simp

text \<open>The product of an index below \<open>n\<close> fits where that of \<open>n\<close> does.\<close>

lemma unat_u64_index_mult:
  assumes "unat (n :: u64) * unat (k :: u64) < 2 ^ 64" and "i < unat n"
  shows "unat (of_nat i * k) = i * unat k"
proof -
  have i: "unat (of_nat i :: u64) = i" using assms(2) unat_u64_less [of n] by (intro unat_u64_of_nat) simp
  moreover have "i * unat k < 2 ^ 64"
    using assms(1) assms(2) mult_le_mono1 [of i "unat n" "unat k"] by linarith
  ultimately show ?thesis using assms(1) unat_u64_mult [of "of_nat i" k] by simp
qed

text \<open>
  The values of the counter of \<open>for(int i = 0; i < n; ++i)\<close> with a \<open>size_t\<close> bound. The comparison converts
  \<open>i\<close> to \<open>size_t\<close>, so a bound above \<open>INT_MAX\<close> is not reached before \<open>i\<close> overflows.
\<close>

definition int_loop :: "u64 \<Rightarrow> rt_error + nat list" where
  "int_loop n = (if uint n < 2 ^ 31 then Inr [0..<unat n] else Inl IntOverflow)"

lemma int_loop_eq_Inr [simp]: "int_loop n = Inr is \<longleftrightarrow> unat n < 2 ^ 31 \<and> is = [0..<unat n]"
proof -
  have "uint n < 2 ^ 31 \<longleftrightarrow> unat n < 2 ^ 31"
    unfolding uint_nat using of_nat_less_iff [of "unat n" "2 ^ 31", where 'a = int] by simp
  then show ?thesis by (auto simp: int_loop_def)
qed

lemma unat_u64_eq_1: "unat (x :: u64) = 1 \<longleftrightarrow> x = 1"
  by (metis unat_1 word_unat_eq_iff)

end
