(* ===== verification/QueueInterface.thy ===== *)
theory QueueInterface
  imports Prelude
begin

text \<open>
  The contract of a first-in-first-out queue, as the clients of \<open>data_structures/queue.hpp\<close> and
  of \<open>data_structures/concurrent_list.hpp\<close> rely on it: the event's action queue uses \<open>put\<close>
  (\<open>emplace\<close>) and \<open>take\<close> (\<open>consume_one\<close>), a worker uses \<open>put\<close> and \<open>take\<close> (\<open>pop\<close>) on its own
  queue and \<open>take_if\<close> (\<open>peak_and_pop_if\<close>) on the queue it steals from. The laws are stated
  against a list, through a representation relation. Two queues are interpretations: the linked
  nodes of \<open>ThreadSafeQueue\<close> and the locked \<open>std::list\<close> of \<open>ConcurrentContainers\<close>.
\<close>

section \<open>Sequences of queue operations\<close>

datatype 'a queue_op = Put 'a | Take | TakeIf "'a \<Rightarrow> bool"

text \<open>What each operation returns: the flag, and the element moved out (if any).\<close>

type_synonym 'a queue_out = "bool \<times> 'a option"

fun list_op :: "'a queue_op \<Rightarrow> 'a list \<Rightarrow> 'a queue_out \<times> 'a list" where
  "list_op (Put x) xs = ((True, None), xs @ [x])"
| "list_op Take [] = ((False, None), [])"
| "list_op Take (x # xs) = ((True, Some x), xs)"
| "list_op (TakeIf p) [] = ((False, None), [])"
| "list_op (TakeIf p) (x # xs) = (if p x then ((True, Some x), xs) else ((False, None), x # xs))"

fun list_run :: "'a queue_op list \<Rightarrow> 'a list \<Rightarrow> 'a queue_out list \<times> 'a list" where
  "list_run [] xs = ([], xs)"
| "list_run (c # cs) xs =
     (let (out, ys) = list_op c xs; (outs, zs) = list_run cs ys in (out # outs, zs))"

text \<open>The elements put and the elements taken by a run, in order.\<close>

fun puts :: "'a queue_op list \<Rightarrow> 'a list" where
  "puts [] = []"
| "puts (Put x # cs) = x # puts cs"
| "puts (_ # cs) = puts cs"

fun takes :: "'a queue_out list \<Rightarrow> 'a list" where
  "takes [] = []"
| "takes ((b, Some x) # outs) = x # takes outs"
| "takes ((b, None) # outs) = takes outs"

text \<open>
  First in, first out: what was taken, followed by what is left, is what was there at the start
  followed by what was put. So nothing is lost, duplicated or reordered.
\<close>

lemma list_run_fifo:
  "list_run cs xs = (outs, ys) \<Longrightarrow> takes outs @ ys = xs @ puts cs"
proof (induction cs arbitrary: xs outs ys)
  case Nil
  then show ?case by simp
next
  case (Cons c cs)
  then show ?case
    by (cases "(c, xs)" rule: list_op.cases)
       (auto split: prod.splits if_splits simp: Let_def)
qed

section \<open>The interface\<close>

locale fifo =
  fixes empty :: "'q"
    and put :: "'a \<Rightarrow> 'q \<Rightarrow> rt_error + (bool \<times> 'q)"
    and take :: "'q \<Rightarrow> rt_error + (bool \<times> 'a option \<times> 'q)"
    and rep :: "'q \<Rightarrow> 'a list \<Rightarrow> bool"
  assumes rep_empty: "rep empty []"
    and rep_put: "rep q xs \<Longrightarrow> \<exists>q'. put x q = Inr (True, q') \<and> rep q' (xs @ [x])"
    and take_Nil: "rep q [] \<Longrightarrow> take q = Inr (False, None, q)"
    and take_Cons: "rep q (x # xs) \<Longrightarrow> \<exists>q'. take q = Inr (True, Some x, q') \<and> rep q' xs"
begin

text \<open>Draining: as many takes as there are elements give them back in order.\<close>

lemma take_iff_nonempty:
  assumes "rep q xs"
  shows "\<exists>b v q'. take q = Inr (b, v, q') \<and> (b \<longleftrightarrow> xs \<noteq> []) \<and> (b \<longrightarrow> v = Some (hd xs))
    \<and> rep q' (tl xs)"
proof (cases xs)
  case Nil
  with assms show ?thesis using take_Nil [of q] by auto
next
  case (Cons y ys)
  with assms show ?thesis using take_Cons [of q y ys] by auto
qed

end

locale stealable_fifo = fifo empty put take rep
  for empty :: "'q"
    and put :: "'a \<Rightarrow> 'q \<Rightarrow> rt_error + (bool \<times> 'q)"
    and take :: "'q \<Rightarrow> rt_error + (bool \<times> 'a option \<times> 'q)"
    and rep :: "'q \<Rightarrow> 'a list \<Rightarrow> bool" +
  fixes take_if :: "('a \<Rightarrow> bool) \<Rightarrow> 'q \<Rightarrow> rt_error + (bool \<times> 'a option \<times> 'q)"
  assumes take_if_Nil: "rep q [] \<Longrightarrow> take_if p q = Inr (False, None, q)"
    and take_if_yes: "rep q (x # xs) \<Longrightarrow> p x
      \<Longrightarrow> \<exists>q'. take_if p q = Inr (True, Some x, q') \<and> rep q' xs"
    and take_if_no: "rep q (x # xs) \<Longrightarrow> \<not> p x
      \<Longrightarrow> \<exists>q'. take_if p q = Inr (False, None, q') \<and> rep q' (x # xs)"

text \<open>One operation of a queue given by its three functions, and a run of them.\<close>

fun exec_op :: "('a \<Rightarrow> 'q \<Rightarrow> rt_error + (bool \<times> 'q)) \<Rightarrow> ('q \<Rightarrow> rt_error + (bool \<times> 'a option \<times> 'q))
    \<Rightarrow> (('a \<Rightarrow> bool) \<Rightarrow> 'q \<Rightarrow> rt_error + (bool \<times> 'a option \<times> 'q))
    \<Rightarrow> 'a queue_op \<Rightarrow> 'q \<Rightarrow> rt_error + ('a queue_out \<times> 'q)" where
  "exec_op pt tk ti (Put x) q = bindE (pt x q) (\<lambda>(b, q'). Inr ((b, None), q'))"
| "exec_op pt tk ti Take q = bindE (tk q) (\<lambda>(b, v, q'). Inr ((b, v), q'))"
| "exec_op pt tk ti (TakeIf p) q = bindE (ti p q) (\<lambda>(b, v, q'). Inr ((b, v), q'))"

fun queue_run :: "('a \<Rightarrow> 'q \<Rightarrow> rt_error + (bool \<times> 'q)) \<Rightarrow> ('q \<Rightarrow> rt_error + (bool \<times> 'a option \<times> 'q))
    \<Rightarrow> (('a \<Rightarrow> bool) \<Rightarrow> 'q \<Rightarrow> rt_error + (bool \<times> 'a option \<times> 'q))
    \<Rightarrow> 'a queue_op list \<Rightarrow> 'q \<Rightarrow> rt_error + ('a queue_out list \<times> 'q)" where
  "queue_run pt tk ti [] q = Inr ([], q)"
| "queue_run pt tk ti (c # cs) q =
     bindE (exec_op pt tk ti c q) (\<lambda>(out, q').
       bindE (queue_run pt tk ti cs q') (\<lambda>(outs, q''). Inr (out # outs, q'')))"

context stealable_fifo begin

lemma exec_op_simulates:
  assumes "rep q xs"
  shows "\<exists>q'. exec_op put take take_if c q = Inr (fst (list_op c xs), q')
    \<and> rep q' (snd (list_op c xs))"
proof (cases "(c, xs)" rule: list_op.cases)
  case (1 x ys)
  with assms show ?thesis using rep_put [of q xs x] by auto
next
  case 2
  with assms show ?thesis using take_Nil [of q] by auto
next
  case (3 x ys)
  with assms show ?thesis using take_Cons [of q x ys] by auto
next
  case (4 p)
  with assms show ?thesis using take_if_Nil [of q p] by auto
next
  case (5 p x ys)
  with assms show ?thesis using take_if_yes [of q x ys p] take_if_no [of q x ys p] by auto
qed

lemma queue_run_simulates:
  "rep q xs \<Longrightarrow> \<exists>q'. queue_run put take take_if cs q = Inr (fst (list_run cs xs), q')
    \<and> rep q' (snd (list_run cs xs))"
proof (induction cs arbitrary: q xs)
  case Nil
  then show ?case by simp
next
  case (Cons c cs)
  obtain q' where op: "exec_op put take take_if c q = Inr (fst (list_op c xs), q')"
    and rep': "rep q' (snd (list_op c xs))"
    using exec_op_simulates [OF Cons.prems, of c] by blast
  from Cons.IH [OF rep'] op show ?case
    by (auto simp: Let_def split: prod.splits)
qed

lemma queue_run_total:
  "\<exists>outs q'. queue_run put take take_if cs empty = Inr (outs, q')
    \<and> rep q' (snd (list_run cs [])) \<and> takes outs @ snd (list_run cs []) = puts cs"
proof -
  obtain q' where "queue_run put take take_if cs empty = Inr (fst (list_run cs []), q')"
    and "rep q' (snd (list_run cs []))"
    using queue_run_simulates [OF rep_empty, of cs] by blast
  moreover have "takes (fst (list_run cs [])) @ snd (list_run cs []) = puts cs"
    using list_run_fifo [of cs "[]" "fst (list_run cs [])" "snd (list_run cs [])"] by simp
  ultimately show ?thesis by blast
qed

end

end
