(* ===== verification/ThreadSafeQueue.thy ===== *)
theory ThreadSafeQueue
  imports QueueInterface
begin

text \<open>
  \<open>src/src/data_structures/queue.hpp\<close>: \<open>SingleLockThreadSafeQueue\<close>, a singly linked list of nodes
  that own their successor, with a raw pointer to the last node. The node store is explicit, so
  that the pointer manipulations of the source are the ones modelled: \<open>std::swap(head_,
  head_->next)\<close> exchanges the two owning pointers, which leaves the old head node owning itself.
  Every operation holds the one mutex for its whole body, so an operation is one step here.
\<close>

section \<open>Nodes and the queue\<close>

record 'a node =
  node_next :: "nat option"
  node_value :: "'a option"

record 'a tsq =
  tsq_nodes :: "nat \<Rightarrow> 'a node option"   \<comment> \<open>the node at each address, if one is alive there\<close>
  tsq_fresh :: nat                       \<comment> \<open>no node was ever allocated at or above\<close>
  tsq_head :: "nat option"               \<comment> \<open>\<open>head_\<close>\<close>
  tsq_tail :: "nat option"               \<comment> \<open>\<open>tail_\<close>\<close>

definition tsq_empty :: "'a tsq" where
  "tsq_empty = \<lparr>tsq_nodes = (\<lambda>_. None), tsq_fresh = 0, tsq_head = None, tsq_tail = None\<rparr>"

definition make_node :: "'a \<Rightarrow> 'a tsq \<Rightarrow> nat \<times> 'a tsq" where
  "make_node x q =
     (tsq_fresh q,
      q\<lparr>tsq_nodes := (tsq_nodes q)(tsq_fresh q \<mapsto> \<lparr>node_next = None, node_value = Some x\<rparr>),
        tsq_fresh := Suc (tsq_fresh q)\<rparr>)"

definition emplace :: "'a \<Rightarrow> 'a tsq \<Rightarrow> rt_error + (bool \<times> 'a tsq)" where
  "emplace x q =
     (case tsq_head q of
        None \<Rightarrow>
          (let (a, q') = make_node x q
           in Inr (True, q'\<lparr>tsq_head := Some a, tsq_tail := Some a\<rparr>))
      | Some _ \<Rightarrow>
          bindE (deref NullPointer (tsq_tail q)) (\<lambda>t.
          bindE (deref NullPointer (tsq_nodes q t)) (\<lambda>n.
          bindE (require BrokenTail (node_next n = None)) (\<lambda>_.
            let (a, q') = make_node x q
            in Inr (True, q'\<lparr>tsq_nodes := (tsq_nodes q')(t \<mapsto> n\<lparr>node_next := Some a\<rparr>),
                             tsq_tail := Some a\<rparr>)))))"

definition push :: "'a \<Rightarrow> 'a tsq \<Rightarrow> rt_error + (bool \<times> 'a tsq)" where
  "push x q = emplace x q"

text \<open>
  The unlinking shared by \<open>consume_one\<close> and \<open>peak_and_pop_if\<close>: the tail is reset if the head was
  the last node, then \<open>head_\<close> and \<open>head_->next\<close> are exchanged. The right-hand side of the exchange
  is a field of the node that \<open>head_\<close> owned, so that node ends up owning itself.
\<close>

definition unlink_head :: "nat \<Rightarrow> 'a node \<Rightarrow> 'a tsq \<Rightarrow> 'a tsq" where
  "unlink_head h n q =
     q\<lparr>tsq_tail := (if tsq_tail q = Some h then None else tsq_tail q),
       tsq_head := node_next n,
       tsq_nodes := (tsq_nodes q)(h \<mapsto> n\<lparr>node_next := Some h\<rparr>)\<rparr>"

definition consume_one :: "('a \<Rightarrow> 's \<Rightarrow> 's) \<Rightarrow> 'a tsq \<Rightarrow> 's \<Rightarrow> rt_error + (bool \<times> 'a tsq \<times> 's)" where
  "consume_one callable q s =
     (case tsq_head q of
        None \<Rightarrow> Inr (False, q, s)
      | Some h \<Rightarrow>
          bindE (deref NullPointer (tsq_nodes q h)) (\<lambda>n.
            let q' = unlink_head h (n\<lparr>node_value := None\<rparr>) q
            in bindE (deref NullPointer (node_value n)) (\<lambda>v.
                 Inr (True, q', callable v s))))"

partial_function (option) consume_all_from ::
  "('a \<Rightarrow> 's \<Rightarrow> 's) \<Rightarrow> 'a tsq \<Rightarrow> 's \<Rightarrow> nat \<Rightarrow> (rt_error + (nat \<times> 'a tsq \<times> 's)) option" where
  "consume_all_from callable q s consumed =
     (case consume_one callable q s of
        Inl e \<Rightarrow> Some (Inl e)
      | Inr (b, q', s') \<Rightarrow>
          if b then consume_all_from callable q' s' (Suc consumed)
          else Some (Inr (consumed, q', s')))"

definition consume_all ::
  "('a \<Rightarrow> 's \<Rightarrow> 's) \<Rightarrow> 'a tsq \<Rightarrow> 's \<Rightarrow> (rt_error + (nat \<times> 'a tsq \<times> 's)) option" where
  "consume_all callable q s = consume_all_from callable q s 0"

text \<open>\<open>pop\<close> assigns the consumed value to its reference argument.\<close>

definition pop :: "'a tsq \<Rightarrow> 'a option \<Rightarrow> rt_error + (bool \<times> 'a tsq \<times> 'a option)" where
  "pop q popped = consume_one (\<lambda>val _. Some val) q popped"

text \<open>
  \<open>peak_and_pop_if\<close> hands the value pointer to the callable; the value is put back when the
  callable declines it, and the reference argument is then set to the default value.
\<close>

definition peak_and_pop_if ::
  "('a option \<Rightarrow> rt_error + bool) \<Rightarrow> 'a tsq \<Rightarrow> 'a option \<Rightarrow> 'a option
     \<Rightarrow> rt_error + (bool \<times> 'a tsq \<times> 'a option)" where
  "peak_and_pop_if callable q maybe_popped default_value =
     (case tsq_head q of
        None \<Rightarrow> Inr (False, q, maybe_popped)
      | Some h \<Rightarrow>
          bindE (deref NullPointer (tsq_nodes q h)) (\<lambda>n.
          bindE (callable (node_value n)) (\<lambda>yes.
            if yes then
              let q' = unlink_head h (n\<lparr>node_value := None\<rparr>) q
              in bindE (deref NullPointer (node_value n)) (\<lambda>v. Inr (True, q', Some v))
            else Inr (False, q, default_value))))"

text \<open>
  The destructor: \<open>head_\<close> releases the node it owns, which releases the node that one owns, and
  so on.
\<close>

partial_function (option) free_chain ::
  "(nat \<Rightarrow> 'a node option) \<Rightarrow> nat option \<Rightarrow> (rt_error + (nat \<Rightarrow> 'a node option)) option" where
  "free_chain nodes p =
     (case p of
        None \<Rightarrow> Some (Inr nodes)
      | Some a \<Rightarrow>
          (case nodes a of
             None \<Rightarrow> Some (Inl BadFree)
           | Some n \<Rightarrow> free_chain (nodes(a := None)) (node_next n)))"

definition live_nodes :: "nat \<Rightarrow> (nat \<Rightarrow> 'a node option) \<Rightarrow> nat" where
  "live_nodes bound nodes = length (filter (\<lambda>a. nodes a \<noteq> None) [0..<bound])"

section \<open>The list a queue represents\<close>

fun chain :: "(nat \<Rightarrow> 'a node option) \<Rightarrow> nat option \<Rightarrow> nat list \<Rightarrow> bool" where
  "chain nodes p [] \<longleftrightarrow> p = None"
| "chain nodes p (a # as) \<longleftrightarrow>
     p = Some a \<and> (case nodes a of None \<Rightarrow> False | Some n \<Rightarrow> chain nodes (node_next n) as)"

definition holds_value :: "(nat \<Rightarrow> 'a node option) \<Rightarrow> nat \<Rightarrow> 'a \<Rightarrow> bool" where
  "holds_value nodes a x \<longleftrightarrow> (case nodes a of None \<Rightarrow> False | Some n \<Rightarrow> node_value n = Some x)"

definition tsq_chain :: "'a tsq \<Rightarrow> nat list \<Rightarrow> 'a list \<Rightarrow> bool" where
  "tsq_chain q as xs \<longleftrightarrow>
     chain (tsq_nodes q) (tsq_head q) as \<and> distinct as
     \<and> list_all2 (holds_value (tsq_nodes q)) as xs
     \<and> tsq_tail q = (if as = [] then None else Some (last as))
     \<and> (\<forall>a\<ge>tsq_fresh q. tsq_nodes q a = None)"

definition tsq_rep :: "'a tsq \<Rightarrow> 'a list \<Rightarrow> bool" where
  "tsq_rep q xs \<longleftrightarrow> (\<exists>as. tsq_chain q as xs)"

subsection \<open>Lemmas on chains\<close>

lemma chain_alive: "chain nodes p as \<Longrightarrow> a \<in> set as \<Longrightarrow> \<exists>n. nodes a = Some n"
  by (induction as arbitrary: p) (auto split: option.splits)

lemma chain_cong:
  "(\<And>a. a \<in> set as \<Longrightarrow> nodes' a = nodes a) \<Longrightarrow> chain nodes' p as = chain nodes p as"
proof (induction as arbitrary: p)
  case (Cons a as)
  then show ?case by (auto split: option.splits)
qed simp

lemma list_all2_holds_cong:
  "(\<And>a. a \<in> set as \<Longrightarrow> nodes' a = nodes a)
    \<Longrightarrow> list_all2 (holds_value nodes') as xs = list_all2 (holds_value nodes) as xs"
  by (rule list.rel_cong) (auto simp: holds_value_def)

lemma chain_last_next:
  "chain nodes p as \<Longrightarrow> as \<noteq> [] \<Longrightarrow> nodes (last as) = Some n \<Longrightarrow> node_next n = None"
proof (induction as arbitrary: p)
  case (Cons a as)
  then show ?case by (cases as) (auto split: option.splits)
qed simp

lemma chain_snoc:
  assumes "chain nodes p as" and "as \<noteq> []" and "distinct as" and "b \<notin> set as"
    and "\<And>a. a \<in> set as \<Longrightarrow> a \<noteq> last as \<Longrightarrow> nodes' a = nodes a"
    and "nodes' (last as) = Some n" and "node_next n = Some b"
    and "nodes' b = Some nb" and "node_next nb = None"
  shows "chain nodes' p (as @ [b])"
  using assms
proof (induction as arbitrary: p)
  case Nil
  then show ?case by simp
next
  case (Cons a as)
  show ?case
  proof (cases "as = []")
    case True
    with Cons.prems show ?thesis by auto
  next
    case False
    with Cons.prems obtain m where m: "nodes a = Some m" and rest: "chain nodes (node_next m) as"
      by (auto split: option.splits)
    from False Cons.prems have eq: "nodes' a = Some m" using m by (metis last_ConsR last_in_set
      distinct.simps(2) list.set_intros(1))
    from False Cons.prems rest have "chain nodes' (node_next m) (as @ [b])"
      by (intro Cons.IH) auto
    with Cons.prems(1) eq show ?thesis by (auto split: option.splits)
  qed
qed

section \<open>Each operation on a represented list\<close>

lemma tsq_rep_empty: "tsq_rep tsq_empty []"
  by (auto simp: tsq_rep_def tsq_chain_def tsq_empty_def intro!: exI [of _ "[]"])

lemma tsq_chain_head: "tsq_chain q as xs \<Longrightarrow> tsq_head q = (if as = [] then None else Some (hd as))"
  by (cases as) (auto simp: tsq_chain_def)

lemma tsq_chain_fresh: "tsq_chain q as xs \<Longrightarrow> tsq_fresh q \<notin> set as"
  using chain_alive [of "tsq_nodes q" "tsq_head q" as "tsq_fresh q"]
  by (auto simp: tsq_chain_def)

lemma tsq_chain_length: "tsq_chain q as xs \<Longrightarrow> length as = length xs"
  by (auto simp: tsq_chain_def dest: list_all2_lengthD)

lemma emplace_chain:
  assumes rep: "tsq_chain q as xs"
  shows "\<exists>q'. emplace x q = Inr (True, q') \<and> tsq_chain q' (as @ [tsq_fresh q]) (xs @ [x])
    \<and> tsq_fresh q' = Suc (tsq_fresh q)
    \<and> dom (tsq_nodes q') = insert (tsq_fresh q) (dom (tsq_nodes q))"
proof (cases as rule: rev_cases)
  case Nil
  with rep have "tsq_head q = None" and "xs = []"
    by (auto simp: tsq_chain_def)
  let ?q' = "q\<lparr>tsq_nodes := (tsq_nodes q)(tsq_fresh q \<mapsto> \<lparr>node_next = None, node_value = Some x\<rparr>),
    tsq_fresh := Suc (tsq_fresh q), tsq_head := Some (tsq_fresh q), tsq_tail := Some (tsq_fresh q)\<rparr>"
  have "emplace x q = Inr (True, ?q')"
    using \<open>tsq_head q = None\<close> by (simp add: emplace_def make_node_def)
  moreover have "tsq_chain ?q' [tsq_fresh q] [x]"
    using rep by (simp add: tsq_chain_def holds_value_def)
  ultimately show ?thesis using Nil \<open>xs = []\<close> by simp
next
  case (snoc bs t)
  then have ne: "as \<noteq> []" and last: "last as = t" by auto
  with rep have tl: "tsq_tail q = Some t" by (simp add: tsq_chain_def)
  from ne tsq_chain_head [OF rep] have hd: "tsq_head q = Some (hd as)" by simp
  from rep ne obtain n where n: "tsq_nodes q t = Some n"
    using chain_alive [of "tsq_nodes q" "tsq_head q" as t] snoc by (auto simp: tsq_chain_def)
  with rep ne last have nx: "node_next n = None"
    using chain_last_next [of "tsq_nodes q" "tsq_head q" as n] by (simp add: tsq_chain_def)
  let ?b = "tsq_fresh q"
  define N where "N = (tsq_nodes q)(?b \<mapsto> \<lparr>node_next = None, node_value = Some x\<rparr>,
    t \<mapsto> n\<lparr>node_next := Some ?b\<rparr>)"
  from rep have fresh: "?b \<notin> set as" by (rule tsq_chain_fresh)
  then have tb: "t \<noteq> ?b" using snoc by auto
  have N_t: "N t = Some (n\<lparr>node_next := Some ?b\<rparr>)"
    and N_b: "N ?b = Some \<lparr>node_next = None, node_value = Some x\<rparr>"
    and N_other: "\<And>a. a \<noteq> t \<Longrightarrow> a \<noteq> ?b \<Longrightarrow> N a = tsq_nodes q a"
    using tb by (auto simp: N_def)
  have ch: "chain N (tsq_head q) (as @ [?b])"
  proof (rule chain_snoc)
    show "chain (tsq_nodes q) (tsq_head q) as" "distinct as" using rep by (auto simp: tsq_chain_def)
    show "N a = tsq_nodes q a" if "a \<in> set as" "a \<noteq> last as" for a
      using that fresh last by (intro N_other) auto
  qed (use ne fresh last N_t N_b in auto)
  have "list_all2 (holds_value (tsq_nodes q)) as xs" using rep by (simp add: tsq_chain_def)
  then have "list_all2 (holds_value N) as xs"
  proof (rule list.rel_mono_strong)
    fix a y assume "a \<in> set as" and h: "holds_value (tsq_nodes q) a y"
    show "holds_value N a y"
    proof (cases "a = t")
      case True
      with h n N_t show ?thesis by (simp add: holds_value_def)
    next
      case False
      moreover have "a \<noteq> ?b" using \<open>a \<in> set as\<close> fresh by auto
      ultimately show ?thesis using h N_other by (simp add: holds_value_def)
    qed
  qed
  then have all: "list_all2 (holds_value N) (as @ [?b]) (xs @ [x])"
    using N_b by (intro list_all2_appendI) (auto simp: holds_value_def)
  let ?q' = "q\<lparr>tsq_nodes := N, tsq_fresh := Suc ?b, tsq_tail := Some ?b\<rparr>"
  have "emplace x q = Inr (True, ?q')"
    using hd tl n nx by (simp add: emplace_def make_node_def N_def)
  moreover have "tsq_chain ?q' (as @ [?b]) (xs @ [x])"
    using rep ch all fresh N_other N_t N_b snoc n unfolding tsq_chain_def
    by simp (metis Suc_leD not_less_eq_eq option.distinct(1))
  moreover have "dom N = insert ?b (dom (tsq_nodes q))"
    using n by (auto simp: N_def)
  ultimately show ?thesis by auto
qed

lemma emplace_rep:
  assumes "tsq_rep q xs"
  shows "\<exists>q'. emplace x q = Inr (True, q') \<and> tsq_rep q' (xs @ [x])"
proof -
  from assms obtain as where "tsq_chain q as xs" by (auto simp: tsq_rep_def)
  from emplace_chain [OF this, of x] show ?thesis by (auto simp: tsq_rep_def)
qed

text \<open>Unlinking the head of a non-empty queue.\<close>

lemma unlink_head_chain:
  assumes rep: "tsq_chain q (h # as) (x # xs)"
  obtains n where "tsq_nodes q h = Some n" and "node_value n = Some x"
    and "tsq_chain (unlink_head h (n\<lparr>node_value := None\<rparr>) q) as xs"
proof -
  from rep obtain n where n: "tsq_nodes q h = Some n" and v: "node_value n = Some x"
    and ch: "chain (tsq_nodes q) (node_next n) as"
    by (auto simp: tsq_chain_def holds_value_def split: option.splits)
  define N where "N = (tsq_nodes q)(h \<mapsto> n\<lparr>node_value := None, node_next := Some h\<rparr>)"
  from rep have h: "h \<notin> set as" and all: "list_all2 (holds_value (tsq_nodes q)) as xs"
    by (auto simp: tsq_chain_def)
  then have same: "N a = tsq_nodes q a" if "a \<in> set as" for a
    using that by (auto simp: N_def)
  have "chain N (node_next n) as" "list_all2 (holds_value N) as xs"
    using ch all chain_cong [of as N "tsq_nodes q", OF same]
      list_all2_holds_cong [of as N "tsq_nodes q", OF same] by simp_all
  moreover have "\<forall>a\<ge>tsq_fresh q. N a = None"
    using rep n by (auto simp: N_def tsq_chain_def)
  ultimately have "tsq_chain (unlink_head h (n\<lparr>node_value := None\<rparr>) q) as xs"
    using rep h N_def by (cases as) (auto simp: tsq_chain_def unlink_head_def)
  with n v show thesis by (rule that)
qed

lemma tsq_rep_Nil_iff: "tsq_rep q [] \<Longrightarrow> tsq_head q = None"
  by (auto simp: tsq_rep_def tsq_chain_def)

lemma tsq_chain_ConsE:
  assumes "tsq_chain q as (x # xs)"
  obtains h bs where "as = h # bs" and "tsq_head q = Some h"
  using assms by (cases as) (auto simp: tsq_chain_def)

lemma consume_one_Nil: "tsq_rep q [] \<Longrightarrow> consume_one f q s = Inr (False, q, s)"
  by (simp add: consume_one_def tsq_rep_Nil_iff)

lemma consume_one_chain:
  assumes "tsq_chain q (h # as) (x # xs)"
  shows "\<exists>q'. consume_one f q s = Inr (True, q', f x s) \<and> tsq_chain q' as xs
    \<and> tsq_nodes q' = (tsq_nodes q)(h \<mapsto> \<lparr>node_next = Some h, node_value = None\<rparr>)
    \<and> tsq_fresh q' = tsq_fresh q"
proof -
  from assms have hd: "tsq_head q = Some h" by (simp add: tsq_chain_def)
  from assms obtain n where "tsq_nodes q h = Some n" "node_value n = Some x"
    "tsq_chain (unlink_head h (n\<lparr>node_value := None\<rparr>) q) as xs"
    by (rule unlink_head_chain)
  with hd show ?thesis
    by (auto simp: consume_one_def unlink_head_def Let_def)
qed

lemma consume_one_Cons:
  assumes "tsq_rep q (x # xs)"
  shows "\<exists>q'. consume_one f q s = Inr (True, q', f x s) \<and> tsq_rep q' xs"
proof -
  from assms obtain h as where "tsq_chain q (h # as) (x # xs)"
    by (metis tsq_rep_def tsq_chain_ConsE)
  from consume_one_chain [OF this, of f s] show ?thesis by (auto simp: tsq_rep_def)
qed

lemma peak_Nil: "tsq_rep q [] \<Longrightarrow> peak_and_pop_if c q m d = Inr (False, q, m)"
  by (simp add: peak_and_pop_if_def tsq_rep_Nil_iff)

lemma peak_Cons:
  assumes "tsq_rep q (x # xs)" and "c (Some x) = Inr yes"
  shows "\<exists>q'. peak_and_pop_if c q m d = Inr (yes, q', if yes then Some x else d)
    \<and> tsq_rep q' (if yes then xs else x # xs)"
proof -
  from assms(1) obtain h as where ch: "tsq_chain q (h # as) (x # xs)" and hd: "tsq_head q = Some h"
    by (metis tsq_rep_def tsq_chain_ConsE)
  from ch obtain n where "tsq_nodes q h = Some n" "node_value n = Some x"
    "tsq_chain (unlink_head h (n\<lparr>node_value := None\<rparr>) q) as xs"
    by (rule unlink_head_chain)
  with hd assms show ?thesis
    by (auto simp: peak_and_pop_if_def Let_def tsq_rep_def)
qed

section \<open>The linked queue implements the interface\<close>

definition tsq_take :: "'a tsq \<Rightarrow> rt_error + (bool \<times> 'a option \<times> 'a tsq)" where
  "tsq_take q = bindE (pop q None) (\<lambda>(b, q', v). Inr (b, v, q'))"

definition tsq_take_if ::
  "('a \<Rightarrow> bool) \<Rightarrow> 'a tsq \<Rightarrow> rt_error + (bool \<times> 'a option \<times> 'a tsq)" where
  "tsq_take_if p q =
     bindE (peak_and_pop_if (\<lambda>v. bindE (deref NullPointer v) (\<lambda>x. Inr (p x))) q None None)
       (\<lambda>(b, q', v). Inr (b, v, q'))"

interpretation tsq: stealable_fifo tsq_empty emplace tsq_take tsq_rep tsq_take_if
proof (unfold_locales, goal_cases)
  case 1
  show ?case by (rule tsq_rep_empty)
next
  case (2 q xs x)
  then show ?case by (rule emplace_rep)
next
  case (3 q)
  then show ?case by (simp add: tsq_take_def pop_def consume_one_Nil)
next
  case (4 q x xs)
  then show ?case
    using consume_one_Cons [of q x xs "\<lambda>val _. Some val" None] by (auto simp: tsq_take_def pop_def)
next
  case (5 q p)
  then show ?case by (simp add: tsq_take_if_def peak_Nil)
next
  case (6 q x xs p)
  then show ?case
    using peak_Cons [of q x xs "\<lambda>v. bindE (deref NullPointer v) (\<lambda>x. Inr (p x))" True None None]
    by (auto simp: tsq_take_if_def)
next
  case (7 q x xs p)
  then show ?case
    using peak_Cons [of q x xs "\<lambda>v. bindE (deref NullPointer v) (\<lambda>x. Inr (p x))" False None None]
    by (auto simp: tsq_take_if_def)
qed

section \<open>Properties\<close>

text \<open>
  C13. Whatever sequence of \<open>emplace\<close>, \<open>pop\<close> and \<open>peak_and_pop_if\<close> calls is made on a new queue, no
  call dereferences a null pointer or fails its assertion, every call returns what the same call
  on a list returns, and the elements come out in the order they went in: what was popped followed
  by what the queue still holds is exactly what was emplaced.
\<close>

theorem tsq_fifo:
  "\<exists>outs q'. queue_run emplace tsq_take tsq_take_if ops tsq_empty = Inr (outs, q')
     \<and> outs = fst (list_run ops []) \<and> tsq_rep q' (snd (list_run ops []))
     \<and> takes outs @ snd (list_run ops []) = puts ops"
proof -
  obtain q' where "queue_run emplace tsq_take tsq_take_if ops tsq_empty
      = Inr (fst (list_run ops []), q')" and "tsq_rep q' (snd (list_run ops []))"
    using tsq.queue_run_simulates [OF tsq.rep_empty, of ops] by blast
  moreover have "takes (fst (list_run ops [])) @ snd (list_run ops []) = puts ops"
    using list_run_fifo [of ops "[]" "fst (list_run ops [])" "snd (list_run ops [])"] by simp
  ultimately show ?thesis by blast
qed

text \<open>\<open>consume_all\<close> terminates and hands every element to the callable, in order.\<close>

lemma consume_all_from_rep:
  "tsq_rep q xs \<Longrightarrow> \<exists>q'. consume_all_from f q s k = Some (Inr (k + length xs, q', fold f xs s))
     \<and> tsq_rep q' []"
proof (induction xs arbitrary: q s k)
  case Nil
  then show ?case by (subst consume_all_from.simps) (simp add: consume_one_Nil)
next
  case (Cons x xs)
  from consume_one_Cons [OF Cons.prems, of f s] obtain q1
    where "consume_one f q s = Inr (True, q1, f x s)" and "tsq_rep q1 xs" by blast
  with Cons.IH [of q1 "f x s" "Suc k"] show ?case
    by (subst consume_all_from.simps) auto
qed

text \<open>
  C25. \<open>consume_all\<close> returns: on a queue that holds \<open>xs\<close> it runs the callable on each element of
  \<open>xs\<close> in queue order, returns their number and leaves the queue empty.
\<close>

theorem consume_all_drains:
  assumes "tsq_rep q xs"
  shows "\<exists>q'. consume_all f q s = Some (Inr (length xs, q', fold f xs s)) \<and> tsq_rep q' []"
  using consume_all_from_rep [OF assms, of f s 0] by (simp add: consume_all_def)

theorem consume_all_drains_witness:
  "\<exists>q q'. emplace (7 :: nat) tsq_empty = Inr (True, q)
     \<and> consume_all (+) q 1 = Some (Inr (1, q', 8)) \<and> tsq_rep q' []"
proof -
  obtain q where q: "emplace (7 :: nat) tsq_empty = Inr (True, q)" and rep: "tsq_rep q [7]"
    using emplace_rep [OF tsq_rep_empty, of "7 :: nat"] by auto
  obtain q' where "consume_all (+) q 1 = Some (Inr (length [7 :: nat], q', fold (+) [7] 1))"
    and "tsq_rep q' []"
    using consume_all_drains [OF rep, of "(+)" 1] by blast
  with q show ?thesis by (intro exI [of _ q] exI [of _ q']) simp
qed

subsection \<open>Nodes that are never released\<close>

lemma live_nodes_card: "live_nodes b nodes = card ({..<b} \<inter> dom nodes)"
proof -
  have "set (filter (\<lambda>a. nodes a \<noteq> None) [0..<b]) = {..<b} \<inter> dom nodes"
    by (auto simp: domIff)
  moreover have "distinct (filter (\<lambda>a. nodes a \<noteq> None) [0..<b])" by simp
  ultimately show ?thesis
    unfolding live_nodes_def using distinct_card by fastforce
qed

abbreviation allocated :: "'a tsq \<Rightarrow> nat" where
  "allocated q \<equiv> live_nodes (tsq_fresh q) (tsq_nodes q)"

lemma emplace_allocated:
  assumes "tsq_chain q as xs" and "emplace x q = Inr (b, q')"
  shows "allocated q' = Suc (allocated q)"
proof -
  let ?b = "tsq_fresh q"
  from emplace_chain [OF assms(1), of x] assms(2)
  have dom: "dom (tsq_nodes q') = insert ?b (dom (tsq_nodes q))" and fr: "tsq_fresh q' = Suc ?b"
    by auto
  then have "{..<Suc ?b} \<inter> dom (tsq_nodes q') = insert ?b ({..<?b} \<inter> dom (tsq_nodes q))"
    by auto
  then show ?thesis by (simp add: live_nodes_card fr)
qed

lemma consume_one_allocated:
  assumes "tsq_chain q as xs" and "consume_one f q s = Inr (b, q', s')"
  shows "allocated q' = allocated q"
proof (cases xs)
  case Nil
  with assms show ?thesis by (auto simp: consume_one_def tsq_chain_def)
next
  case (Cons y ys)
  with assms(1) obtain h bs where as: "as = h # bs" by (metis tsq_chain_ConsE)
  with assms Cons consume_one_chain [of q h bs y ys f s]
  have N: "tsq_nodes q' = (tsq_nodes q)(h \<mapsto> \<lparr>node_next = Some h, node_value = None\<rparr>)"
    and fr: "tsq_fresh q' = tsq_fresh q" by auto
  from assms(1) as have "h \<in> dom (tsq_nodes q)" by (auto simp: tsq_chain_def split: option.splits)
  then show ?thesis by (simp add: live_nodes_card N fr insert_absorb)
qed

lemma peak_allocated:
  assumes "tsq_chain q as xs" and "peak_and_pop_if c q m d = Inr (b, q', m')"
  shows "allocated q' = allocated q"
proof (cases xs)
  case Nil
  with assms show ?thesis by (auto simp: peak_and_pop_if_def tsq_chain_def)
next
  case (Cons y ys)
  with assms(1) obtain h bs where as: "as = h # bs" by (metis tsq_chain_ConsE)
  with assms(1) obtain n where "tsq_head q = Some h" "tsq_nodes q h = Some n"
    by (auto simp: tsq_chain_def split: option.splits)
  with assms(2) show ?thesis
    by (auto simp: peak_and_pop_if_def unlink_head_def Let_def live_nodes_card insert_absorb domI
        split: if_splits)
qed

lemma exec_op_allocated:
  assumes "tsq_rep q xs" and "exec_op emplace tsq_take tsq_take_if c q = Inr (out, q')"
  shows "allocated q' = allocated q + length (puts [c])"
proof -
  from assms(1) obtain as where ch: "tsq_chain q as xs" by (auto simp: tsq_rep_def)
  from assms(2) show ?thesis
    by (cases c) (auto simp: tsq_take_def tsq_take_if_def pop_def
        dest: emplace_allocated [OF ch] consume_one_allocated [OF ch] peak_allocated [OF ch])
qed

lemma puts_Cons: "length (puts (c # cs)) = length (puts [c]) + length (puts cs)"
  by (cases c) simp_all

lemma queue_run_allocated:
  "tsq_rep q xs \<Longrightarrow> queue_run emplace tsq_take tsq_take_if cs q = Inr (outs, q')
    \<Longrightarrow> allocated q' = allocated q + length (puts cs)"
proof (induction cs arbitrary: q xs outs)
  case Nil
  then show ?case by simp
next
  case (Cons c cs)
  from Cons.prems(2) obtain out q1 outs1
    where op: "exec_op emplace tsq_take tsq_take_if c q = Inr (out, q1)"
      and run: "queue_run emplace tsq_take tsq_take_if cs q1 = Inr (outs1, q')"
    by auto
  from op tsq.exec_op_simulates [OF Cons.prems(1), of c]
  have "tsq_rep q1 (snd (list_op c xs))" by auto
  from Cons.IH [OF this run] exec_op_allocated [OF Cons.prems(1) op] show ?case
    using puts_Cons [of c cs] by simp
qed

lemma free_chain_chain:
  "chain nodes p as \<Longrightarrow> distinct as
    \<Longrightarrow> free_chain nodes p = Some (Inr (\<lambda>a. if a \<in> set as then None else nodes a))"
proof (induction as arbitrary: nodes p)
  case Nil
  then show ?case by (subst free_chain.simps) simp
next
  case (Cons a as)
  then obtain n where n: "nodes a = Some n" and ch: "chain nodes (node_next n) as" and p: "p = Some a"
    by (auto split: option.splits)
  have "chain (nodes(a := None)) (node_next n) as = chain nodes (node_next n) as"
    by (rule chain_cong) (use Cons.prems in auto)
  with ch have "chain (nodes(a := None)) (node_next n) as" by simp
  with Cons have IH: "free_chain (nodes(a := None)) (node_next n)
      = Some (Inr (\<lambda>b. if b \<in> set as then None else (nodes(a := None)) b))" by auto
  have "free_chain nodes p = free_chain (nodes(a := None)) (node_next n)"
    using n p by (subst free_chain.simps) simp
  with IH show ?case by (auto simp: fun_eq_iff)
qed

subsection \<open>The nodes that are left behind\<close>

text \<open>Every node that is not linked is empty and owns itself.\<close>

definition unlinked_own_themselves :: "'a tsq \<Rightarrow> nat list \<Rightarrow> bool" where
  "unlinked_own_themselves q as \<longleftrightarrow>
     (\<forall>a n. a \<notin> set as \<longrightarrow> tsq_nodes q a = Some n \<longrightarrow> n = \<lparr>node_next = Some a, node_value = None\<rparr>)"

definition tsq_sound :: "'a tsq \<Rightarrow> 'a list \<Rightarrow> bool" where
  "tsq_sound q xs \<longleftrightarrow> (\<exists>as. tsq_chain q as xs \<and> unlinked_own_themselves q as)"

lemma emplace_sound:
  assumes "tsq_sound q xs" and "emplace x q = Inr (b, q')"
  shows "tsq_sound q' (xs @ [x])"
proof -
  from assms(1) obtain as where ch: "tsq_chain q as xs" and un: "unlinked_own_themselves q as"
    by (auto simp: tsq_sound_def)
  have "tsq_nodes q' a = tsq_nodes q a" if "a \<notin> set (as @ [tsq_fresh q])" for a
    using assms(2) that ch tsq_chain_head [OF ch]
    by (auto simp: emplace_def make_node_def Let_def tsq_chain_def split: if_splits)
  with un have "unlinked_own_themselves q' (as @ [tsq_fresh q])" by (simp add: unlinked_own_themselves_def)
  with emplace_chain [OF ch, of x] assms(2) show ?thesis by (auto simp: tsq_sound_def)
qed

lemma consume_one_sound:
  assumes "tsq_sound q xs" and "consume_one f q s = Inr (b, q', s')"
  shows "tsq_sound q' (if b then tl xs else xs)"
proof (cases xs)
  case Nil
  with assms show ?thesis by (auto simp: consume_one_def tsq_sound_def tsq_chain_def)
next
  case (Cons y ys)
  from assms(1) obtain as where ch: "tsq_chain q as xs" and un: "unlinked_own_themselves q as"
    by (auto simp: tsq_sound_def)
  from ch Cons obtain h bs where as: "as = h # bs" by (metis tsq_chain_ConsE)
  from consume_one_chain [OF ch [unfolded as Cons], of f s] assms(2)
  have "b" "tsq_chain q' bs ys"
    and N: "tsq_nodes q' = (tsq_nodes q)(h \<mapsto> \<lparr>node_next = Some h, node_value = None\<rparr>)" by auto
  moreover from un have "unlinked_own_themselves q' bs" by (simp add: unlinked_own_themselves_def N as)
  ultimately show ?thesis using Cons by (auto simp: tsq_sound_def)
qed

text \<open>A value that is taken by \<open>peak_and_pop_if\<close> is taken as by \<open>consume_one\<close>.\<close>

lemma peak_sound:
  assumes "tsq_sound q xs" and r: "peak_and_pop_if c q m d = Inr (b, q', m')"
  shows "tsq_sound q' (if b then tl xs else xs)"
proof (cases b)
  case False
  with r have "q' = q" by (auto simp: peak_and_pop_if_def Let_def split: option.splits if_splits)
  with False assms(1) show ?thesis by simp
next
  case True
  with r obtain v where "consume_one (\<lambda>val _. Some val) q None = Inr (True, q', Some v)"
    by (auto simp: peak_and_pop_if_def consume_one_def Let_def split: option.splits if_splits)
  from consume_one_sound [OF assms(1) this] True show ?thesis by simp
qed

lemma exec_op_sound:
  assumes "tsq_sound q xs" and "exec_op emplace tsq_take tsq_take_if c q = Inr (out, q')"
  shows "\<exists>xs'. tsq_sound q' xs'"
  using assms(2)
  by (cases c) (auto simp: tsq_take_def tsq_take_if_def pop_def
      dest: emplace_sound [OF assms(1)] consume_one_sound [OF assms(1)] peak_sound [OF assms(1)])

lemma queue_run_sound:
  "tsq_sound q xs \<Longrightarrow> queue_run emplace tsq_take tsq_take_if cs q = Inr (outs, q') \<Longrightarrow> \<exists>xs'. tsq_sound q' xs'"
proof (induction cs arbitrary: q xs outs)
  case Nil
  then show ?case by auto
next
  case (Cons c cs)
  from Cons.prems(2) obtain out q1 outs1
    where "exec_op emplace tsq_take tsq_take_if c q = Inr (out, q1)"
      and "queue_run emplace tsq_take tsq_take_if cs q1 = Inr (outs1, q')"
    by auto
  with exec_op_sound [OF Cons.prems(1)] Cons.IH show ?case by blast
qed

lemma chain_unique: "chain nodes p as \<Longrightarrow> chain nodes p bs \<Longrightarrow> as = bs"
proof (induction as arbitrary: p bs)
  case Nil
  then show ?case by (cases bs) auto
next
  case (Cons a as)
  then show ?case by (cases bs) (auto split: option.splits)
qed

text \<open>
  C26. Each element popped leaks the node that held it: \<open>std::swap(head_, head_->next)\<close> makes the
  node its own owner. Running any operations on a new queue and then destroying the queue releases
  the nodes still linked; what is left alive is exactly one node for each element popped, every one of
  them empty and owned by its own \<open>next\<close> pointer, so nothing will ever release it.
\<close>

theorem tsq_pop_leaks_node:
  assumes "queue_run emplace tsq_take tsq_take_if ops tsq_empty = Inr (outs, q')"
  shows "\<exists>nodes'. free_chain (tsq_nodes q') (tsq_head q') = Some (Inr nodes')
    \<and> live_nodes (tsq_fresh q') nodes' = length (takes outs)
    \<and> (\<forall>a n. nodes' a = Some n \<longrightarrow> node_next n = Some a \<and> node_value n = None)"
proof -
  let ?xs = "snd (list_run ops [])"
  from tsq.queue_run_total [of ops] assms
  have rep: "tsq_rep q' ?xs" and fifo: "takes outs @ ?xs = puts ops" by auto
  from rep obtain as where ch: "tsq_chain q' as ?xs" by (auto simp: tsq_rep_def)
  then have chain: "chain (tsq_nodes q') (tsq_head q') as" and dist: "distinct as"
    by (auto simp: tsq_chain_def)
  have "tsq_sound (tsq_empty :: 'a tsq) []"
    using tsq_rep_empty unfolding tsq_rep_def tsq_sound_def
    by (auto simp: unlinked_own_themselves_def tsq_empty_def)
  from queue_run_sound [OF this assms] chain_unique [OF chain]
  have self: "unlinked_own_themselves q' as" by (auto simp: tsq_sound_def tsq_chain_def)
  let ?N = "\<lambda>a. if a \<in> set as then None else tsq_nodes q' a"
  let ?A = "{..<tsq_fresh q'} \<inter> dom (tsq_nodes q')"
  have "allocated tsq_empty = 0" by (simp add: live_nodes_def tsq_empty_def)
  then have "card ?A = length (puts ops)"
    using queue_run_allocated [OF tsq_rep_empty assms] by (simp add: live_nodes_card)
  moreover have sub: "set as \<subseteq> ?A"
  proof
    fix a assume "a \<in> set as"
    with chain_alive [OF chain] obtain n where "tsq_nodes q' a = Some n" by blast
    with ch show "a \<in> ?A"
      unfolding tsq_chain_def by (metis IntI domI lessThan_iff not_le option.distinct(1))
  qed
  moreover have "{..<tsq_fresh q'} \<inter> dom ?N = ?A - set as" by (auto split: if_splits)
  ultimately have "live_nodes (tsq_fresh q') ?N = length (puts ops) - card (set as)"
    using card_Diff_subset [OF finite_set sub] by (simp add: live_nodes_card)
  also have "\<dots> = length (takes outs)"
    using fifo [symmetric] dist tsq_chain_length [OF ch] by (simp add: distinct_card)
  finally have "live_nodes (tsq_fresh q') ?N = length (takes outs)" .
  moreover have "node_next n = Some a \<and> node_value n = None" if "?N a = Some n" for a n
    using that self by (auto simp: unlinked_own_themselves_def split: if_splits)
  ultimately show ?thesis using free_chain_chain [OF chain dist] by blast
qed

theorem tsq_pop_leaks_node_witness:
  "\<exists>outs q' nodes'. queue_run emplace tsq_take tsq_take_if [Put (5 :: nat), Take] tsq_empty
      = Inr (outs, q')
    \<and> free_chain (tsq_nodes q') (tsq_head q') = Some (Inr nodes')
    \<and> live_nodes (tsq_fresh q') nodes' = 1
    \<and> nodes' 0 = Some \<lparr>node_next = Some 0, node_value = None\<rparr>"
proof -
  obtain outs q' where run: "queue_run emplace tsq_take tsq_take_if [Put (5 :: nat), Take] tsq_empty
      = Inr (outs, q')" and outs: "outs = fst (list_run [Put (5 :: nat), Take] [])"
    using tsq.queue_run_simulates [OF tsq.rep_empty, of "[Put (5 :: nat), Take]"] by blast
  then have "tsq_fresh q' = 1"
    by (auto simp: tsq_take_def pop_def emplace_def make_node_def consume_one_def unlink_head_def tsq_empty_def Let_def)
  moreover from outs have "length (takes outs) = 1" by simp
  moreover from tsq_pop_leaks_node [OF run] obtain nodes'
    where f: "free_chain (tsq_nodes q') (tsq_head q') = Some (Inr nodes')"
      and l: "live_nodes (tsq_fresh q') nodes' = length (takes outs)"
      and s: "\<forall>a n. nodes' a = Some n \<longrightarrow> node_next n = Some a \<and> node_value n = None" by blast
  ultimately obtain n where n: "nodes' 0 = Some n" by (cases "nodes' 0") (auto simp: live_nodes_def)
  with s have "node_next n = Some 0 \<and> node_value n = None" by blast
  then have "n = \<lparr>node_next = Some 0, node_value = None\<rparr>" by (cases n) simp
  with n have "nodes' 0 = Some \<lparr>node_next = Some 0, node_value = None\<rparr>" by simp
  with run f l \<open>length (takes outs) = 1\<close> show ?thesis by metis
qed

end
