(* ===== verification/TryLock.thy ===== *)
theory TryLock
  imports Prelude
begin

text \<open>
  \<open>src/src/util.hpp\<close>: the iterator version of \<open>try_lock\<close>. Mutexes are numbers, a table says which
  are held (by anyone), and a \<open>std::unique_lock\<close> that owns its mutex is the mutex's number. The
  unlocking that the sources leave to destructors is written out where the destructor runs.
\<close>

section \<open>The functions\<close>

type_synonym lock_table = "nat \<Rightarrow> bool"

definition TryLockSuccess :: int where
  "TryLockSuccess = -1"

text \<open>
  \<open>_try_lock_impl\<close>: \<open>prev\<close> is the lock the caller took and moved in. It is released to the caller
  of \<open>try_lock\<close> (left locked) on success and unlocked by its destructor otherwise.
\<close>

fun try_lock_impl :: "nat list \<Rightarrow> nat \<Rightarrow> lock_table \<Rightarrow> int \<times> lock_table" where
  "try_lock_impl [] prev t = (TryLockSuccess, t)"
| "try_lock_impl (l # ls) prev t =
     (if t l then (0, t(prev := False))
      else
        (let (rv, t') = try_lock_impl ls l (t(l := True))
         in if rv = TryLockSuccess then (TryLockSuccess, t')
            else (rv + 1, t'(prev := False))))"

fun try_lock :: "nat list \<Rightarrow> lock_table \<Rightarrow> int \<times> lock_table" where
  "try_lock [] t = (TryLockSuccess, t)"
| "try_lock (l # ls) t = (if t l then (0, t) else try_lock_impl ls l (t(l := True)))"

text \<open>The position of the first mutex that is already held.\<close>

fun first_held :: "nat list \<Rightarrow> lock_table \<Rightarrow> nat option" where
  "first_held [] t = None"
| "first_held (l # ls) t = (if t l then Some 0 else map_option Suc (first_held ls t))"

lemma first_held_None_iff: "first_held ls t = None \<longleftrightarrow> (\<forall>l\<in>set ls. \<not> t l)"
  by (induction ls) auto

lemma first_held_upd: "l \<notin> set ls \<Longrightarrow> first_held ls (t(l := b)) = first_held ls t"
  by (induction ls) auto

lemma first_held_Some: "first_held ls t = Some i \<Longrightarrow> i < length ls \<and> t (ls ! i)"
  by (induction ls arbitrary: i) (auto split: if_splits simp: nth_Cons')

lemma TryLockSuccess_neq_nat [simp]:
  "int n \<noteq> TryLockSuccess" "TryLockSuccess \<noteq> int n" "0 \<noteq> TryLockSuccess"
  by (auto simp: TryLockSuccess_def)

text \<open>
  The recursion, exactly: on success every mutex is held; on failure every mutex taken on the way,
  \<open>prev\<close> included, is given back, and the result is the position in the remaining list.
\<close>

lemma try_lock_impl_spec:
  "distinct (prev # ls) \<Longrightarrow> try_lock_impl ls prev t =
     (case first_held ls t of
        None \<Rightarrow> (TryLockSuccess, \<lambda>l. l \<in> set ls \<or> t l)
      | Some i \<Rightarrow> (int i, t(prev := False)))"
proof (induction ls arbitrary: prev t)
  case Nil
  then show ?case by simp
next
  case (Cons l ls)
  define u where "u = t(l := True)"
  have held: "first_held ls u = first_held ls t" and reset: "u(l := False) = t(l := False)"
    and final: "(\<lambda>k. k \<in> set ls \<or> u k) = (\<lambda>k. k \<in> set (l # ls) \<or> t k)"
    using Cons.prems by (auto simp: u_def first_held_upd fun_eq_iff)
  have "try_lock_impl ls l u =
     (case first_held ls t of
        None \<Rightarrow> (TryLockSuccess, \<lambda>k. k \<in> set (l # ls) \<or> t k)
      | Some i \<Rightarrow> (int i, t(l := False)))"
    using Cons.IH [of l u] Cons.prems unfolding held reset final by simp
  then show ?case
    using Cons.prems unfolding u_def
    by (cases "first_held ls t") (auto simp: fun_eq_iff TryLockSuccess_def)
qed

section \<open>Properties\<close>

text \<open>
  C33. \<open>try_lock\<close> is all or nothing: on a list of different mutexes it succeeds exactly when none
  of them is held, and then every one of them is held afterwards and no other mutex changed; when
  it fails the table of locks is the one it started with.
\<close>

theorem try_lock_all_or_nothing:
  assumes "distinct ls"
  shows "(fst (try_lock ls t) = TryLockSuccess) = (\<forall>l\<in>set ls. \<not> t l)
    \<and> snd (try_lock ls t) =
        (if fst (try_lock ls t) = TryLockSuccess then (\<lambda>l. l \<in> set ls \<or> t l) else t)"
proof (cases ls)
  case Nil
  then show ?thesis by simp
next
  case (Cons l ks)
  have "t(l := False) = t" if "\<not> t l" using that by (auto simp: fun_eq_iff)
  with assms Cons show ?thesis
    using first_held_None_iff [of ks t]
    by (cases "first_held ks t")
       (auto simp: try_lock_impl_spec first_held_upd fun_eq_iff)
qed

theorem try_lock_all_or_nothing_witness:
  "try_lock [1, 2] (\<lambda>l. l = 2) = (0, \<lambda>l. l = 2)"
  using try_lock_all_or_nothing [of "[1, 2]" "\<lambda>l. l = 2"]
  by (auto simp: TryLockSuccess_def prod_eq_iff)

text \<open>
  What a failing call returns. The recursion counts from the element after the one it is
  given, and \<open>try_lock\<close> itself does not add the one that its comment asks of every caller, so a
  failure at position 0 and a failure at position 1 both return 0, and a failure at any later
  position \<open>i\<close> returns \<open>i - 1\<close>.
\<close>

lemma try_lock_failure_index:
  assumes "distinct ls" and "first_held ls t = Some i"
  shows "fst (try_lock ls t) = int (i - 1)"
proof (cases ls)
  case Nil
  with assms show ?thesis by simp
next
  case (Cons l ks)
  with assms show ?thesis
    by (auto simp: try_lock_impl_spec first_held_upd split: if_splits option.splits)
qed

end
