(* ===== verification/ConcurrentContainers.thy ===== *)
theory ConcurrentContainers
  imports QueueInterface
begin

text \<open>
  \<open>src/src/data_structures/concurrent_list.hpp\<close> (\<open>ConcurrentDeque\<close>) and \<open>concurrent_map.hpp\<close>
  (\<open>ConcurrentMap\<close>). Both put one lock around every operation, so an operation is one step.
\<close>

section \<open>ConcurrentDeque\<close>

text \<open>
  The mutex is behind a \<open>unique_ptr\<close> which the move constructor takes away: an operation on a
  moved-from deque dereferences null.
\<close>

record 'a deque =
  dq_mutex :: bool         \<comment> \<open>\<open>mutex_\<close> is not null\<close>
  dq_data :: "'a list"     \<comment> \<open>\<open>data_\<close>\<close>

definition deque_new :: "'a deque" where
  "deque_new = \<lparr>dq_mutex = True, dq_data = []\<rparr>"

text \<open>The new deque and what is left of the one moved from.\<close>

definition deque_move :: "'a deque \<Rightarrow> 'a deque \<times> 'a deque" where
  "deque_move other = (other, \<lparr>dq_mutex = False, dq_data = []\<rparr>)"

definition emplace_front :: "'a \<Rightarrow> 'a deque \<Rightarrow> rt_error + 'a deque" where
  "emplace_front x d =
     bindE (require NullPointer (dq_mutex d)) (\<lambda>_. Inr (d\<lparr>dq_data := x # dq_data d\<rparr>))"

definition emplace_back :: "'a \<Rightarrow> 'a deque \<Rightarrow> rt_error + 'a deque" where
  "emplace_back x d =
     bindE (require NullPointer (dq_mutex d)) (\<lambda>_. Inr (d\<lparr>dq_data := dq_data d @ [x]\<rparr>))"

definition splice_back :: "'a deque \<Rightarrow> 'a deque \<Rightarrow> rt_error + ('a deque \<times> 'a deque)" where
  "splice_back d other =
     bindE (require NullPointer (dq_mutex d \<and> dq_mutex other)) (\<lambda>_.
       Inr (d\<lparr>dq_data := dq_data d @ dq_data other\<rparr>, other\<lparr>dq_data := []\<rparr>))"

definition get_and_pop_front :: "'a deque \<Rightarrow> rt_error + ('a option \<times> 'a deque)" where
  "get_and_pop_front d =
     bindE (require NullPointer (dq_mutex d)) (\<lambda>_.
       case dq_data d of
         [] \<Rightarrow> Inr (None, d)
       | x # xs \<Rightarrow> Inr (Some x, d\<lparr>dq_data := xs\<rparr>))"

definition get_and_pop_back :: "'a deque \<Rightarrow> rt_error + ('a option \<times> 'a deque)" where
  "get_and_pop_back d =
     bindE (require NullPointer (dq_mutex d)) (\<lambda>_.
       if dq_data d = [] then Inr (None, d)
       else Inr (Some (last (dq_data d)), d\<lparr>dq_data := butlast (dq_data d)\<rparr>))"

definition deque_size :: "'a deque \<Rightarrow> rt_error + nat" where
  "deque_size d = bindE (require NullPointer (dq_mutex d)) (\<lambda>_. Inr (length (dq_data d)))"

text \<open>Used from back to front it is the queue of the interface.\<close>

definition deque_rep :: "'a deque \<Rightarrow> 'a list \<Rightarrow> bool" where
  "deque_rep d xs \<longleftrightarrow> dq_mutex d \<and> dq_data d = xs"

definition deque_put :: "'a \<Rightarrow> 'a deque \<Rightarrow> rt_error + (bool \<times> 'a deque)" where
  "deque_put x d = bindE (emplace_back x d) (\<lambda>d'. Inr (True, d'))"

definition deque_take :: "'a deque \<Rightarrow> rt_error + (bool \<times> 'a option \<times> 'a deque)" where
  "deque_take d = bindE (get_and_pop_front d) (\<lambda>(v, d'). Inr (v \<noteq> None, v, d'))"

lemmas deque_defs = deque_new_def emplace_front_def emplace_back_def splice_back_def
  get_and_pop_front_def get_and_pop_back_def deque_size_def deque_rep_def deque_put_def deque_take_def

interpretation deque: fifo deque_new deque_put deque_take deque_rep
  by unfold_locales (auto simp: deque_defs)

text \<open>
  The two ends of a deque that was not moved from: what \<open>emplace_front\<close> and \<open>emplace_back\<close> put
  there is what \<open>get_and_pop_front\<close> and \<open>get_and_pop_back\<close> give back, leaving the rest as it was;
  \<open>splice_back\<close> moves the other deque's elements behind its own, in order, and empties the other.
\<close>

lemma deque_front: "dq_mutex d \<Longrightarrow> bindE (emplace_front x d) get_and_pop_front = Inr (Some x, d)"
  by (simp add: deque_defs)

lemma deque_back: "dq_mutex d \<Longrightarrow> bindE (emplace_back x d) get_and_pop_back = Inr (Some x, d)"
  by (simp add: deque_defs)

lemma deque_splice:
  "dq_mutex d \<Longrightarrow> dq_mutex e \<Longrightarrow> \<exists>d' e'. splice_back d e = Inr (d', e')
    \<and> dq_data d' = dq_data d @ dq_data e \<and> deque_size e' = Inr 0"
  by (simp add: deque_defs)

text \<open>A deque that was moved from fails every operation.\<close>

lemma deque_moved_from:
  "emplace_back x (snd (deque_move d)) = Inl NullPointer"
  "get_and_pop_front (snd (deque_move d)) = Inl NullPointer"
  by (simp_all add: deque_defs deque_move_def)

section \<open>ConcurrentMap\<close>

text \<open>
  The mutex is recursive: a callable may call back into the map it is evaluated under, so a
  callable is given the whole map and may change it. The element it is evaluated on is the one at
  the key.
\<close>

type_synonym ('k, 'v) cmap = "'k \<Rightarrow> 'v option"

definition evaluate_or_emplace ::
  "'k \<Rightarrow> (('k, 'v) cmap \<Rightarrow> ('k, 'v) cmap) \<Rightarrow> 'v \<Rightarrow> ('k, 'v) cmap \<Rightarrow> ('k, 'v) cmap" where
  "evaluate_or_emplace key callable v m =
     (case m key of Some _ \<Rightarrow> callable m | None \<Rightarrow> m(key \<mapsto> v))"

text \<open>\<open>data_[key]\<close> inserts a default-constructed value when the key is absent.\<close>

definition evaluate_at :: "'k \<Rightarrow> 'v \<Rightarrow> (('k, 'v) cmap \<Rightarrow> 'r) \<Rightarrow> ('k, 'v) cmap \<Rightarrow> 'r" where
  "evaluate_at key default_value callable m =
     callable (case m key of Some _ \<Rightarrow> m | None \<Rightarrow> m(key \<mapsto> default_value))"

definition evaluate_or_evaluate_first ::
  "'k \<Rightarrow> (('k, 'v) cmap \<Rightarrow> 'r) \<Rightarrow> (('k, 'v) cmap \<Rightarrow> 'r) \<Rightarrow> 'v \<Rightarrow> ('k, 'v) cmap \<Rightarrow> 'r" where
  "evaluate_or_evaluate_first key callable first_callable v m =
     (case m key of Some _ \<Rightarrow> callable m | None \<Rightarrow> first_callable (m(key \<mapsto> v)))"

definition erase :: "'k \<Rightarrow> ('k, 'v) cmap \<Rightarrow> ('k, 'v) cmap" where
  "erase key m = m(key := None)"

text \<open>
  What the clients rely on: whichever callable runs sees an element at the key, the first one only
  if there was none; and after an erase the next evaluation is a first one again.
\<close>

locale keyed_table =
  fixes at_key :: "'k \<Rightarrow> 'v \<Rightarrow> (('k \<Rightarrow> 'v option) \<Rightarrow> ('k \<Rightarrow> 'v option)) \<Rightarrow> ('k \<Rightarrow> 'v option) \<Rightarrow> ('k \<Rightarrow> 'v option)"
    and or_first :: "'k \<Rightarrow> (('k \<Rightarrow> 'v option) \<Rightarrow> ('k \<Rightarrow> 'v option)) \<Rightarrow> (('k \<Rightarrow> 'v option) \<Rightarrow> ('k \<Rightarrow> 'v option))
      \<Rightarrow> 'v \<Rightarrow> ('k \<Rightarrow> 'v option) \<Rightarrow> ('k \<Rightarrow> 'v option)"
    and remove :: "'k \<Rightarrow> ('k \<Rightarrow> 'v option) \<Rightarrow> ('k \<Rightarrow> 'v option)"
  assumes at_key_absent: "m k = None \<Longrightarrow> at_key k d f m = f (m(k \<mapsto> d))"
    and at_key_present: "m k = Some v \<Longrightarrow> at_key k d f m = f m"
    and or_first_absent: "m k = None \<Longrightarrow> or_first k f g v m = g (m(k \<mapsto> v))"
    and or_first_present: "m k = Some u \<Longrightarrow> or_first k f g v m = f m"
    and remove_key: "remove k m = m(k := None)"
begin

text \<open>A second evaluation at the key sees what the first one left there.\<close>

lemma at_key_twice:
  assumes "\<And>m'. m' k \<noteq> None \<Longrightarrow> f m' k \<noteq> None"
  shows "at_key k d g (at_key k d f m) = g (at_key k d f m)"
proof -
  have "at_key k d f m k \<noteq> None"
    using assms by (cases "m k") (simp_all add: at_key_absent at_key_present)
  then obtain u where "at_key k d f m k = Some u" by blast
  then show ?thesis by (rule at_key_present)
qed

lemma first_once:
  assumes "\<And>m'. m' k \<noteq> None \<Longrightarrow> g m' k \<noteq> None" and "m k = None"
  shows "or_first k f g v (or_first k f g v m) = f (or_first k f g v m)"
proof -
  have "or_first k f g v m k \<noteq> None" using assms by (simp add: or_first_absent)
  then obtain u where "or_first k f g v m k = Some u" by blast
  then show ?thesis by (rule or_first_present)
qed

lemma first_again_after_remove:
  "or_first k f g v (remove k m) = g (m(k \<mapsto> v))"
  by (simp add: or_first_absent remove_key)

end

interpretation cmap: keyed_table evaluate_at evaluate_or_evaluate_first erase
  by unfold_locales (auto simp: evaluate_at_def evaluate_or_evaluate_first_def erase_def)

end
