(* ===== verification/EventRace.thy ===== *)
theory EventRace
  imports Prelude
begin

text \<open>
  The races on one \<open>JoinCounter\<close> (\<open>src/src/data_structures/event.hpp\<close>, \<open>join_counter.hpp\<close>):
  any number of threads attach an action while others decrement the count. Each thread is where it
  is in \<open>attach_action\<close>, \<open>decrement_count\<close>, \<open>make_ready\<close> or \<open>_do_actions\<close>; a step is one access to
  the shared state. All atomics are used with the default, sequentially consistent order, so the
  threads interleave. The exchange of the action queue takes the pointer's lock exclusively and an
  \<open>emplace\<close> holds it shared, and the queue has a lock of its own, so each is one step.
  An action is a number: the calls that run it are recorded in order.
\<close>

section \<open>Threads and shared state\<close>

datatype pc =
    AttachLoad nat          \<comment> \<open>\<open>attach_or_do_action\<close>: about to load \<open>triggered_\<close>\<close>
  | AttachDo nat            \<comment> \<open>it was triggered: about to call the callable\<close>
  | AttachEmplace nat       \<comment> \<open>it was not: about to put the action on the queue\<close>
  | AttachReload            \<comment> \<open>about to load \<open>triggered_\<close> again\<close>
  | TakeQueue               \<comment> \<open>\<open>_do_actions\<close>: about to exchange the queue\<close>
  | RunActions "nat list"   \<comment> \<open>\<open>consume_all\<close> on the queue taken\<close>
  | DecAssert               \<comment> \<open>\<open>decrement_count\<close>: about to check the assertion\<close>
  | DecFetch                \<comment> \<open>about to \<open>fetch_sub\<close>\<close>
  | StoreTriggered          \<comment> \<open>\<open>make_ready\<close>: about to store \<open>triggered_\<close>\<close>
  | Finished
  | Failed                  \<comment> \<open>the assertion failed\<close>

record race =
  r_count :: u64
  r_triggered :: bool
  r_queue :: "nat list"
  r_ran :: "nat list"
  r_threads :: "pc list"

fun thread_step :: "pc \<Rightarrow> race \<Rightarrow> pc \<times> race" where
  "thread_step (AttachLoad a) s = ((if r_triggered s then AttachDo a else AttachEmplace a), s)"
| "thread_step (AttachDo a) s = (Finished, s\<lparr>r_ran := r_ran s @ [a]\<rparr>)"
| "thread_step (AttachEmplace a) s = (AttachReload, s\<lparr>r_queue := r_queue s @ [a]\<rparr>)"
| "thread_step AttachReload s = ((if r_triggered s then TakeQueue else Finished), s)"
| "thread_step TakeQueue s = (RunActions (r_queue s), s\<lparr>r_queue := []\<rparr>)"
| "thread_step (RunActions []) s = (Finished, s)"
| "thread_step (RunActions (a # as)) s = (RunActions as, s\<lparr>r_ran := r_ran s @ [a]\<rparr>)"
| "thread_step DecAssert s = ((if r_triggered s then Failed else DecFetch), s)"
| "thread_step DecFetch s =
     ((if r_count s = 1 then StoreTriggered else Finished), s\<lparr>r_count := r_count s - 1\<rparr>)"
| "thread_step StoreTriggered s = (TakeQueue, s\<lparr>r_triggered := True\<rparr>)"
| "thread_step Finished s = (Finished, s)"
| "thread_step Failed s = (Failed, s)"

definition can_step :: "pc \<Rightarrow> bool" where
  "can_step p \<longleftrightarrow> p \<noteq> Finished \<and> p \<noteq> Failed"

definition advance :: "nat \<Rightarrow> race \<Rightarrow> race" where
  "advance i s = (let (p, s') = thread_step (r_threads s ! i) s
                  in s'\<lparr>r_threads := (r_threads s)[i := p]\<rparr>)"

inductive race_step :: "race \<Rightarrow> race \<Rightarrow> bool" where
  "i < length (r_threads s) \<Longrightarrow> can_step (r_threads s ! i) \<Longrightarrow> race_step s (advance i s)"

inductive_cases race_stepE: "race_step s s'"

text \<open>A counter made for \<open>n\<close> decrements, and the threads: \<open>n\<close> decrement it, the others attach.\<close>

definition race_init :: "nat \<Rightarrow> nat list \<Rightarrow> race" where
  "race_init n acts = \<lparr>r_count = of_nat n, r_triggered = False, r_queue = [], r_ran = [],
     r_threads = map AttachLoad acts @ replicate n DecAssert\<rparr>"

inductive race_reachable :: "nat \<Rightarrow> nat list \<Rightarrow> race \<Rightarrow> bool" for n acts where
  start: "race_reachable n acts (race_init n acts)"
| step: "race_reachable n acts s \<Longrightarrow> race_step s s' \<Longrightarrow> race_reachable n acts s'"

section \<open>The invariant\<close>

text \<open>The actions a thread still has in hand, and whether it still owes a decrement or a trigger.\<close>

fun in_hand :: "pc \<Rightarrow> nat multiset" where
  "in_hand (AttachLoad a) = {#a#}"
| "in_hand (AttachDo a) = {#a#}"
| "in_hand (AttachEmplace a) = {#a#}"
| "in_hand (RunActions as) = mset as"
| "in_hand _ = {#}"

fun owes_dec :: "pc \<Rightarrow> nat" where
  "owes_dec DecAssert = 1"
| "owes_dec DecFetch = 1"
| "owes_dec _ = 0"

fun owes_trigger :: "pc \<Rightarrow> nat" where
  "owes_trigger StoreTriggered = 1"
| "owes_trigger _ = 0"

text \<open>A thread that will look at the queue again, and one that is past a triggered event.\<close>

fun will_take :: "pc \<Rightarrow> nat" where
  "will_take AttachReload = 1"
| "will_take TakeQueue = 1"
| "will_take _ = 0"

fun past_trigger :: "pc \<Rightarrow> bool" where
  "past_trigger (AttachDo a) = True"
| "past_trigger (RunActions as) = True"
| "past_trigger TakeQueue = True"
| "past_trigger _ = False"

definition total :: "(pc \<Rightarrow> 'b) \<Rightarrow> race \<Rightarrow> 'b :: comm_monoid_add" where
  "total f s = sum_list (map f (r_threads s))"

definition race_inv :: "nat list \<Rightarrow> race \<Rightarrow> bool" where
  "race_inv acts s \<longleftrightarrow>
     total in_hand s + mset (r_queue s) + mset (r_ran s) = mset acts
     \<and> unat (r_count s) = total owes_dec s
     \<and> total owes_trigger s + (if r_triggered s then 1 else 0) + (if r_count s = 0 then 0 else 1) = (1 :: nat)
     \<and> (r_triggered s \<longrightarrow> r_queue s = [] \<or> total will_take s \<noteq> 0)
     \<and> (r_ran s \<noteq> [] \<longrightarrow> r_triggered s)
     \<and> (\<forall>p\<in>set (r_threads s). (past_trigger p \<longrightarrow> r_triggered s) \<and> p \<noteq> Failed)"

lemma total_advance:
  assumes "i < length (r_threads s)" and "thread_step (r_threads s ! i) s = (p, s')"
  shows "total f (advance i s) + f (r_threads s ! i) = total f s + f p"
  using sum_list_update [OF assms(1), of f p] assms(2) by (simp add: total_def advance_def)

lemma sum_list_replicate_one: "sum_list (map owes_dec (replicate n DecAssert)) = n"
  by (induction n) simp_all

lemma sum_list_attach:
  "sum_list (map (in_hand \<circ> AttachLoad) acts) = mset acts"
  by (induction acts) simp_all

lemma sum_list_zero: "(\<And>x. x \<in> set xs \<Longrightarrow> f x = (0 :: 'b :: comm_monoid_add)) \<Longrightarrow> sum_list (map f xs) = 0"
  by (induction xs) auto

lemma race_inv_init:
  assumes "0 < n" and "n < 2 ^ 64"
  shows "race_inv acts (race_init n acts)"
proof -
  have "total in_hand (race_init n acts) = mset acts"
    using sum_list_attach [of acts] sum_list_zero [of "replicate n DecAssert" in_hand]
    by (simp add: total_def race_init_def)
  moreover have "total owes_dec (race_init n acts) = n"
    using sum_list_replicate_one [of n] sum_list_zero [of "map AttachLoad acts" owes_dec]
    by (simp add: total_def race_init_def)
  moreover have "total owes_trigger (race_init n acts) = 0"
    by (simp add: total_def race_init_def sum_list_zero)
  moreover have "unat (of_nat n :: u64) = n" and "(of_nat n :: u64) \<noteq> 0"
    using assms unat_u64_of_nat [of n] by (metis, metis less_irrefl unat_0)
  ultimately show ?thesis
    by (auto simp: race_inv_def race_init_def)
qed

lemma total_ge: "p \<in> set (r_threads s) \<Longrightarrow> f p \<le> (total f s :: nat)"
  by (simp add: total_def elem_le_sum_list_map)

lemma all_update: "\<forall>p\<in>set xs. P p \<Longrightarrow> P q \<Longrightarrow> \<forall>p\<in>set (xs[i := q]). P p"
  using set_update_subset_insert [of xs i q] by blast

lemma race_inv_advance:
  assumes inv: "race_inv acts s" and i: "i < length (r_threads s)"
    and p: "can_step (r_threads s ! i)"
  shows "race_inv acts (advance i s)"
proof -
  obtain q s1 where st: "thread_step (r_threads s ! i) s = (q, s1)"
    by (cases "thread_step (r_threads s ! i) s")
  let ?p = "r_threads s ! i"
  let ?s' = "advance i s"
  have s': "?s' = s1\<lparr>r_threads := (r_threads s)[i := q]\<rparr>" using st by (simp add: advance_def)
  note T = total_advance [OF i st]
  have hand: "total in_hand ?s' + in_hand ?p = total in_hand s + in_hand q" by (rule T)
  have dec: "total owes_dec ?s' + owes_dec ?p = total owes_dec s + owes_dec q" by (rule T)
  have trig: "total owes_trigger ?s' + owes_trigger ?p = total owes_trigger s + owes_trigger q"
    by (rule T)
  have take: "total will_take ?s' + will_take ?p = total will_take s + will_take q" by (rule T)
  have mem: "?p \<in> set (r_threads s)" using i by simp
  have ge: "owes_dec ?p \<le> total owes_dec s" by (rule total_ge [OF mem])
  from inv have pieces: "total in_hand s + mset (r_queue s) + mset (r_ran s) = mset acts"
    and cnt: "unat (r_count s) = total owes_dec s"
    and one: "total owes_trigger s + (if r_triggered s then 1 else 0)
      + (if r_count s = 0 then 0 else 1) = (1 :: nat)"
    and q: "r_triggered s \<longrightarrow> r_queue s = [] \<or> total will_take s \<noteq> 0"
    and ran: "r_ran s \<noteq> [] \<longrightarrow> r_triggered s"
    and all: "\<forall>p\<in>set (r_threads s). (past_trigger p \<longrightarrow> r_triggered s) \<and> p \<noteq> Failed"
    unfolding race_inv_def by blast+
  from all mem have pt: "past_trigger ?p \<longrightarrow> r_triggered s" by blast
  have nz: "r_count s \<noteq> 0" if "owes_dec ?p = 1" using that ge cnt by auto
  have fin: "race_inv acts ?s'"
    if "total in_hand ?s' + mset (r_queue s1) + mset (r_ran s1) = mset acts"
      and "unat (r_count s1) = total owes_dec ?s'"
      and "total owes_trigger ?s' + (if r_triggered s1 then 1 else 0)
        + (if r_count s1 = 0 then 0 else 1) = (1 :: nat)"
      and "r_triggered s1 \<longrightarrow> r_queue s1 = [] \<or> total will_take ?s' \<noteq> 0"
      and "r_ran s1 \<noteq> [] \<longrightarrow> r_triggered s1"
      and "past_trigger q \<longrightarrow> r_triggered s1" and "q \<noteq> Failed"
      and "r_triggered s \<longrightarrow> r_triggered s1"
  proof -
    have "\<forall>p\<in>set ((r_threads s)[i := q]). (past_trigger p \<longrightarrow> r_triggered s1) \<and> p \<noteq> Failed"
      using all that by (intro all_update) auto
    moreover have "r_count ?s' = r_count s1" "r_triggered ?s' = r_triggered s1"
      "r_queue ?s' = r_queue s1" "r_ran ?s' = r_ran s1" "r_threads ?s' = (r_threads s)[i := q]"
      by (simp_all add: s')
    ultimately show ?thesis using that unfolding race_inv_def by simp
  qed
  show ?thesis
  proof (cases ?p)
    case (AttachLoad a)
    with st have "q = (if r_triggered s then AttachDo a else AttachEmplace a)" "s1 = s" by auto
    then show ?thesis
      using AttachLoad hand dec trig take pieces cnt one q ran
      by (intro fin; cases "r_triggered s") (auto split: if_splits)
  next
    case (AttachDo a)
    with st have "q = Finished" "s1 = s\<lparr>r_ran := r_ran s @ [a]\<rparr>" by auto
    then show ?thesis
      using AttachDo hand [symmetric] dec trig take pieces cnt one q pt by (intro fin) auto
  next
    case (AttachEmplace a)
    with st have "q = AttachReload" "s1 = s\<lparr>r_queue := r_queue s @ [a]\<rparr>" by auto
    then show ?thesis
      using AttachEmplace hand [symmetric] dec trig take pieces cnt one ran by (intro fin) auto
  next
    case AttachReload
    with st have "q = (if r_triggered s then TakeQueue else Finished)" "s1 = s" by auto
    then show ?thesis
      using AttachReload hand dec trig take pieces cnt one q ran
      by (intro fin; cases "r_triggered s") (auto split: if_splits)
  next
    case TakeQueue
    with st have "q = RunActions (r_queue s)" "s1 = s\<lparr>r_queue := []\<rparr>" by auto
    then show ?thesis
      using TakeQueue hand dec trig take pieces cnt one ran pt by (intro fin) auto
  next
    case (RunActions as)
    then show ?thesis
    proof (cases as)
      case Nil
      with st RunActions have "q = Finished" "s1 = s" by auto
      then show ?thesis
        using RunActions Nil hand dec trig take pieces cnt one q ran by (intro fin) auto
    next
      case (Cons b bs)
      with st RunActions have "q = RunActions bs" "s1 = s\<lparr>r_ran := r_ran s @ [b]\<rparr>" by auto
      then show ?thesis
        using RunActions Cons hand [symmetric] dec trig take pieces cnt one q pt by (intro fin) auto
    qed
  next
    case DecAssert
    with nz one have "\<not> r_triggered s" by (auto split: if_splits)
    with st DecAssert have "q = DecFetch" "s1 = s" by auto
    then show ?thesis
      using DecAssert hand dec trig take pieces cnt one q ran by (intro fin) auto
  next
    case DecFetch
    with nz have c: "r_count s \<noteq> 0" by simp
    then have u: "unat (r_count s - 1) = unat (r_count s) - 1" by (rule unat_u64_pred)
    have z: "r_count s - 1 = 0 \<longleftrightarrow> r_count s = 1" by simp
    have "0 < unat (r_count s)" using c by (simp add: unat_gt_0)
    from st DecFetch have "q = (if r_count s = 1 then StoreTriggered else Finished)"
      "s1 = s\<lparr>r_count := r_count s - 1\<rparr>" by auto
    then show ?thesis
      using DecFetch hand dec trig take pieces cnt one q ran c u \<open>0 < unat (r_count s)\<close>
      by (intro fin) (auto simp: z split: if_splits)
  next
    case StoreTriggered
    with st have "q = TakeQueue" "s1 = s\<lparr>r_triggered := True\<rparr>" by auto
    moreover have "owes_trigger ?p \<le> total owes_trigger s" by (rule total_ge [OF mem])
    ultimately show ?thesis
      using StoreTriggered hand dec trig take pieces cnt one q ran
      by (intro fin) (auto split: if_splits)
  qed (use p in \<open>auto simp: can_step_def\<close>)
qed

lemma race_inv_step: "race_step s s' \<Longrightarrow> race_inv acts s \<Longrightarrow> race_inv acts s'"
  by (auto elim!: race_stepE intro: race_inv_advance)

lemma reachable_race_inv:
  "race_reachable n acts s \<Longrightarrow> 0 < n \<Longrightarrow> n < 2 ^ 64 \<Longrightarrow> race_inv acts s"
  by (induction rule: race_reachable.induct) (auto intro: race_inv_init race_inv_step)

text \<open>A schedule names the thread that takes each step.\<close>

fun enabled_schedule :: "nat list \<Rightarrow> race \<Rightarrow> bool" where
  "enabled_schedule [] s \<longleftrightarrow> True"
| "enabled_schedule (i # is) s \<longleftrightarrow>
     i < length (r_threads s) \<and> can_step (r_threads s ! i) \<and> enabled_schedule is (advance i s)"

lemma reachable_schedule:
  "race_reachable n acts s \<Longrightarrow> enabled_schedule is s \<Longrightarrow> race_reachable n acts (fold advance is s)"
  by (induction "is" arbitrary: s) (auto intro: race_reachable.step race_step.intros)

section \<open>Every schedule ends\<close>

fun pc_weight :: "pc \<Rightarrow> nat" where
  "pc_weight (AttachLoad a) = 6"
| "pc_weight (AttachDo a) = 1"
| "pc_weight (AttachEmplace a) = 5"
| "pc_weight AttachReload = 3"
| "pc_weight TakeQueue = 2"
| "pc_weight (RunActions as) = 1 + length as"
| "pc_weight DecAssert = 5"
| "pc_weight DecFetch = 4"
| "pc_weight StoreTriggered = 3"
| "pc_weight Finished = 0"
| "pc_weight Failed = 0"

definition race_weight :: "race \<Rightarrow> nat" where
  "race_weight s = total pc_weight s + length (r_queue s)"

lemma thread_step_weight:
  assumes "thread_step p s = (q, s')" and "can_step p"
  shows "pc_weight q + length (r_queue s') < pc_weight p + length (r_queue s)"
  using assms by (cases "(p, s)" rule: thread_step.cases) (auto simp: can_step_def)

lemma race_weight_decreases: "race_step s s' \<Longrightarrow> race_weight s' < race_weight s"
proof (elim race_stepE)
  fix i assume s': "s' = advance i s" and i: "i < length (r_threads s)" "can_step (r_threads s ! i)"
  obtain q s1 where st: "thread_step (r_threads s ! i) s = (q, s1)"
    by (cases "thread_step (r_threads s ! i) s")
  from st s' have "r_queue s' = r_queue s1" by (simp add: advance_def)
  with total_advance [OF i(1) st, of pc_weight] thread_step_weight [OF st i(2)] s'
  show ?thesis by (simp add: race_weight_def)
qed

section \<open>Properties\<close>

text \<open>
  C20. No interleaving fails the assertion of \<open>decrement_count\<close>, no action runs before the last
  decrement, and at any moment no action has run more often than it was attached, for a counter
  that starts at the number of its decrementing threads (any number that fits in 64 bits, and any
  attached actions).
\<close>

theorem race_safe:
  assumes "race_reachable n acts s" and "0 < n" and "n < 2 ^ 64"
  shows "Failed \<notin> set (r_threads s) \<and> mset (r_ran s) \<subseteq># mset acts
    \<and> (r_ran s \<noteq> [] \<longrightarrow> r_triggered s \<and> r_count s = 0
        \<and> DecAssert \<notin> set (r_threads s) \<and> DecFetch \<notin> set (r_threads s))"
proof -
  from reachable_race_inv [OF assms] have inv: "race_inv acts s" .
  then have "mset (r_ran s) \<subseteq># mset acts"
    unfolding race_inv_def by (metis mset_subset_eq_add_right)
  moreover have "r_count s = 0" if "r_triggered s"
    using inv that by (auto simp: race_inv_def split: if_splits)
  moreover have "p \<notin> set (r_threads s)" if "r_count s = 0" and "owes_dec p = 1" for p
    using inv that total_ge [of p s owes_dec] by (auto simp: race_inv_def)
  ultimately show ?thesis using inv by (auto simp: race_inv_def)
qed

theorem race_safe_witness:
  "Failed \<notin> set (r_threads (advance 0 (race_init 1 [7])))"
proof -
  have "race_reachable 1 [7] (advance 0 (race_init 1 [7]))"
    by (rule race_reachable.step [OF race_reachable.start], rule race_step.intros)
       (simp_all add: race_init_def can_step_def)
  from race_safe [OF this] show ?thesis by simp
qed

text \<open>
  C10. Nothing is lost and nothing runs twice: in every reachable state in which no thread can take
  another step, the event is triggered, its queue is empty, every thread has returned and every
  attached action has run exactly once, whether it was attached before, during or after the
  triggering decrement.
\<close>

theorem race_exactly_once:
  assumes "race_reachable n acts s" and "0 < n" and "n < 2 ^ 64"
    and stuck: "\<nexists>s'. race_step s s'"
  shows "r_triggered s \<and> r_queue s = [] \<and> mset (r_ran s) = mset acts
    \<and> set (r_threads s) \<subseteq> {Finished}"
proof -
  from reachable_race_inv [OF assms(1-3)] have inv: "race_inv acts s" .
  have all_fin: "p = Finished" if "p \<in> set (r_threads s)" for p
  proof -
    from that obtain i where i: "i < length (r_threads s)" "p = r_threads s ! i"
      by (auto simp: in_set_conv_nth)
    with stuck have "\<not> can_step p" by (metis race_step.intros)
    with inv that show ?thesis by (auto simp: can_step_def race_inv_def)
  qed
  have "total in_hand s = 0" and "total owes_dec s = 0" and "total owes_trigger s = 0"
    and "total will_take s = 0"
    by (auto simp: total_def dest!: all_fin intro!: sum_list_zero)
  with inv all_fin show ?thesis
    by (auto simp: race_inv_def unat_eq_zero split: if_splits)
qed

theorem race_exactly_once_witness:
  "r_ran (fold advance [0, 0, 1, 1, 1, 0, 1, 0, 0, 1, 1] (race_init 1 [7])) = [7]"
proof -
  let ?is = "[0, 0, 1, 1, 1, 0, 1, 0, 0, 1, 1] :: nat list"
  let ?s = "fold advance ?is (race_init 1 [7])"
  have "enabled_schedule ?is (race_init 1 [7])"
    by (simp add: race_init_def advance_def can_step_def Let_def)
  then have reach: "race_reachable 1 [7] ?s"
    by (rule reachable_schedule [OF race_reachable.start])
  have "set (r_threads ?s) \<subseteq> {Finished}"
    by (simp add: race_init_def advance_def Let_def)
  then have "\<nexists>s'. race_step ?s s'"
    by (auto simp: can_step_def elim!: race_stepE dest!: nth_mem)
  from race_exactly_once [OF reach _ _ this] show ?thesis by simp
qed

text \<open>
  C21. Every schedule ends: each step of a thread makes \<open>race_weight\<close> smaller, so a run of the
  threads takes at most \<open>race_weight\<close> of its first state steps (6 per attached action and 5 per
  decrement).
\<close>

theorem race_terminates:
  assumes "race_step s s'"
  shows "race_weight s' < race_weight s \<and> race_weight (race_init n acts) = 6 * length acts + 5 * n"
proof
  show "race_weight s' < race_weight s" by (rule race_weight_decreases [OF assms])
  have "sum_list (map (pc_weight \<circ> AttachLoad) acts) = 6 * length acts" by (induction acts) simp_all
  moreover have "sum_list (map pc_weight (replicate n DecAssert)) = 5 * n" by (induction n) simp_all
  ultimately show "race_weight (race_init n acts) = 6 * length acts + 5 * n"
    by (simp add: race_weight_def total_def race_init_def)
qed

theorem race_terminates_witness:
  "race_weight (advance 0 (race_init 1 [7])) < race_weight (race_init 1 [7])"
proof -
  have "race_step (race_init 1 [7]) (advance 0 (race_init 1 [7]))"
    by (rule race_step.intros) (simp_all add: race_init_def can_step_def)
  from race_terminates [OF this] show ?thesis by blast
qed

end
