(* ===== verification/ControlBlocks.thy ===== *)
theory ControlBlocks
  imports Prelude
begin

text \<open>
  \<open>src/src/flow/control_block.hpp\<close>: the storage behind a flow. The store says which blocks
  \<open>::operator new\<close> has handed out and at which addresses an object is alive; releasing something
  that is not a live block, or using or destroying an object that is not there, is an error. The
  serialization manager of a handle belongs to the frontend and is a parameter. Sizes and products of
  sizes are \<open>size_t\<close>, 64-bit words that wrap; storage is taken from a 64-bit address space, and
  \<open>::operator new\<close> throws when what is left of it does not suffice.
\<close>

section \<open>Storage\<close>

type_synonym byte = "8 word"
type_synonym ptr = nat

record 'd ser_man =
  metadata_size :: u64                     \<comment> \<open>\<open>get_metadata_size\<close>\<close>
  default_value :: 'd                      \<comment> \<open>what \<open>default_construct\<close> makes\<close>
  pack :: "'d \<Rightarrow> byte list"                \<comment> \<open>\<open>pack_data\<close> (into a buffer of \<open>get_packed_data_size\<close>)\<close>
  unpack :: "byte list \<Rightarrow> 'd"              \<comment> \<open>what \<open>unpack_data\<close> constructs\<close>

record 'd memory =
  mem_fresh :: ptr
  mem_blocks :: "ptr \<Rightarrow> nat option"
  mem_objects :: "ptr \<Rightarrow> 'd option"

definition mem_empty :: "'d memory" where
  "mem_empty = \<lparr>mem_fresh = 1, mem_blocks = (\<lambda>_. None), mem_objects = (\<lambda>_. None)\<rparr>"

definition op_new :: "u64 \<Rightarrow> 'd memory \<Rightarrow> rt_error + (ptr \<times> 'd memory)" where
  "op_new n m =
     (if int (mem_fresh m) + max 1 (uint n) \<le> 2 ^ 64 then
        Inr (mem_fresh m, m\<lparr>mem_fresh := mem_fresh m + max 1 (unat n),
                            mem_blocks := (mem_blocks m)(mem_fresh m \<mapsto> unat n)\<rparr>)
      else Inl BadAlloc)"

definition op_delete :: "ptr option \<Rightarrow> 'd memory \<Rightarrow> rt_error + 'd memory" where
  "op_delete p m =
     (case p of
        None \<Rightarrow> Inr m
      | Some a \<Rightarrow> bindE (require BadFree (mem_blocks m a \<noteq> None)) (\<lambda>_.
                   Inr (m\<lparr>mem_blocks := (mem_blocks m)(a := None)\<rparr>)))"

definition mem_construct :: "ptr \<Rightarrow> 'd \<Rightarrow> 'd memory \<Rightarrow> 'd memory" where
  "mem_construct a v m = m\<lparr>mem_objects := (mem_objects m)(a \<mapsto> v)\<rparr>"

definition mem_read :: "ptr option \<Rightarrow> 'd memory \<Rightarrow> rt_error + 'd" where
  "mem_read p m = bindE (deref NullPointer p) (\<lambda>a. deref NoObject (mem_objects m a))"

definition mem_destroy :: "ptr option \<Rightarrow> 'd memory \<Rightarrow> rt_error + 'd memory" where
  "mem_destroy p m =
     bindE (deref NullPointer p) (\<lambda>a.
     bindE (deref NoObject (mem_objects m a)) (\<lambda>_.
       Inr (m\<lparr>mem_objects := (mem_objects m)(a := None)\<rparr>)))"

section \<open>Control blocks\<close>

text \<open>
  The fields of \<open>ControlBlock\<close>; \<open>cb_n_indices\<close> is present in a \<open>CollectionControlBlock\<close>. A handle
  is a number, and so is a control block that another one points to.
\<close>

record cblk =
  cb_handle :: "nat option"
  cb_data :: "ptr option"
  cb_owns :: bool
  cb_parent :: "nat option"
  cb_index :: nat
  cb_n_indices :: "u64 option"

definition cblk_default :: cblk where
  "cblk_default = \<lparr>cb_handle = None, cb_data = None, cb_owns = False, cb_parent = None,
     cb_index = 0, cb_n_indices = None\<rparr>"

definition cblk_of_handle ::
  "(nat \<Rightarrow> 'd ser_man) \<Rightarrow> nat option \<Rightarrow> 'd memory \<Rightarrow> rt_error + (cblk \<times> 'd memory)" where
  "cblk_of_handle ser in_handle m =
     (case in_handle of
        Some h \<Rightarrow>
          bindE (op_new (metadata_size (ser h)) m) (\<lambda>(a, m').
            Inr (cblk_default\<lparr>cb_handle := Some h, cb_data := Some a, cb_owns := True\<rparr>,
                 mem_construct a (default_value (ser h)) m'))
      | None \<Rightarrow> Inr (cblk_default, m))"

definition cblk_for_fetch :: "nat option \<Rightarrow> ptr option \<Rightarrow> cblk" where
  "cblk_for_fetch in_handle in_data = cblk_default\<lparr>cb_handle := in_handle, cb_data := in_data\<rparr>"

definition cblk_for_index :: "ptr option \<Rightarrow> nat \<Rightarrow> nat \<Rightarrow> cblk" where
  "cblk_for_index in_data parent_coll index =
     cblk_default\<lparr>cb_data := in_data, cb_parent := Some parent_coll, cb_index := index\<rparr>"

text \<open>\<open>copy_data\<close>: through a packed buffer, into new storage if there is none yet.\<close>

definition copy_data ::
  "(nat \<Rightarrow> 'd ser_man) \<Rightarrow> nat \<Rightarrow> ptr option \<Rightarrow> ptr option \<Rightarrow> 'd memory \<Rightarrow> rt_error + (ptr \<times> 'd memory)" where
  "copy_data ser h source dest m =
     bindE (case dest of
              None \<Rightarrow> op_new (metadata_size (ser h)) m
            | Some a \<Rightarrow> Inr (a, m)) (\<lambda>(a, m1).
     bindE (mem_read source m1) (\<lambda>v.
       let packed_buffer = pack (ser h) v
       in Inr (a, mem_construct a (unpack (ser h) packed_buffer) m1)))"

text \<open>
  The copy constructor. The handle of a block that is an element of a collection is that of the
  collection, which the caller's \<open>parent_handle\<close> looks up.
\<close>

definition cblk_copy ::
  "(nat \<Rightarrow> 'd ser_man) \<Rightarrow> (nat \<Rightarrow> nat option) \<Rightarrow> cblk \<Rightarrow> 'd memory \<Rightarrow> rt_error + (cblk \<times> 'd memory)" where
  "cblk_copy ser parent_handle other m =
     bindE (case cb_handle other of
              Some h \<Rightarrow> Inr (Some h)
            | None \<Rightarrow> bindE (deref ParentMissing (cb_parent other)) (\<lambda>p. Inr (parent_handle p)))
       (\<lambda>handle. bindE (deref NullPointer handle) (\<lambda>h.
          bindE (op_new (metadata_size (ser h)) m) (\<lambda>(a, m1).
          bindE (copy_data ser h (cb_data other) (Some a) m1) (\<lambda>(a', m2).
            Inr (cblk_default\<lparr>cb_handle := Some h, cb_data := Some a', cb_owns := True\<rparr>, m2)))))"

text \<open>
  The element at index \<open>i\<close> is \<open>i * md_size\<close> bytes into the block; the product is one of \<open>size_t\<close>.
\<close>

definition element_offset :: "'d ser_man \<Rightarrow> nat \<Rightarrow> nat" where
  "element_offset s i = unat (of_nat i * metadata_size s)"

fun construct_all :: "'d ser_man \<Rightarrow> ptr \<Rightarrow> nat list \<Rightarrow> 'd memory \<Rightarrow> 'd memory" where
  "construct_all s base [] m = m"
| "construct_all s base (i # is) m =
     construct_all s base is (mem_construct (base + element_offset s i) (default_value s) m)"

definition cblk_collection ::
  "(nat \<Rightarrow> 'd ser_man) \<Rightarrow> nat \<Rightarrow> u64 \<Rightarrow> 'd memory \<Rightarrow> rt_error + (cblk \<times> 'd memory)" where
  "cblk_collection ser h n m =
     bindE (op_new (n * metadata_size (ser h)) m) (\<lambda>(a, m1).
     bindE (int_loop n) (\<lambda>is.
       Inr (cblk_default\<lparr>cb_handle := Some h, cb_data := Some a, cb_owns := True,
              cb_n_indices := Some n\<rparr>,
            construct_all (ser h) a is m1)))"

definition data_for_index :: "(nat \<Rightarrow> 'd ser_man) \<Rightarrow> cblk \<Rightarrow> u64 \<Rightarrow> rt_error + ptr" where
  "data_for_index ser cb index =
     bindE (deref NullPointer (cb_handle cb)) (\<lambda>h.
     bindE (deref NullPointer (cb_data cb)) (\<lambda>a. Inr (a + unat (index * metadata_size (ser h)))))"

fun destroy_all :: "'d ser_man \<Rightarrow> ptr \<Rightarrow> nat list \<Rightarrow> 'd memory \<Rightarrow> rt_error + 'd memory" where
  "destroy_all s base [] m = Inr m"
| "destroy_all s base (i # is) m =
     bindE (mem_destroy (Some (base + element_offset s i)) m) (\<lambda>m'. destroy_all s base is m')"

text \<open>
  The destructors: that of a collection destroys the elements, releases the storage and clears
  \<open>owns_data\<close>, so that the base class destructor which runs next does nothing.
\<close>

definition cblk_destructor_base :: "(nat \<Rightarrow> 'd ser_man) \<Rightarrow> cblk \<Rightarrow> 'd memory \<Rightarrow> rt_error + 'd memory" where
  "cblk_destructor_base ser cb m =
     (if cb_owns cb then
        bindE (deref NullPointer (cb_handle cb)) (\<lambda>_.
        bindE (mem_destroy (cb_data cb) m) (\<lambda>m1. op_delete (cb_data cb) m1))
      else Inr m)"

definition cblk_destructor :: "(nat \<Rightarrow> 'd ser_man) \<Rightarrow> cblk \<Rightarrow> 'd memory \<Rightarrow> rt_error + 'd memory" where
  "cblk_destructor ser cb m =
     (case cb_n_indices cb of
        None \<Rightarrow> cblk_destructor_base ser cb m
      | Some n \<Rightarrow>
          if cb_owns cb then
            bindE (deref NullPointer (cb_handle cb)) (\<lambda>h.
            bindE (deref NullPointer (cb_data cb)) (\<lambda>a.
            bindE (int_loop n) (\<lambda>is.
            bindE (destroy_all (ser h) a is m) (\<lambda>m1.
            bindE (op_delete (cb_data cb) m1) (\<lambda>m2.
              cblk_destructor_base ser (cb\<lparr>cb_owns := False\<rparr>) m2)))))
          else cblk_destructor_base ser cb m)"

section \<open>Lemmas\<close>

text \<open>Nothing lives at or above the fresh address.\<close>

definition mem_wf :: "'d memory \<Rightarrow> bool" where
  "mem_wf m \<longleftrightarrow> (\<forall>a\<ge>mem_fresh m. mem_blocks m a = None \<and> mem_objects m a = None)"

lemma construct_all_objects:
  "mem_objects (construct_all s base is m) =
     (\<lambda>a. if \<exists>i\<in>set is. a = base + element_offset s i then Some (default_value s) else mem_objects m a)"
  by (induction "is" arbitrary: m) (auto simp: mem_construct_def fun_eq_iff)

lemma construct_all_frame [simp]:
  "mem_blocks (construct_all s base is m) = mem_blocks m"
  "mem_fresh (construct_all s base is m) = mem_fresh m"
  by (induction "is" arbitrary: m) (auto simp: mem_construct_def)

lemma op_new_eq_Inr:
  "op_new n m = Inr (a, m') \<longleftrightarrow> int (mem_fresh m) + max 1 (uint n) \<le> 2 ^ 64 \<and> a = mem_fresh m
     \<and> m' = m\<lparr>mem_fresh := mem_fresh m + max 1 (unat n), mem_blocks := (mem_blocks m)(mem_fresh m \<mapsto> unat n)\<rparr>"
  by (auto simp: op_new_def)

lemma element_offset_fits:
  "unat (n :: u64) * unat (metadata_size s) < 2 ^ 64 \<Longrightarrow> i < unat n \<Longrightarrow> element_offset s i = i * unat (metadata_size s)"
  using unat_u64_index_mult [of n "metadata_size s" i] by (simp add: element_offset_def)

lemma offsets_distinct:
  assumes "unat (n :: u64) * unat (metadata_size s) < 2 ^ 64" and "metadata_size s \<noteq> 0"
  shows "inj_on (element_offset s) {..<unat n}"
proof -
  have "0 < unat (metadata_size s)" using assms(2) by (simp add: unat_gt_0)
  then show ?thesis using assms(1) by (auto simp: inj_on_def element_offset_fits)
qed

lemma destroy_all_objects:
  "inj_on (element_offset s) (set is) \<Longrightarrow> distinct is
    \<Longrightarrow> \<forall>i\<in>set is. mem_objects m (base + element_offset s i) \<noteq> None \<Longrightarrow>
    destroy_all s base is m =
      Inr (m\<lparr>mem_objects := (\<lambda>a. if \<exists>i\<in>set is. a = base + element_offset s i then None
                                else mem_objects m a)\<rparr>)"
proof (induction "is" arbitrary: m)
  case Nil
  then show ?case by simp
next
  case (Cons i "is")
  let ?m1 = "m\<lparr>mem_objects := (mem_objects m)(base + element_offset s i := None)\<rparr>"
  have "mem_destroy (Some (base + element_offset s i)) m = Inr ?m1"
    using Cons.prems by (auto simp: mem_destroy_def)
  moreover have "element_offset s j \<noteq> element_offset s i" if "j \<in> set is" for j
    using Cons.prems(1,2) that inj_onD [of "element_offset s" "set (i # is)" j i] by auto
  then have "\<forall>j\<in>set is. mem_objects ?m1 (base + element_offset s j) \<noteq> None"
    using Cons.prems(3) by auto
  ultimately show ?case
    using Cons.IH [of ?m1] Cons.prems(1,2) by (auto simp: fun_eq_iff intro!: memory.equality)
qed

section \<open>Properties\<close>

text \<open>
  C27. The elements of a collection: if the size of the block, \<open>n_indices * md_size\<close>, does not wrap, then
  right after construction every index below \<open>n\<close> has a default-constructed object at \<open>data_for_index\<close>,
  inside the block that was allocated, and the storage of two different indices does not overlap.
  Construction returns for no more than \<open>INT_MAX\<close> elements: beyond that its \<open>int\<close> index overflows.
\<close>

theorem collection_elements:
  assumes "cblk_collection ser h n m = Inr (cb, m')" and "metadata_size (ser h) \<noteq> 0"
    and "unat n * unat (metadata_size (ser h)) < 2 ^ 64" and "i < n" and "j < n"
  shows "unat n < 2 ^ 31 \<and> (\<exists>a p q. data_for_index ser cb i = Inr p \<and> data_for_index ser cb j = Inr q
    \<and> mem_read (Some p) m' = Inr (default_value (ser h))
    \<and> cb_data cb = Some a \<and> mem_blocks m' a = Some (unat n * unat (metadata_size (ser h)))
    \<and> a \<le> p \<and> p + unat (metadata_size (ser h)) \<le> a + unat n * unat (metadata_size (ser h))
    \<and> (i \<noteq> j \<longrightarrow> p + unat (metadata_size (ser h)) \<le> q \<or> q + unat (metadata_size (ser h)) \<le> p))"
proof -
  let ?k = "unat (metadata_size (ser h))"
  have step: "x * ?k + ?k \<le> y * ?k" if "x < y" for x y
    using mult_le_mono1 [of "Suc x" y ?k] that by simp
  have apart: "unat i * ?k + ?k \<le> unat j * ?k \<or> unat j * ?k + ?k \<le> unat i * ?k" if "i \<noteq> j"
    using that step [of "unat i" "unat j"] step [of "unat j" "unat i"] word_unat_eq_iff [of i j]
    by (cases "unat i < unat j") auto
  have less: "unat i < unat n" "unat j < unat n" using assms(4,5) by (simp_all add: word_less_nat_alt)
  have off: "unat (i * metadata_size (ser h)) = unat i * ?k" "unat (j * metadata_size (ser h)) = unat j * ?k"
    and size: "unat (n * metadata_size (ser h)) = unat n * ?k"
    using unat_u64_index_mult [OF assms(3) less(1)] unat_u64_index_mult [OF assms(3) less(2)]
      unat_u64_mult [OF assms(3)] by simp_all
  have "element_offset (ser h) (unat i) = unat i * ?k" using element_offset_fits [OF assms(3) less(1)] .
  then have "\<exists>x\<in>set [0..<unat n]. a + unat i * ?k = a + element_offset (ser h) x" for a
    using less(1) by (intro bexI [of _ "unat i"]) auto
  moreover from assms(1) have cb: "cb_handle cb = Some h" "cb_data cb = Some (mem_fresh m)" "unat n < 2 ^ 31"
    and m': "mem_blocks m' (mem_fresh m) = Some (unat n * ?k)"
      "mem_objects m' = (\<lambda>x. if \<exists>i\<in>set [0..<unat n]. x = mem_fresh m + element_offset (ser h) i
        then Some (default_value (ser h)) else mem_objects m x)"
    by (auto simp: cblk_collection_def op_new_eq_Inr cblk_default_def construct_all_objects size)
  ultimately have "mem_read (Some (mem_fresh m + unat i * ?k)) m' = Inr (default_value (ser h))"
    by (simp add: mem_read_def)
  with cb m'(1) apart step [OF less(1)] show ?thesis by (auto simp: data_for_index_def off)
qed

text \<open>The samples: integers of four bytes.\<close>

definition sample_ser :: "nat \<Rightarrow> int ser_man" where
  "sample_ser h = \<lparr>metadata_size = 4, default_value = 0, pack = (\<lambda>_. []), unpack = (\<lambda>_. 0)\<rparr>"

theorem collection_elements_witness:
  "case cblk_collection sample_ser 0 3 mem_empty of
     Inl e \<Rightarrow> False
   | Inr (cb, m) \<Rightarrow> \<exists>p q. data_for_index sample_ser cb 1 = Inr p \<and> p = 5 \<and> data_for_index sample_ser cb 2 = Inr q
       \<and> mem_read (Some p) m = Inr 0 \<and> (p + 4 \<le> q \<or> q + 4 \<le> p)"
proof -
  obtain cb m where c: "cblk_collection sample_ser 0 3 mem_empty = Inr (cb, m)" and a: "cb_data cb = Some 1"
    "cb_handle cb = Some 0"
    by (simp add: cblk_collection_def op_new_def mem_empty_def int_loop_def cblk_default_def sample_ser_def)
  from collection_elements [OF c, of 1 2]
  obtain p q where "data_for_index sample_ser cb 1 = Inr p" "data_for_index sample_ser cb 2 = Inr q"
    "mem_read (Some p) m = Inr 0" "p + 4 \<le> q \<or> q + 4 \<le> p"
    by (auto simp: sample_ser_def)
  moreover from this(1) a have "p = 5" by (simp add: data_for_index_def sample_ser_def)
  ultimately show ?thesis using c by auto
qed

lemma two_indices: "(\<exists>i\<in>{0..<2 :: nat}. P i) \<longleftrightarrow> P 0 \<or> P 1"
  by (auto simp: less_2_cases_iff)

text \<open>
  Without the bound on the product the block may be smaller than its elements: two elements of
  \<open>2 ^ 63\<close> bytes get an empty block.
\<close>

lemma collection_size_wraps:
  "case cblk_collection (\<lambda>_. \<lparr>metadata_size = 2 ^ 63, default_value = (0 :: int), pack = (\<lambda>_. []), unpack = (\<lambda>_. 0)\<rparr>)
     0 2 mem_empty of
     Inl e \<Rightarrow> False
   | Inr (cb, m) \<Rightarrow> cb_data cb = Some 1 \<and> mem_blocks m 1 = Some 0 \<and> mem_objects m (1 + 2 ^ 63) = Some 0"
  by (simp add: cblk_collection_def op_new_def mem_empty_def int_loop_def cblk_default_def construct_all_objects
      element_offset_def two_indices)

text \<open>
  C28. A control block gives back exactly what it took: destroying a block right after making it,
  whether for a handle or for a collection whose size in bytes does not wrap, neither fails nor releases
  or destroys anything twice, and leaves the objects and the live blocks as they were.
\<close>

theorem cblk_lifetime_balanced:
  assumes "mem_wf m" and "metadata_size (ser h) \<noteq> 0"
    and "cblk_collection ser h n m = Inr (cb, m') \<and> unat n * unat (metadata_size (ser h)) < 2 ^ 64
      \<or> cblk_of_handle ser (Some h) m = Inr (cb, m')"
  shows "\<exists>m''. cblk_destructor ser cb m' = Inr m'' \<and> mem_objects m'' = mem_objects m
    \<and> mem_blocks m'' = mem_blocks m"
  using assms(3)
proof
  assume c: "cblk_collection ser h n m = Inr (cb, m') \<and> unat n * unat (metadata_size (ser h)) < 2 ^ 64"
  let ?s = "ser h"
  let ?a = "mem_fresh m"
  from c have n: "unat n < 2 ^ 31"
    and cb: "cb_n_indices cb = Some n" "cb_owns cb" "cb_handle cb = Some h" "cb_data cb = Some ?a"
    and blocks: "mem_blocks m' = (mem_blocks m)(?a \<mapsto> unat (n * metadata_size ?s))"
    and objs: "mem_objects m' = (\<lambda>x. if \<exists>i\<in>set [0..<unat n]. x = ?a + element_offset ?s i
      then Some (default_value ?s) else mem_objects m x)"
    by (auto simp: cblk_collection_def op_new_eq_Inr cblk_default_def construct_all_objects)
  have loop: "int_loop n = Inr [0..<unat n]" using n by simp
  have "inj_on (element_offset ?s) (set [0..<unat n])"
    using offsets_distinct [of n ?s] c assms(2) by (simp add: atLeast0LessThan)
  moreover have "\<forall>i\<in>set [0..<unat n]. mem_objects m' (?a + element_offset ?s i) \<noteq> None"
    by (subst objs) auto
  ultimately have "destroy_all ?s ?a [0..<unat n] m' =
      Inr (m'\<lparr>mem_objects := (\<lambda>x. if \<exists>i\<in>set [0..<unat n]. x = ?a + element_offset ?s i then None else mem_objects m' x)\<rparr>)"
    by (intro destroy_all_objects) simp_all
  moreover have "mem_objects m (?a + x) = None" "mem_blocks m ?a = None" for x
    using assms(1) by (auto simp: mem_wf_def)
  ultimately show ?thesis
    using cb objs blocks by (auto simp: cblk_destructor_def cblk_destructor_base_def op_delete_def fun_eq_iff loop)
next
  assume c: "cblk_of_handle ser (Some h) m = Inr (cb, m')"
  moreover have "mem_objects m (mem_fresh m) = None" "mem_blocks m (mem_fresh m) = None"
    using assms(1) by (auto simp: mem_wf_def)
  ultimately show ?thesis
    by (auto simp: cblk_of_handle_def op_new_eq_Inr cblk_default_def cblk_destructor_def
        cblk_destructor_base_def op_delete_def mem_destroy_def mem_construct_def fun_eq_iff)
qed

theorem cblk_lifetime_balanced_witness:
  "case cblk_collection sample_ser 0 2 mem_empty of
     Inl e \<Rightarrow> False
   | Inr (cb, m) \<Rightarrow> mem_objects m 5 = Some 0
       \<and> (\<exists>m'. cblk_destructor sample_ser cb m = Inr m' \<and> mem_objects m' = (\<lambda>_. None) \<and> mem_blocks m' = (\<lambda>_. None))"
proof -
  obtain cb m where c: "cblk_collection sample_ser 0 2 mem_empty = Inr (cb, m)" and o: "mem_objects m 5 = Some 0"
    by (simp add: cblk_collection_def op_new_def mem_empty_def int_loop_def cblk_default_def sample_ser_def
        construct_all_objects element_offset_def two_indices)
  have "mem_wf (mem_empty :: int memory)" by (simp add: mem_wf_def mem_empty_def)
  from cblk_lifetime_balanced [OF this, of sample_ser 0 2 cb m] c o
  show ?thesis by (auto simp: mem_empty_def sample_ser_def)
qed

lemma copy_data_fresh:
  assumes "mem_wf m" and "mem_read src m = Inr v"
    and "copy_data ser h src None m = Inr (a, m')"
  shows "mem_objects m a = None \<and> mem_objects m' = (mem_objects m)(a \<mapsto> unpack (ser h) (pack (ser h) v))"
  using assms by (auto simp: copy_data_def op_new_eq_Inr mem_construct_def mem_read_def mem_wf_def)

end
