(* ===== verification/World.thy ===== *)
theory World
  imports ControlBlocks ConcurrentContainers QueueInterface
begin

text \<open>
  The state of a running backend: the events, flows, control blocks, uses, publication entries,
  collective invocations, task collection tokens and workers that the runtime's operations read and
  change, the operations that can wait in an event's action queue or in a worker's queue, and the
  primitives on events (\<open>data_structures/event.hpp\<close>, \<open>join_counter.hpp\<close>).

  A pointer to a heap object is its number. Fields that never change after construction and hold
  the number of an event are carried by the pointer: \<open>BasicFlow::ready_event_\<close>, the two counters of
  a publication entry and the ready event of a collective invocation.
\<close>

section \<open>Keys, pointers and relationships\<close>

text \<open>
  Keys belong to the frontend; the model has the ways in which the backend makes one: the empty
  key, a user's key, the backend maker at a number, and the name of a task of a collection.
\<close>

datatype key = EmptyKey | UserKey nat | GeneratedKey nat | BackendIndexKey nat key

datatype flow_ptr = FlowPtr (flow_id: nat) (flow_trigger: nat)
datatype anti_flow_ptr = AntiFlowPtr (anti_flow_id: nat) (anti_flow_trigger: nat)
datatype entry_ptr = EntryPtr (entry_id: nat) (fetching_join_counter: nat) (release_event: nat)
datatype invocation_ptr = InvocationPtr (invocation_id: nat) (invocation_ready_event: nat)

datatype description =
    Insignificant | InsignificantCollection | Same | SameCollection | Next | NextCollection
  | Initial | InitialCollection | IndexedLocal | IndexedFetching | Forwarding | Null | NullCollection

text \<open>
  \<open>related_flow()\<close> points at the flow variable of another use; dereferencing it reads the flow
  that is there at that time.
\<close>

datatype flow_slot = InFlowOf nat | OutFlowOf nat
datatype anti_flow_slot = AntiInFlowOf nat | AntiOutFlowOf nat

record flow_relationship =
  rel_description :: description
  related_flow :: "flow_slot option"
  related_anti_flow :: "anti_flow_slot option"
  use_corresponding_in_flow_as_related :: bool
  use_corresponding_in_flow_as_anti_related :: bool
  version_key :: "key option"
  rel_index :: nat

section \<open>Tasks, operations, actions and commands\<close>

record publication_details =
  pd_collection :: "nat option"     \<comment> \<open>whose token \<open>get_task_collection_token\<close> returns\<close>
  version_name :: key
  n_fetchers :: nat

record collective_details =
  cd_collection :: "nat option"
  reduce_operation :: nat
  n_contributions :: nat

text \<open>
  A task as the backend sees it: its dependencies, its name and the calls that its body makes, in
  the order in which it makes them. \<open>create_task_for_index\<close> of a collection is the list of its
  tasks.
\<close>

datatype task =
  Task (get_dependencies: "nat list") (is_data_parallel_task: bool) (get_name: key) (task_body: "api list")
and api =
    RegisterUse nat
  | ReleaseUse nat
  | RegisterTask task
  | RegisterTaskCollection collection
  | PublishUse nat publication_details
  | AllreduceUse nat collective_details key
  | ReduceCollectionUse nat nat collective_details
  | UserCode nat nat                \<comment> \<open>what the body does with the data of a use\<close>
and collection =
  TaskCollection (tc_id: nat) (tc_dependencies: "nat list") (tc_name: key) (tc_tasks: "task list")

datatype message_kind = NoMessage | AllTasksDone

datatype callable = DecrementOf nat | JoinWorkers

datatype ready_op =
    SpecialMessage message_kind
  | ReadyTaskOperation task
  | CallableOperation callable bool  \<comment> \<open>and whether it is \<open>Stealable\<close>\<close>

text \<open>The callables that the runtime attaches to events.\<close>

datatype action =
    DecrementAction nat                                  \<comment> \<open>\<open>attach_decrement_of\<close>, \<open>add_dependency_on\<close>\<close>
  | EnqueueAction ready_op                               \<comment> \<open>\<open>enqueue_or_run\<close>\<close>
  | FetchedAction entry_ptr flow_ptr                     \<comment> \<open>\<open>register_use\<close>, \<open>IndexedFetching\<close>\<close>
  | PublishCopyAction entry_ptr flow_ptr nat nat \<comment> \<open>\<open>publish_use\<close>\<close>
  | CollectiveDecrementAction invocation_ptr             \<comment> \<open>\<open>allreduce_use\<close>, through a weak pointer\<close>
  | ContributeAction invocation_ptr nat nat nat
  | ContributeAfterAntiAction invocation_ptr nat nat nat
  | ContributeReduceAction invocation_ptr nat nat nat
  | AllreduceDoneAction invocation_ptr nat key
  | ReduceInReadyAction nat nat nat nat nat            \<comment> \<open>\<open>reduce_collection_use\<close>\<close>
  | ReduceAntiReadyAction nat nat nat nat nat
  | ShutdownAction                                       \<comment> \<open>\<open>_init_shutdown_counter\<close>\<close>
  | RegionShutdownAction                                 \<comment> \<open>\<open>with_active_runtime_instance\<close>\<close>

text \<open>
  What a thread still has to do, the next thing first. A procedure of the sources that calls others
  becomes the commands of its remaining calls, so that a run interleaves the threads between them.
\<close>

datatype cmd =
    CDecrement nat
  | CAction action
  | CApi api
  | CRegisterIn nat
  | CRegisterAntiIn nat
  | CRegisterOut nat
  | CRegisterAntiOut nat
  | CRelease nat
  | CAliasFlows nat nat
  | CAddDependency nat nat
  | CTaskDependency nat nat
  | CTaskAntiDependency nat nat
  | CEnqueueOrRun nat ready_op nat bool
  | CStackRun ready_op
  | CStackExit
  | CRun ready_op
  | CTaskFinished "task option"
  | CCreateTasks key "task list" nat
  | CAttach nat action
  | CEraseCollective nat key invocation_ptr
  | CSpinUp
  | CLoopStart
  | CLoop
  | CDorment
  | CJoin nat

section \<open>The state\<close>

record event =
  ev_count :: u64
  ev_triggered :: bool
  ev_actions :: "action list"

record flow =
  fl_control_block :: "nat option"
  fl_parent_token :: "nat option"

record handle =
  has_user_defined_key :: bool
  handle_key :: key

record use =
  us_handle :: nat
  us_in_rel :: flow_relationship
  us_anti_in_rel :: flow_relationship
  us_out_rel :: flow_relationship
  us_anti_out_rel :: flow_relationship
  is_dependency :: bool
  is_anti_dependency :: bool
  establishes_alias :: bool
  manages_collection :: bool
  managed_size :: nat
  immediate_none :: bool            \<comment> \<open>\<open>immediate_permissions() == Permissions::None\<close>\<close>
  us_in :: "flow_ptr option"
  us_out :: "flow_ptr option"
  us_anti_in :: "anti_flow_ptr option"
  us_anti_out :: "anti_flow_ptr option"
  us_data :: "ptr option"

record invocation =
  iv_input_uses :: "nat list"
  iv_size :: nat                    \<comment> \<open>half the initial count of its ready event\<close>
  iv_owned :: bool                  \<comment> \<open>the token's table still has it\<close>

record token =
  tk_size :: nat
  tk_sequence :: nat
  tk_collectives :: "(key, invocation_ptr) cmap"
  tk_published :: "(key \<times> key \<times> nat, entry_ptr option) cmap"

record worker =
  wk_ready :: "ready_op list"       \<comment> \<open>the contents of \<open>ready_tasks\<close>\<close>
  wk_running :: "task option"       \<comment> \<open>\<open>running_task\<close>\<close>
  wk_depth :: nat                   \<comment> \<open>\<open>thread_stack_depth\<close>\<close>
  wk_thread :: bool                 \<comment> \<open>its thread has been started\<close>
  wk_stopped :: bool                \<comment> \<open>\<open>run_work_loop\<close> has returned\<close>

record 'd world =
  w_events :: "event list"
  w_flows :: "flow list"
  w_aflows :: "bool list"           \<comment> \<open>\<open>is_index_fetching_antiflow\<close>\<close>
  w_cblks :: "cblk list"
  w_uses :: "use list"
  w_handles :: "handle list"
  w_entries :: "(entry_ptr \<times> flow_ptr option) list"  \<comment> \<open>with \<open>*source_flow\<close>\<close>
  w_invocations :: "(invocation_ptr \<times> invocation) list"
  w_tokens :: "token list"
  w_collection_token :: "nat \<Rightarrow> nat option"
  w_workers :: "worker list"
  w_mem :: "'d memory"
  w_registered :: "nat set"         \<comment> \<open>\<open>DebugState::registered_uses\<close>\<close>
  w_next_key :: nat                 \<comment> \<open>\<open>current_generated_key_index\<close>\<close>
  w_next_sequence :: nat
  w_pending_tasks :: u64
  w_dorment :: u64
  w_max_depth :: nat                \<comment> \<open>\<open>max_task_depth\<close>\<close>
  w_callbacks :: "nat list"         \<comment> \<open>\<open>instance_quiescence_callbacks_\<close>\<close>
  w_called :: "nat list"            \<comment> \<open>the callbacks that have been called\<close>

text \<open>What belongs to the frontend and the application.\<close>

record 'd env =
  en_ser :: "nat \<Rightarrow> 'd ser_man"
  en_n_elements :: "nat \<Rightarrow> 'd \<Rightarrow> nat"                  \<comment> \<open>a handle's array concept manager\<close>
  en_reduce :: "nat \<Rightarrow> 'd \<Rightarrow> 'd \<Rightarrow> nat \<Rightarrow> nat \<Rightarrow> 'd"    \<comment> \<open>\<open>reduce_unpacked_into_unpacked\<close>\<close>
  en_user :: "nat \<Rightarrow> 'd \<Rightarrow> 'd"
  en_stealing :: bool                                   \<comment> \<open>\<open>SIMPLE_BACKEND_ENABLE_WORK_STEALING\<close>\<close>

type_synonym 'd outcome = "rt_error + (cmd list \<times> 'd world)"

definition shutdown_counter :: nat where "shutdown_counter = 0"

section \<open>Events\<close>

definition new_event :: "u64 \<Rightarrow> 'd world \<Rightarrow> nat \<times> 'd world" where
  "new_event initial_count w =
     (length (w_events w),
      w\<lparr>w_events := w_events w @ [\<lparr>ev_count = initial_count, ev_triggered = False, ev_actions = []\<rparr>]\<rparr>)"

definition is_triggered :: "nat \<Rightarrow> 'd world \<Rightarrow> bool" where
  "is_triggered e w \<longleftrightarrow> e < length (w_events w) \<and> ev_triggered (w_events w ! e)"

definition advance_count :: "nat \<Rightarrow> u64 \<Rightarrow> 'd world \<Rightarrow> rt_error + 'd world" where
  "advance_count e amount w =
     bindE (at NullPointer (w_events w) e) (\<lambda>ev.
     bindE (require IncrementAfterTrigger (\<not> ev_triggered ev)) (\<lambda>_.
       Inr (w\<lparr>w_events := (w_events w)[e := ev\<lparr>ev_count := ev_count ev + amount\<rparr>]\<rparr>)))"

definition increment_count :: "nat \<Rightarrow> 'd world \<Rightarrow> rt_error + 'd world" where
  "increment_count e w = advance_count e 1 w"

text \<open>\<open>make_ready\<close>: the flag is set, the queue is replaced by an empty one and its actions run.\<close>

definition make_ready :: "nat \<Rightarrow> event \<Rightarrow> 'd world \<Rightarrow> cmd list \<times> 'd world" where
  "make_ready e ev w =
     (map CAction (ev_actions ev),
      w\<lparr>w_events := (w_events w)[e := ev\<lparr>ev_triggered := True, ev_actions := []\<rparr>]\<rparr>)"

definition decrement_count :: "nat \<Rightarrow> 'd world \<Rightarrow> 'd outcome" where
  "decrement_count e w =
     bindE (at NullPointer (w_events w) e) (\<lambda>ev.
     bindE (require DecrementAfterTrigger (\<not> ev_triggered ev)) (\<lambda>_.
       let ev' = ev\<lparr>ev_count := ev_count ev - 1\<rparr>
       in if ev_count ev = 1 then Inr (make_ready e ev' w)
          else Inr ([], w\<lparr>w_events := (w_events w)[e := ev']\<rparr>)))"

text \<open>
  \<open>attach_or_do_action\<close>. The event that it returns for the completion of the action is dropped by
  every caller and is left out. That testing the flag and queueing are one step here is what
  \<open>EventRace\<close> justifies.
\<close>

definition attach_or_do_action :: "nat \<Rightarrow> action \<Rightarrow> cmd list \<Rightarrow> 'd world \<Rightarrow> 'd outcome" where
  "attach_or_do_action e to_attach to_do w =
     bindE (at NullPointer (w_events w) e) (\<lambda>ev.
       if ev_triggered ev then Inr (to_do, w)
       else Inr ([], w\<lparr>w_events := (w_events w)[e := ev\<lparr>ev_actions := ev_actions ev @ [to_attach]\<rparr>]\<rparr>))"

definition attach_action :: "nat \<Rightarrow> action \<Rightarrow> 'd world \<Rightarrow> 'd outcome" where
  "attach_action e a w = attach_or_do_action e a [CAction a] w"

definition attach_decrement_of :: "nat \<Rightarrow> nat \<Rightarrow> 'd world \<Rightarrow> 'd outcome" where
  "attach_decrement_of e to_decrement w = attach_action e (DecrementAction to_decrement) w"

text \<open>Run a procedure and then the commands \<open>cs\<close>.\<close>

definition then_do :: "'d outcome \<Rightarrow> cmd list \<Rightarrow> 'd outcome" where
  "then_do r cs = bindE r (\<lambda>(cs', w'). Inr (cs' @ cs, w'))"

section \<open>Flows, anti-flows, control blocks and entries\<close>

text \<open>The constructors of \<open>Flow\<close> and \<open>AntiFlow\<close>; \<open>BasicFlow\<close> asserts that the count is not 0.\<close>

definition make_flow :: "nat option \<Rightarrow> u64 \<Rightarrow> 'd world \<Rightarrow> rt_error + (flow_ptr \<times> 'd world)" where
  "make_flow cblk initial_count w =
     (let (e, w1) = new_event initial_count w
      in bindE (require ZeroInitialCount (initial_count \<noteq> 0)) (\<lambda>_.
           Inr (FlowPtr (length (w_flows w1)) e,
                w1\<lparr>w_flows := w_flows w1 @ [\<lparr>fl_control_block = cblk, fl_parent_token = None\<rparr>]\<rparr>)))"

definition make_anti_flow :: "u64 \<Rightarrow> 'd world \<Rightarrow> rt_error + (anti_flow_ptr \<times> 'd world)" where
  "make_anti_flow initial_count w =
     (let (e, w1) = new_event initial_count w
      in bindE (require ZeroInitialCount (initial_count \<noteq> 0)) (\<lambda>_.
           Inr (AntiFlowPtr (length (w_aflows w1)) e, w1\<lparr>w_aflows := w_aflows w1 @ [False]\<rparr>)))"

definition make_cblk :: "cblk \<Rightarrow> 'd world \<Rightarrow> nat \<times> 'd world" where
  "make_cblk cb w = (length (w_cblks w), w\<lparr>w_cblks := w_cblks w @ [cb]\<rparr>)"

text \<open>\<open>PublicationTableEntry::Impl\<close>: no source flow yet, both counters at 1.\<close>

definition make_entry :: "'d world \<Rightarrow> entry_ptr \<times> 'd world" where
  "make_entry w =
     (let (fetching, w1) = new_event 1 w;
          (release, w2) = new_event 1 w1;
          en = EntryPtr (length (w_entries w2)) fetching release
      in (en, w2\<lparr>w_entries := w_entries w2 @ [(en, None)]\<rparr>))"

definition flow_at :: "flow_ptr \<Rightarrow> 'd world \<Rightarrow> rt_error + flow" where
  "flow_at f w = at NullPointer (w_flows w) (flow_id f)"

definition control_block_of :: "flow_ptr \<Rightarrow> 'd world \<Rightarrow> rt_error + cblk" where
  "control_block_of f w =
     bindE (flow_at f w) (\<lambda>fl.
     bindE (deref NullPointer (fl_control_block fl)) (\<lambda>c.
       at NullPointer (w_cblks w) c))"

definition use_at :: "nat \<Rightarrow> 'd world \<Rightarrow> rt_error + use" where
  "use_at u w = at NullPointer (w_uses w) u"

definition update_use :: "nat \<Rightarrow> (use \<Rightarrow> use) \<Rightarrow> 'd world \<Rightarrow> 'd world" where
  "update_use u f w = w\<lparr>w_uses := (w_uses w)[u := f (w_uses w ! u)]\<rparr>"

text \<open>Reads through \<open>related_flow()\<close>: the pointer may be null, and so may the flow it points at.\<close>

definition read_flow_slot :: "flow_slot \<Rightarrow> 'd world \<Rightarrow> rt_error + flow_ptr option" where
  "read_flow_slot s w =
     (case s of
        InFlowOf u \<Rightarrow> bindE (use_at u w) (\<lambda>us. Inr (us_in us))
      | OutFlowOf u \<Rightarrow> bindE (use_at u w) (\<lambda>us. Inr (us_out us)))"

definition read_anti_flow_slot :: "anti_flow_slot \<Rightarrow> 'd world \<Rightarrow> rt_error + anti_flow_ptr option" where
  "read_anti_flow_slot s w =
     (case s of
        AntiInFlowOf u \<Rightarrow> bindE (use_at u w) (\<lambda>us. Inr (us_anti_in us))
      | AntiOutFlowOf u \<Rightarrow> bindE (use_at u w) (\<lambda>us. Inr (us_anti_out us)))"

section \<open>Workers\<close>

definition worker_at :: "nat \<Rightarrow> 'd world \<Rightarrow> rt_error + worker" where
  "worker_at i w = at NoSuchWorker (w_workers w) i"

definition update_worker :: "nat \<Rightarrow> (worker \<Rightarrow> worker) \<Rightarrow> 'd world \<Rightarrow> 'd world" where
  "update_worker i f w = w\<lparr>w_workers := (w_workers w)[i := f (w_workers w ! i)]\<rparr>"

text \<open>\<open>workers[i].ready_tasks.emplace(op)\<close>\<close>

definition emplace_ready :: "nat \<Rightarrow> ready_op \<Rightarrow> 'd world \<Rightarrow> rt_error + 'd world" where
  "emplace_ready i op w =
     bindE (worker_at i w) (\<lambda>_.
       Inr (update_worker i (\<lambda>wk. wk\<lparr>wk_ready := snd (list_op (Put op) (wk_ready wk))\<rparr>) w))"

end
