(* ===== verification/PendingOps.thy ===== *)
theory PendingOps
  imports World
begin

text \<open>
  \<open>src/src/pending_operation.hpp\<close>: an operation that waits for events. A pending operation is its
  ready event, whose count is one for the set-up and one for each event that it waits for.
\<close>

section \<open>PendingOperation\<close>

definition make_pending_operation :: "'d world \<Rightarrow> nat \<times> 'd world" where
  "make_pending_operation w = new_event 1 w"

definition add_dependency_on :: "nat \<Rightarrow> nat \<Rightarrow> 'd world \<Rightarrow> 'd outcome" where
  "add_dependency_on ready_event prereq w =
     bindE (increment_count ready_event w) (\<lambda>w1.
       attach_action prereq (DecrementAction ready_event) w1)"

text \<open>
  \<open>enqueue_or_run\<close>. Whether the operation may run on the stack is decided before the ready event is
  looked at; otherwise it goes to the queue of the worker on which the event becomes ready.
\<close>

definition enqueue_or_run :: "nat \<Rightarrow> nat \<Rightarrow> ready_op \<Rightarrow> nat \<Rightarrow> bool \<Rightarrow> 'd world \<Rightarrow> 'd outcome" where
  "enqueue_or_run me ready_event op worker_id allow_run_on_stack w =
     bindE (worker_at me w) (\<lambda>wk.
       let w1 = w\<lparr>w_pending_tasks := w_pending_tasks w + 1\<rparr>;
           allow = (allow_run_on_stack \<and> wk_depth wk < w_max_depth w1 \<and> worker_id = me)
       in if allow
          then attach_or_do_action ready_event (EnqueueAction op) [CStackRun op] w1
          else attach_action ready_event (EnqueueAction op) w1)"

text \<open>The action that \<open>enqueue_or_run\<close> attaches, on the worker \<open>me\<close> that runs it.\<close>

definition run_enqueue_action :: "nat \<Rightarrow> ready_op \<Rightarrow> 'd world \<Rightarrow> 'd outcome" where
  "run_enqueue_action me op w =
     bindE (emplace_ready me op w) (\<lambda>w1. Inr ([], w1\<lparr>w_pending_tasks := w_pending_tasks w1 - 1\<rparr>))"

text \<open>The action that runs it on the stack instead: \<open>thread_stack_depth\<close> goes up and down again.\<close>

definition stack_run :: "nat \<Rightarrow> ready_op \<Rightarrow> 'd world \<Rightarrow> 'd outcome" where
  "stack_run me op w =
     bindE (worker_at me w) (\<lambda>_.
       Inr ([CRun op, CStackExit], update_worker me (\<lambda>wk. wk\<lparr>wk_depth := wk_depth wk + 1\<rparr>) w))"

definition stack_exit :: "nat \<Rightarrow> 'd world \<Rightarrow> 'd outcome" where
  "stack_exit me w =
     bindE (worker_at me w) (\<lambda>_.
       let w1 = update_worker me (\<lambda>wk. wk\<lparr>wk_depth := wk_depth wk - 1\<rparr>) w
       in Inr ([], w1\<lparr>w_pending_tasks := w_pending_tasks w1 - 1\<rparr>))"

section \<open>when_ready_do, when_all_ready_do and make_pending_task\<close>

text \<open>\<open>_when_all_helper\<close>, of which \<open>when_ready_do\<close> is the case of one event.\<close>

definition when_all_ready_do :: "nat \<Rightarrow> nat list \<Rightarrow> callable \<Rightarrow> 'd world \<Rightarrow> cmd list \<times> 'd world" where
  "when_all_ready_do me triggers callable w =
     (let (p, w1) = make_pending_operation w
      in (map (CAddDependency p) triggers
            @ [CDecrement p, CEnqueueOrRun p (CallableOperation callable True) me True], w1))"

definition when_ready_do :: "nat \<Rightarrow> nat \<Rightarrow> callable \<Rightarrow> 'd world \<Rightarrow> cmd list \<times> 'd world" where
  "when_ready_do me trigger callable w = when_all_ready_do me [trigger] callable w"

text \<open>The loop of \<open>make_pending_task\<close> over the dependencies, one round per command.\<close>

definition task_dependency :: "nat \<Rightarrow> nat \<Rightarrow> 'd world \<Rightarrow> 'd outcome" where
  "task_dependency p dep w =
     bindE (use_at dep w) (\<lambda>us.
       then_do
         (if is_dependency us then
            bindE (deref NullPointer (us_in us)) (\<lambda>f. add_dependency_on p (flow_trigger f) w)
          else Inr ([], w))
         [CTaskAntiDependency p dep])"

definition task_anti_dependency :: "nat \<Rightarrow> nat \<Rightarrow> 'd world \<Rightarrow> 'd outcome" where
  "task_anti_dependency p dep w =
     bindE (use_at dep w) (\<lambda>us.
       if is_anti_dependency us then
         bindE (deref AntiFlowMissing (us_anti_in us)) (\<lambda>f.
           add_dependency_on p (anti_flow_trigger f) w)
       else Inr ([], w))"

definition make_pending_task :: "task \<Rightarrow> nat \<Rightarrow> 'd world \<Rightarrow> cmd list \<times> 'd world" where
  "make_pending_task task worker_id w =
     (let (p, w1) = make_pending_operation w;
          allow_on_stack = (\<not> is_data_parallel_task task)
      in (map (CTaskDependency p) (get_dependencies task)
            @ [CDecrement p, CEnqueueOrRun p (ReadyTaskOperation task) worker_id allow_on_stack], w1))"

end
