(* ===== verification/Uses.thy ===== *)
theory Uses
  imports PendingOps
begin

text \<open>
  \<open>src/src/register_use.cpp\<close>, \<open>release_use.cpp\<close> and \<open>flow/aliasing_strategy.cpp\<close>: what a use's
  registration makes of its four flow relationships, and what its release gives back.
\<close>

section \<open>register_use\<close>

text \<open>The handle gets a key of the backend's own unless the user gave it one.\<close>

definition assign_key :: "nat \<Rightarrow> 'd world \<Rightarrow> rt_error + 'd world" where
  "assign_key h w =
     bindE (at NullPointer (w_handles w) h) (\<lambda>hd.
       Inr (if has_user_defined_key hd then w
            else w\<lparr>w_handles := (w_handles w)[h := hd\<lparr>handle_key := GeneratedKey (w_next_key w)\<rparr>],
                   w_next_key := w_next_key w + 1\<rparr>))"

definition register_use :: "nat \<Rightarrow> 'd world \<Rightarrow> 'd outcome" where
  "register_use u w =
     bindE (use_at u w) (\<lambda>us.
     bindE (assign_key (us_handle us) w) (\<lambda>w1.
       Inr ([CRegisterIn u], w1\<lparr>w_registered := insert u (w_registered w1)\<rparr>)))"

text \<open>\<open>assert(rel.related_flow())\<close> and the reads of \<open>*rel.related_flow()\<close> that follow it.\<close>

definition related_flow_ptr :: "flow_relationship \<Rightarrow> 'd world \<Rightarrow> rt_error + flow_ptr option" where
  "related_flow_ptr rel w =
     bindE (deref RelatedFlowMissing (related_flow rel)) (\<lambda>s. read_flow_slot s w)"

definition related_flow_deref :: "flow_relationship \<Rightarrow> 'd world \<Rightarrow> rt_error + flow_ptr" where
  "related_flow_deref rel w = bindE (related_flow_ptr rel w) (\<lambda>p. deref NullPointer p)"

definition related_anti_flow_ptr :: "flow_relationship \<Rightarrow> 'd world \<Rightarrow> rt_error + anti_flow_ptr option" where
  "related_anti_flow_ptr rel w =
     bindE (deref RelatedFlowMissing (related_anti_flow rel)) (\<lambda>s. read_anti_flow_slot s w)"

text \<open>\<open>static_pointer_cast<CollectionControlBlock>\<close> of a flow's control block, and its handle's key.\<close>

definition collection_block_of :: "flow_ptr \<Rightarrow> 'd world \<Rightarrow> rt_error + (nat \<times> cblk)" where
  "collection_block_of f w =
     bindE (flow_at f w) (\<lambda>fl.
     bindE (deref NullPointer (fl_control_block fl)) (\<lambda>c.
     bindE (at NullPointer (w_cblks w) c) (\<lambda>cb.
     bindE (require CollectionExpected (cb_n_indices cb \<noteq> None)) (\<lambda>_. Inr (c, cb)))))"

definition cblk_key :: "cblk \<Rightarrow> 'd world \<Rightarrow> rt_error + key" where
  "cblk_key cb w =
     bindE (deref NullPointer (cb_handle cb)) (\<lambda>h.
     bindE (at NullPointer (w_handles w) h) (\<lambda>hd. Inr (handle_key hd)))"

text \<open>
  \<open>current_published_entries.evaluate_at\<close>: the default-constructed table entry is a null pointer.
  The callable gets the entry and says what to leave there.
\<close>

definition published_entry :: "nat \<Rightarrow> key \<times> key \<times> nat \<Rightarrow> 'd world \<Rightarrow> rt_error + entry_ptr option" where
  "published_entry t k w =
     bindE (at TokenMissing (w_tokens w) t) (\<lambda>tk.
       evaluate_at k None (\<lambda>m. Inr (case m k of None \<Rightarrow> None | Some en \<Rightarrow> en)) (tk_published tk))"

definition set_published_entry :: "nat \<Rightarrow> key \<times> key \<times> nat \<Rightarrow> entry_ptr option \<Rightarrow> 'd world \<Rightarrow> 'd world" where
  "set_published_entry t k en w =
     (let tk = w_tokens w ! t
      in w\<lparr>w_tokens := (w_tokens w)[t := tk\<lparr>tk_published :=
             evaluate_at k None (\<lambda>m. m(k \<mapsto> en)) (tk_published tk)\<rparr>]\<rparr>)"

definition ensure_entry :: "nat \<Rightarrow> key \<times> key \<times> nat \<Rightarrow> 'd world \<Rightarrow> rt_error + (entry_ptr \<times> 'd world)" where
  "ensure_entry t k w =
     bindE (published_entry t k w) (\<lambda>en.
       case en of
         Some p \<Rightarrow> Inr (p, w)
       | None \<Rightarrow> (let (p, w1) = make_entry w in Inr (p, set_published_entry t k (Some p) w1)))"

text \<open>
  \<open>*rel.version_key()\<close>, and the key at which a publication is looked up: that of the collection, the
  version and the index.
\<close>

definition publication_key :: "cblk \<Rightarrow> flow_relationship \<Rightarrow> 'd world \<Rightarrow> rt_error + key \<times> key \<times> nat" where
  "publication_key coll rel w =
     bindE (cblk_key coll w) (\<lambda>k.
     bindE (deref NullPointer (version_key rel)) (\<lambda>v. Inr (k, v, rel_index rel)))"

definition parent_token_of :: "flow_ptr \<Rightarrow> 'd world \<Rightarrow> rt_error + nat" where
  "parent_token_of f w = bindE (flow_at f w) (\<lambda>fl. deref TokenMissing (fl_parent_token fl))"

subsection \<open>The in flow\<close>

text \<open>
  Each case of the switch gives the flow and what an already triggered related flow runs at once.
\<close>

definition in_flow_next :: "flow_relationship \<Rightarrow> 'd world \<Rightarrow> rt_error + (flow_ptr \<times> cmd list \<times> 'd world)" where
  "in_flow_next rel w =
     bindE (related_flow_deref rel w) (\<lambda>r.
     bindE (flow_at r w) (\<lambda>fl.
     bindE (make_flow (fl_control_block fl) 1 w) (\<lambda>(f, w1).
     bindE (attach_decrement_of (flow_trigger r) (flow_trigger f) w1) (\<lambda>(cs, w2).
       Inr (f, cs, w2)))))"

definition in_flow_of_cblk :: "cblk \<times> 'd memory \<Rightarrow> 'd world \<Rightarrow> rt_error + (flow_ptr \<times> cmd list \<times> 'd world)" where
  "in_flow_of_cblk cm w =
     (let (c, w1) = make_cblk (fst cm) (w\<lparr>w_mem := snd cm\<rparr>)
      in bindE (make_flow (Some c) 1 w1) (\<lambda>(f, w2).
         bindE (decrement_count (flow_trigger f) w2) (\<lambda>(cs, w3).
           Inr (f, cs, w3))))"

definition in_flow_initial :: "'d env \<Rightarrow> use \<Rightarrow> 'd world \<Rightarrow> rt_error + (flow_ptr \<times> cmd list \<times> 'd world)" where
  "in_flow_initial E us w =
     bindE (require RelatedFlowPresent (related_flow (us_in_rel us) = None)) (\<lambda>_.
     bindE (cblk_of_handle (en_ser E) (Some (us_handle us)) (w_mem w)) (\<lambda>cm.
       in_flow_of_cblk cm w))"

definition in_flow_initial_collection ::
  "'d env \<Rightarrow> use \<Rightarrow> 'd world \<Rightarrow> rt_error + (flow_ptr \<times> cmd list \<times> 'd world)" where
  "in_flow_initial_collection E us w =
     bindE (require RelatedFlowPresent (related_flow (us_in_rel us) = None)) (\<lambda>_.
     bindE (require CollectionExpected (manages_collection us)) (\<lambda>_.
     bindE (cblk_collection (en_ser E) (us_handle us) (of_nat (managed_size us)) (w_mem w)) (\<lambda>cm.
       in_flow_of_cblk cm w)))"

definition in_flow_indexed_local ::
  "'d env \<Rightarrow> flow_relationship \<Rightarrow> 'd world \<Rightarrow> rt_error + (flow_ptr \<times> cmd list \<times> 'd world)" where
  "in_flow_indexed_local E rel w =
     bindE (related_flow_deref rel w) (\<lambda>r.
     bindE (collection_block_of r w) (\<lambda>(coll, cb).
     bindE (data_for_index (en_ser E) cb (of_nat (rel_index rel))) (\<lambda>p.
     let (c, w1) = make_cblk (cblk_for_index (Some p) coll (rel_index rel)) w in
     bindE (make_flow (Some c) 1 w1) (\<lambda>(f, w2).
     bindE (attach_decrement_of (flow_trigger r) (flow_trigger f) w2) (\<lambda>(cs, w3).
       Inr (f, cs, w3))))))"

definition in_flow_indexed_fetching ::
  "use \<Rightarrow> 'd world \<Rightarrow> rt_error + (flow_ptr \<times> cmd list \<times> 'd world)" where
  "in_flow_indexed_fetching us w =
     (let rel = us_in_rel us in
     bindE (related_flow_deref rel w) (\<lambda>r.
     bindE (collection_block_of r w) (\<lambda>(coll, cb).
     let (c, w1) = make_cblk (cblk_for_fetch (Some (us_handle us)) None) w in
     bindE (make_flow (Some c) 1 w1) (\<lambda>(f, w2).
     bindE (parent_token_of r w2) (\<lambda>t.
     bindE (publication_key cb rel w2) (\<lambda>k.
     bindE (ensure_entry t k w2) (\<lambda>(en, w3).
     bindE (attach_action (fetching_join_counter en) (FetchedAction en f) w3) (\<lambda>(cs, w4).
       Inr (f, cs, w4)))))))))"

text \<open>
  \<open>set_in_flow\<close> comes after the switch; what has run before it concerns the new flow only, so it is
  done in the same step.
\<close>

definition set_in_flow ::
  "nat \<Rightarrow> rt_error + (flow_ptr \<times> cmd list \<times> 'd world) \<Rightarrow> 'd outcome" where
  "set_in_flow u r =
     bindE r (\<lambda>(f, cs, w).
       Inr (cs @ [CRegisterAntiIn u], update_use u (\<lambda>us. us\<lparr>us_in := Some f\<rparr>) w))"

definition reuse_in_flow :: "nat \<Rightarrow> rt_error + flow_ptr option \<Rightarrow> 'd world \<Rightarrow> 'd outcome" where
  "reuse_in_flow u r w =
     bindE r (\<lambda>f. Inr ([CRegisterAntiIn u], update_use u (\<lambda>us. us\<lparr>us_in := f\<rparr>) w))"

definition register_in :: "'d env \<Rightarrow> nat \<Rightarrow> 'd world \<Rightarrow> 'd outcome" where
  "register_in E u w =
     bindE (use_at u w) (\<lambda>us.
     let rel = us_in_rel us in
     (case rel_description rel of
        Insignificant \<Rightarrow> reuse_in_flow u (Inr None) w
      | InsignificantCollection \<Rightarrow> reuse_in_flow u (Inr None) w
      | Same \<Rightarrow> reuse_in_flow u (related_flow_ptr rel w) w
      | SameCollection \<Rightarrow> reuse_in_flow u (related_flow_ptr rel w) w
      | Next \<Rightarrow> set_in_flow u (in_flow_next rel w)
      | NextCollection \<Rightarrow> set_in_flow u (in_flow_next rel w)
      | Initial \<Rightarrow> set_in_flow u (in_flow_initial E us w)
      | InitialCollection \<Rightarrow> set_in_flow u (in_flow_initial_collection E us w)
      | IndexedLocal \<Rightarrow> set_in_flow u (in_flow_indexed_local E rel w)
      | IndexedFetching \<Rightarrow> set_in_flow u (in_flow_indexed_fetching us w)
      | Forwarding \<Rightarrow> reuse_in_flow u (related_flow_ptr rel w) w
      | Null \<Rightarrow> Inl UnimplementedRelation
      | NullCollection \<Rightarrow> Inl UnimplementedRelation))"

subsection \<open>The anti-in flow\<close>

definition set_anti_in_flow :: "nat \<Rightarrow> anti_flow_ptr option \<Rightarrow> cmd list \<Rightarrow> 'd world \<Rightarrow> 'd outcome" where
  "set_anti_in_flow u f cs w =
     Inr (cs @ [CRegisterOut u], update_use u (\<lambda>us. us\<lparr>us_anti_in := f\<rparr>) w)"

definition anti_in_same :: "nat \<Rightarrow> use \<Rightarrow> 'd world \<Rightarrow> 'd outcome" where
  "anti_in_same u us w =
     bindE (related_anti_flow_ptr (us_anti_in_rel us) w) (\<lambda>f.
       case f of
         Some a \<Rightarrow>
           if is_anti_dependency us then set_anti_in_flow u f [] w
           else bindE (increment_count (anti_flow_trigger a) w) (\<lambda>w1. set_anti_in_flow u f [] w1)
       | None \<Rightarrow> set_anti_in_flow u f [] w)"

definition anti_in_next :: "nat \<Rightarrow> use \<Rightarrow> 'd world \<Rightarrow> 'd outcome" where
  "anti_in_next u us w =
     bindE (deref RelatedFlowMissing (related_anti_flow (us_anti_in_rel us))) (\<lambda>_.
     bindE (require AntiDependencyForbidden (\<not> is_anti_dependency us)) (\<lambda>_.
     bindE (make_anti_flow 1 w) (\<lambda>(f, w1). set_anti_in_flow u (Some f) [] w1)))"

definition anti_in_forwarding :: "nat \<Rightarrow> use \<Rightarrow> 'd world \<Rightarrow> 'd outcome" where
  "anti_in_forwarding u us w =
     bindE (related_anti_flow_ptr (us_anti_in_rel us) w) (\<lambda>r.
     bindE (require RelatedFlowMissing (r \<noteq> None)) (\<lambda>_.
     bindE (require AntiDependencyExpected (is_anti_dependency us)) (\<lambda>_.
     bindE (make_anti_flow 1 w) (\<lambda>(f, w1).
     bindE (decrement_count (anti_flow_trigger f) w1) (\<lambda>(cs, w2).
       set_anti_in_flow u (Some f) cs w2)))))"

definition anti_in_indexed_local :: "nat \<Rightarrow> use \<Rightarrow> 'd world \<Rightarrow> 'd outcome" where
  "anti_in_indexed_local u us w =
     bindE (related_anti_flow_ptr (us_anti_in_rel us) w) (\<lambda>r.
     bindE (require AntiDependencyExpected (is_anti_dependency us)) (\<lambda>_.
       case r of
         None \<Rightarrow> set_anti_in_flow u None [] w
       | Some a \<Rightarrow>
           bindE (make_anti_flow 1 w) (\<lambda>(f, w1).
           bindE (attach_decrement_of (anti_flow_trigger a) (anti_flow_trigger f) w1) (\<lambda>(cs, w2).
             set_anti_in_flow u (Some f) cs w2))))"

definition register_anti_in :: "nat \<Rightarrow> 'd world \<Rightarrow> 'd outcome" where
  "register_anti_in u w =
     bindE (use_at u w) (\<lambda>us.
     (case rel_description (us_anti_in_rel us) of
        Insignificant \<Rightarrow> set_anti_in_flow u None [] w
      | InsignificantCollection \<Rightarrow> set_anti_in_flow u None [] w
      | Same \<Rightarrow> anti_in_same u us w
      | SameCollection \<Rightarrow> anti_in_same u us w
      | Next \<Rightarrow> anti_in_next u us w
      | NextCollection \<Rightarrow> anti_in_next u us w
      | Forwarding \<Rightarrow> anti_in_forwarding u us w
      | IndexedLocal \<Rightarrow> anti_in_indexed_local u us w
      | _ \<Rightarrow> Inl UnimplementedRelation))"

subsection \<open>The out flow\<close>

text \<open>\<open>out_related\<close>: the pointer may be null, and the flow that it points at too.\<close>

definition out_related :: "use \<Rightarrow> 'd world \<Rightarrow> rt_error + flow_ptr option option" where
  "out_related us w =
     (if use_corresponding_in_flow_as_related (us_out_rel us) then
        bindE (require RelatedFlowMissing (us_in us \<noteq> None)) (\<lambda>_. Inr (Some (us_in us)))
      else (case related_flow (us_out_rel us) of
              None \<Rightarrow> Inr None
            | Some s \<Rightarrow> bindE (read_flow_slot s w) (\<lambda>f. Inr (Some f))))"

definition set_out_flow :: "nat \<Rightarrow> flow_ptr option \<Rightarrow> cmd list \<Rightarrow> 'd world \<Rightarrow> 'd outcome" where
  "set_out_flow u f cs w =
     Inr (cs @ [CRegisterAntiOut u], update_use u (\<lambda>us. us\<lparr>us_out := f\<rparr>) w)"

definition out_same :: "nat \<Rightarrow> flow_ptr option option \<Rightarrow> 'd world \<Rightarrow> 'd outcome" where
  "out_same u related w =
     bindE (deref RelatedFlowMissing related) (\<lambda>p.
     bindE (deref NullPointer p) (\<lambda>f.
     bindE (increment_count (flow_trigger f) w) (\<lambda>w1. set_out_flow u (Some f) [] w1)))"

definition out_next :: "nat \<Rightarrow> flow_ptr option option \<Rightarrow> 'd world \<Rightarrow> 'd outcome" where
  "out_next u related w =
     bindE (deref RelatedFlowMissing related) (\<lambda>p.
     bindE (deref NullPointer p) (\<lambda>r.
     bindE (flow_at r w) (\<lambda>fl.
     bindE (make_flow (fl_control_block fl) 1 w) (\<lambda>(f, w1). set_out_flow u (Some f) [] w1))))"

definition out_null :: "nat \<Rightarrow> use \<Rightarrow> 'd world \<Rightarrow> 'd outcome" where
  "out_null u us w =
     bindE (deref RelatedFlowMissing (us_in us)) (\<lambda>r.
     bindE (flow_at r w) (\<lambda>fl.
     bindE (make_flow (fl_control_block fl) 1 w) (\<lambda>(f, w1). set_out_flow u (Some f) [] w1)))"

definition out_indexed_local :: "nat \<Rightarrow> flow_ptr option option \<Rightarrow> 'd world \<Rightarrow> 'd outcome" where
  "out_indexed_local u related w =
     bindE (deref RelatedFlowMissing related) (\<lambda>p.
     bindE (deref NullPointer p) (\<lambda>r.
     bindE (increment_count (flow_trigger r) w) (\<lambda>w1.
     let (c, w2) = make_cblk cblk_default w1 in
     bindE (make_flow (Some c) 1 w2) (\<lambda>(f, w3).
     bindE (attach_decrement_of (flow_trigger f) (flow_trigger r) w3) (\<lambda>(cs, w4).
       set_out_flow u (Some f) cs w4)))))"

definition register_out :: "nat \<Rightarrow> 'd world \<Rightarrow> 'd outcome" where
  "register_out u w =
     bindE (use_at u w) (\<lambda>us.
     bindE (out_related us w) (\<lambda>related.
     (case rel_description (us_out_rel us) of
        Insignificant \<Rightarrow> set_out_flow u None [] w
      | InsignificantCollection \<Rightarrow> set_out_flow u None [] w
      | Same \<Rightarrow> out_same u related w
      | SameCollection \<Rightarrow> out_same u related w
      | Next \<Rightarrow> out_next u related w
      | NextCollection \<Rightarrow> out_next u related w
      | Null \<Rightarrow> out_null u us w
      | NullCollection \<Rightarrow> out_null u us w
      | IndexedLocal \<Rightarrow> out_indexed_local u related w
      | _ \<Rightarrow> Inl UnimplementedRelation)))"

subsection \<open>The anti-out flow\<close>

definition anti_out_related :: "use \<Rightarrow> 'd world \<Rightarrow> rt_error + anti_flow_ptr option option" where
  "anti_out_related us w =
     (if use_corresponding_in_flow_as_anti_related (us_anti_out_rel us) then Inr (Some (us_anti_in us))
      else (case related_anti_flow (us_anti_out_rel us) of
              None \<Rightarrow> Inr None
            | Some s \<Rightarrow> bindE (read_anti_flow_slot s w) (\<lambda>f. Inr (Some f))))"

definition set_anti_out_flow :: "nat \<Rightarrow> anti_flow_ptr \<Rightarrow> cmd list \<Rightarrow> 'd world \<Rightarrow> 'd outcome" where
  "set_anti_out_flow u f cs w = Inr (cs, update_use u (\<lambda>us. us\<lparr>us_anti_out := Some f\<rparr>) w)"

definition anti_out_initial :: "nat \<Rightarrow> 'd world \<Rightarrow> 'd outcome" where
  "anti_out_initial u w = bindE (make_anti_flow 1 w) (\<lambda>(f, w1). set_anti_out_flow u f [] w1)"

text \<open>Here the assertion is on the relationship's own related anti-flow, whatever is used.\<close>

definition anti_out_same :: "nat \<Rightarrow> use \<Rightarrow> anti_flow_ptr option option \<Rightarrow> 'd world \<Rightarrow> 'd outcome" where
  "anti_out_same u us related w =
     bindE (require RelatedFlowMissing (related_anti_flow (us_anti_out_rel us) \<noteq> None)) (\<lambda>_.
     bindE (deref NullPointer related) (\<lambda>p.
     bindE (deref NullPointer p) (\<lambda>f.
     bindE (increment_count (anti_flow_trigger f) w) (\<lambda>w1. set_anti_out_flow u f [] w1))))"

definition anti_out_next :: "nat \<Rightarrow> anti_flow_ptr option option \<Rightarrow> 'd world \<Rightarrow> 'd outcome" where
  "anti_out_next u related w =
     bindE (deref RelatedFlowMissing related) (\<lambda>p.
     bindE (deref RelatedFlowMissing p) (\<lambda>_. anti_out_initial u w))"

definition anti_out_indexed_local :: "nat \<Rightarrow> anti_flow_ptr option option \<Rightarrow> 'd world \<Rightarrow> 'd outcome" where
  "anti_out_indexed_local u related w =
     bindE (deref RelatedFlowMissing related) (\<lambda>p.
     bindE (deref RelatedFlowMissing p) (\<lambda>r.
     bindE (increment_count (anti_flow_trigger r) w) (\<lambda>w1.
     bindE (make_anti_flow 1 w1) (\<lambda>(f, w2).
     bindE (attach_decrement_of (anti_flow_trigger f) (anti_flow_trigger r) w2) (\<lambda>(cs, w3).
       set_anti_out_flow u f cs w3)))))"

definition anti_out_indexed_fetching :: "nat \<Rightarrow> use \<Rightarrow> 'd world \<Rightarrow> 'd outcome" where
  "anti_out_indexed_fetching u us w =
     bindE (related_flow_deref (us_in_rel us) w) (\<lambda>r.
     bindE (parent_token_of r w) (\<lambda>t.
     bindE (make_anti_flow 1 w) (\<lambda>(f, w1).
     let w2 = w1\<lparr>w_aflows := (w_aflows w1)[anti_flow_id f := True]\<rparr> in
     bindE (collection_block_of r w2) (\<lambda>(coll, cb).
     bindE (publication_key cb (us_anti_out_rel us) w2) (\<lambda>k.
     bindE (published_entry t k w2) (\<lambda>entry.
     bindE (deref EntryMissing entry) (\<lambda>en.
     bindE (attach_decrement_of (anti_flow_trigger f) (release_event en) w2) (\<lambda>(cs, w3).
       set_anti_out_flow u f cs w3))))))))"

definition register_anti_out :: "nat \<Rightarrow> 'd world \<Rightarrow> 'd outcome" where
  "register_anti_out u w =
     bindE (use_at u w) (\<lambda>us.
     bindE (anti_out_related us w) (\<lambda>related.
     (case rel_description (us_anti_out_rel us) of
        Insignificant \<Rightarrow> Inr ([], w)
      | InsignificantCollection \<Rightarrow> Inr ([], w)
      | Initial \<Rightarrow> anti_out_initial u w
      | InitialCollection \<Rightarrow> anti_out_initial u w
      | Same \<Rightarrow> anti_out_same u us related w
      | SameCollection \<Rightarrow> anti_out_same u us related w
      | Next \<Rightarrow> anti_out_next u related w
      | NextCollection \<Rightarrow> anti_out_next u related w
      | IndexedLocal \<Rightarrow> anti_out_indexed_local u related w
      | IndexedFetching \<Rightarrow> anti_out_indexed_fetching u us w
      | _ \<Rightarrow> Inl UnimplementedRelation)))"

section \<open>release_use\<close>

text \<open>
  \<open>handle_aliasing_for_released_use\<close>: the out flow waits for the in flow too, and the anti-in flow
  for the anti-out flow. Each is incremented and an operation that decrements it is enqueued once
  the other one is ready.
\<close>

definition alias_flows :: "nat \<Rightarrow> nat \<Rightarrow> nat \<Rightarrow> 'd world \<Rightarrow> 'd outcome" where
  "alias_flows me held waits_for w =
     bindE (increment_count held w) (\<lambda>w1. Inr (when_ready_do me waits_for (DecrementOf held) w1))"

definition handle_aliasing_for_released_use :: "use \<Rightarrow> rt_error + cmd list" where
  "handle_aliasing_for_released_use us =
     bindE (deref NullPointer (us_out us)) (\<lambda>out_flow.
     bindE (deref NullPointer (us_in us)) (\<lambda>in_flow.
     bindE (case us_anti_in us of
              None \<Rightarrow> Inr []
            | Some anti_in \<Rightarrow>
                bindE (deref AntiFlowMissing (us_anti_out us)) (\<lambda>anti_out.
                  Inr [CAliasFlows (anti_flow_trigger anti_in) (anti_flow_trigger anti_out)])) (\<lambda>anti.
       Inr (CAliasFlows (flow_trigger out_flow) (flow_trigger in_flow) # anti))))"

text \<open>The decrements, in the order of the source; the flows are read on entry.\<close>

definition released_triggers :: "use \<Rightarrow> nat list" where
  "released_triggers us =
     (case us_anti_in us of
        Some f \<Rightarrow> if is_anti_dependency us then [] else [anti_flow_trigger f]
      | None \<Rightarrow> [])
     @ (case us_out us of Some f \<Rightarrow> [flow_trigger f] | None \<Rightarrow> [])
     @ (case us_anti_out us of Some f \<Rightarrow> [anti_flow_trigger f] | None \<Rightarrow> [])"

definition release_use :: "nat \<Rightarrow> 'd world \<Rightarrow> 'd outcome" where
  "release_use u w =
     bindE (use_at u w) (\<lambda>us.
     let w1 = w\<lparr>w_registered := w_registered w - {u}\<rparr> in
     bindE (if establishes_alias us then handle_aliasing_for_released_use us else Inr []) (\<lambda>alias.
       Inr (alias @ map CDecrement (released_triggers us), w1)))"

end
