(* ===== verification/Publication.thy ===== *)
theory Publication
  imports Uses
begin

text \<open>
  \<open>src/src/publish.cpp\<close> (with \<open>COPY_ALL_PUBLISHES\<close>): a published use's data is copied once its in
  flow is ready, and the copy is what the fetching flows get.
\<close>

definition token_of :: "nat option \<Rightarrow> 'd world \<Rightarrow> rt_error + nat" where
  "token_of coll w =
     bindE (deref TokenMissing coll) (\<lambda>c. deref TokenMissing (w_collection_token w c))"

definition set_source_flow :: "entry_ptr \<Rightarrow> flow_ptr \<Rightarrow> 'd world \<Rightarrow> 'd world" where
  "set_source_flow en f w = w\<lparr>w_entries := (w_entries w)[entry_id en := (en, Some f)]\<rparr>"

text \<open>
  The key: that of the collection which the published flow's block is an element of, the version,
  and the index.
\<close>

definition published_key :: "nat \<Rightarrow> publication_details \<Rightarrow> 'd world \<Rightarrow> rt_error + key \<times> key \<times> nat" where
  "published_key u d w =
     bindE (use_at u w) (\<lambda>us.
     bindE (deref NullPointer (us_in us)) (\<lambda>in_flow.
     bindE (control_block_of in_flow w) (\<lambda>cb.
     bindE (deref ParentMissing (cb_parent cb)) (\<lambda>coll.
     bindE (at NullPointer (w_cblks w) coll) (\<lambda>coll_cb.
     bindE (cblk_key coll_cb w) (\<lambda>k.
       Inr (k, version_name d, cb_index cb)))))))"

text \<open>
  What \<open>publish_use\<close> does to the entry: the release event waits for every fetcher instead of its
  initial count, the source flow is new and without a block, and the copy waits for the in flow.
  Nothing is ever attached to a release event, so its decrement runs no action.
\<close>

definition publish_at_entry :: "nat \<Rightarrow> nat \<Rightarrow> entry_ptr \<Rightarrow> 'd world \<Rightarrow> 'd outcome" where
  "publish_at_entry u fetchers en w =
     bindE (advance_count (release_event en) (of_nat fetchers) w) (\<lambda>w1.
     bindE (decrement_count (release_event en) w1) (\<lambda>(cs1, w2).
     bindE (use_at u w2) (\<lambda>us.
     bindE (deref NullPointer (us_in us)) (\<lambda>in_flow.
     bindE (flow_at in_flow w2) (\<lambda>fl.
     bindE (deref NullPointer (fl_control_block fl)) (\<lambda>control_blk.
     bindE (make_flow None 1 w2) (\<lambda>(source, w3).
     bindE (attach_action (flow_trigger in_flow) (PublishCopyAction en source control_blk u)
             (set_source_flow en source w3)) (\<lambda>(cs2, w4).
       Inr (cs1 @ cs2, w4)))))))))"

definition publish_use :: "nat \<Rightarrow> publication_details \<Rightarrow> 'd world \<Rightarrow> 'd outcome" where
  "publish_use u d w =
     bindE (published_key u d w) (\<lambda>k.
     bindE (token_of (pd_collection d) w) (\<lambda>t.
     bindE (ensure_entry t k w) (\<lambda>(en, w1).
       publish_at_entry u (n_fetchers d) en w1)))"

text \<open>The handle of the collection that a block is an element of.\<close>

definition parent_handle_of :: "'d world \<Rightarrow> nat \<Rightarrow> nat option" where
  "parent_handle_of w coll =
     (if coll < length (w_cblks w) then cb_handle (w_cblks w ! coll) else None)"

text \<open>The action that copies and then lets the fetchers go and releases the published use.\<close>

definition run_publish_copy :: "'d env \<Rightarrow> entry_ptr \<Rightarrow> flow_ptr \<Rightarrow> nat \<Rightarrow> nat \<Rightarrow> 'd world \<Rightarrow> 'd outcome" where
  "run_publish_copy E en source control_blk u w =
     bindE (at NullPointer (w_cblks w) control_blk) (\<lambda>cb.
     bindE (cblk_copy (en_ser E) (parent_handle_of w) cb (w_mem w)) (\<lambda>(cb', m).
     bindE (flow_at source w) (\<lambda>fl.
     let (c, w1) = make_cblk cb' (w\<lparr>w_mem := m\<rparr>);
         w2 = w1\<lparr>w_flows := (w_flows w1)[flow_id source := fl\<lparr>fl_control_block := Some c\<rparr>]\<rparr>
     in Inr ([CDecrement (flow_trigger source), CDecrement (fetching_join_counter en), CRelease u], w2))))"

text \<open>The action of a fetching flow: it points its block at the published data.\<close>

definition run_fetched :: "entry_ptr \<Rightarrow> flow_ptr \<Rightarrow> 'd world \<Rightarrow> 'd outcome" where
  "run_fetched en in_flow w =
     bindE (at NullPointer (w_entries w) (entry_id en)) (\<lambda>e.
     bindE (deref NullPointer (snd e)) (\<lambda>source.
     bindE (control_block_of source w) (\<lambda>scb.
     bindE (flow_at in_flow w) (\<lambda>fl.
     bindE (deref NullPointer (fl_control_block fl)) (\<lambda>c.
     bindE (at NullPointer (w_cblks w) c) (\<lambda>cb.
       Inr ([CDecrement (flow_trigger in_flow)],
            w\<lparr>w_cblks := (w_cblks w)[c := cb\<lparr>cb_data := cb_data scb\<rparr>]\<rparr>)))))))"

end
