(* ===== verification/Collectives.thy ===== *)
theory Collectives
  imports Publication
begin

text \<open>
  \<open>src/src/collectives.cpp\<close>: \<open>allreduce_use\<close> with one use per contribution and
  \<open>reduce_collection_use\<close>. The variant of \<open>allreduce_use\<close> with separate input and output uses
  starts with \<open>assert(false)\<close>.
\<close>

section \<open>Allreduce\<close>

definition invocation_at :: "invocation_ptr \<Rightarrow> 'd world \<Rightarrow> rt_error + invocation" where
  "invocation_at ip w = bindE (at NullPointer (w_invocations w) (invocation_id ip)) (\<lambda>p. Inr (snd p))"

text \<open>
  \<open>weak_ptr::lock\<close> and the assertion after it. Other owners than the token's table may keep the
  invocation alive for longer; where the code locks, the table still has it.
\<close>

definition lock_invocation :: "invocation_ptr \<Rightarrow> 'd world \<Rightarrow> rt_error + invocation" where
  "lock_invocation ip w =
     bindE (invocation_at ip w) (\<lambda>iv.
     bindE (require InvocationGone (iv_owned iv)) (\<lambda>_. Inr iv))"

definition update_invocation :: "invocation_ptr \<Rightarrow> (invocation \<Rightarrow> invocation) \<Rightarrow> 'd world \<Rightarrow> 'd world" where
  "update_invocation ip f w =
     (let p = w_invocations w ! invocation_id ip
      in w\<lparr>w_invocations := (w_invocations w)[invocation_id ip := (fst p, f (snd p))]\<rparr>)"

definition push_input_use :: "invocation_ptr \<Rightarrow> nat \<Rightarrow> 'd world \<Rightarrow> 'd world" where
  "push_input_use ip u w =
     update_invocation ip (\<lambda>iv. iv\<lparr>iv_input_uses := iv_input_uses iv @ [u]\<rparr>) w"

text \<open>The constructor of \<open>CollectiveInvocation\<close>, for twice as many decrements as contributions.\<close>

definition make_invocation :: "nat \<Rightarrow> 'd world \<Rightarrow> invocation_ptr \<times> 'd world" where
  "make_invocation n w =
     (let (e, w1) = new_event (of_nat (2 * n)) w;
          ip = InvocationPtr (length (w_invocations w1)) e
      in (ip, w1\<lparr>w_invocations := w_invocations w1
                    @ [(ip, \<lparr>iv_input_uses = [], iv_size = n, iv_owned = True\<rparr>)]\<rparr>))"

definition set_collectives ::
  "nat \<Rightarrow> ((key, invocation_ptr) cmap \<Rightarrow> (key, invocation_ptr) cmap) \<Rightarrow> 'd world \<Rightarrow> 'd world" where
  "set_collectives t f w =
     (let tk = w_tokens w ! t
      in w\<lparr>w_tokens := (w_tokens w)[t := tk\<lparr>tk_collectives := f (tk_collectives tk)\<rparr>]\<rparr>)"

text \<open>The in flow of a use and the block that it has.\<close>

definition in_flow_of :: "nat \<Rightarrow> 'd world \<Rightarrow> rt_error + flow_ptr" where
  "in_flow_of u w = bindE (use_at u w) (\<lambda>us. deref NullPointer (us_in us))"

definition in_block_of :: "nat \<Rightarrow> 'd world \<Rightarrow> rt_error + nat" where
  "in_block_of u w =
     bindE (in_flow_of u w) (\<lambda>f.
     bindE (flow_at f w) (\<lambda>fl. deref NullPointer (fl_control_block fl)))"

text \<open>
  A contribution to an invocation that exists already: its anti-in flow is one decrement, the
  reduction of its data, once its in flow is ready, is the other.
\<close>

definition contribute_more :: "nat \<Rightarrow> nat \<Rightarrow> invocation_ptr \<Rightarrow> 'd world \<Rightarrow> 'd outcome" where
  "contribute_more u op ip w =
     (let w1 = push_input_use ip u w in
     bindE (use_at u w1) (\<lambda>us.
     bindE (in_flow_of u w1) (\<lambda>in_flow.
     bindE (in_block_of u w1) (\<lambda>control_block.
       then_do
         (case us_anti_in us of
            Some a \<Rightarrow> attach_action (anti_flow_trigger a) (DecrementAction (invocation_ready_event ip)) w1
          | None \<Rightarrow> decrement_count (invocation_ready_event ip) w1)
         [CAttach (flow_trigger in_flow) (ContributeAction ip (us_handle us) control_block op)]))))"

text \<open>
  The first contribution: the completion is attached before the decrements are, so it never runs at
  once.
\<close>

definition contribute_first :: "nat \<Rightarrow> nat \<Rightarrow> key \<Rightarrow> invocation_ptr \<Rightarrow> 'd world \<Rightarrow> 'd outcome" where
  "contribute_first u t tag ip w =
     bindE (attach_action (invocation_ready_event ip) (AllreduceDoneAction ip t tag) w) (\<lambda>(cs, w1).
     let w2 = push_input_use ip u w1 in
     bindE (use_at u w2) (\<lambda>us.
     bindE (in_flow_of u w2) (\<lambda>in_flow.
     bindE (case us_anti_in us of
              Some a \<Rightarrow> attach_action (anti_flow_trigger a) (CollectiveDecrementAction ip) w2
            | None \<Rightarrow> decrement_count (invocation_ready_event ip) w2) (\<lambda>(cs2, w3).
       Inr (cs @ cs2 @ [CAttach (flow_trigger in_flow) (CollectiveDecrementAction ip)], w3)))))"

definition allreduce_use :: "nat \<Rightarrow> collective_details \<Rightarrow> key \<Rightarrow> 'd world \<Rightarrow> 'd outcome" where
  "allreduce_use u d tag w =
     bindE (token_of (cd_collection d) w) (\<lambda>t.
     bindE (at TokenMissing (w_tokens w) t) (\<lambda>tk.
     bindE (require SizeMismatch (tk_size tk = n_contributions d)) (\<lambda>_.
     let (ip, w1) = make_invocation (tk_size tk) w in
       evaluate_or_evaluate_first tag
         (\<lambda>m. bindE (deref NullPointer (m tag)) (\<lambda>found. contribute_more u (reduce_operation d) found w))
         (\<lambda>m. bindE (deref NullPointer (m tag)) (\<lambda>found.
                contribute_first u t tag found (set_collectives t (\<lambda>_. m) w1)))
         ip (tk_collectives tk))))"

definition run_collective_decrement :: "invocation_ptr \<Rightarrow> 'd world \<Rightarrow> 'd outcome" where
  "run_collective_decrement ip w =
     bindE (lock_invocation ip w) (\<lambda>_. Inr ([CDecrement (invocation_ready_event ip)], w))"

text \<open>\<open>input_uses[0]\<close>, past the end of an empty vector being null.\<close>

definition first_input :: "invocation_ptr \<Rightarrow> 'd world \<Rightarrow> rt_error + nat" where
  "first_input ip w = bindE (invocation_at ip w) (\<lambda>iv. at NullPointer (iv_input_uses iv) 0)"

definition run_contribute :: "invocation_ptr \<Rightarrow> nat \<Rightarrow> nat \<Rightarrow> nat \<Rightarrow> 'd world \<Rightarrow> 'd outcome" where
  "run_contribute ip h control_block op w =
     bindE (first_input ip w) (\<lambda>u0.
     bindE (use_at u0 w) (\<lambda>us0.
       case us_anti_in us0 of
         Some a \<Rightarrow> attach_action (anti_flow_trigger a) (ContributeAfterAntiAction ip h control_block op) w
       | None \<Rightarrow> bindE (in_flow_of u0 w) (\<lambda>f.
                   attach_action (flow_trigger f) (ContributeReduceAction ip h control_block op) w)))"

definition run_contribute_after_anti :: "invocation_ptr \<Rightarrow> nat \<Rightarrow> nat \<Rightarrow> nat \<Rightarrow> 'd world \<Rightarrow> 'd outcome" where
  "run_contribute_after_anti ip h control_block op w =
     bindE (first_input ip w) (\<lambda>u0.
     bindE (in_flow_of u0 w) (\<lambda>f.
       attach_action (flow_trigger f) (ContributeReduceAction ip h control_block op) w))"

text \<open>\<open>reduce_op->reduce_unpacked_into_unpacked(in_data, dest, 0, nelem)\<close>\<close>

definition reduce_into ::
  "'d env \<Rightarrow> nat \<Rightarrow> nat \<Rightarrow> ptr option \<Rightarrow> ptr option \<Rightarrow> 'd memory \<Rightarrow> rt_error + 'd memory" where
  "reduce_into E op h in_data dest m =
     bindE (mem_read in_data m) (\<lambda>v.
     bindE (mem_read dest m) (\<lambda>acc.
     bindE (deref NullPointer dest) (\<lambda>a.
       Inr (mem_construct a (en_reduce E op v acc 0 (en_n_elements E h v)) m))))"

definition data_of_block :: "nat \<Rightarrow> 'd world \<Rightarrow> rt_error + ptr option" where
  "data_of_block c w = bindE (at NullPointer (w_cblks w) c) (\<lambda>cb. Inr (cb_data cb))"

definition data_of_use :: "nat \<Rightarrow> 'd world \<Rightarrow> rt_error + ptr option" where
  "data_of_use u w = bindE (in_block_of u w) (\<lambda>c. data_of_block c w)"

definition run_contribute_reduce ::
  "'d env \<Rightarrow> invocation_ptr \<Rightarrow> nat \<Rightarrow> nat \<Rightarrow> nat \<Rightarrow> 'd world \<Rightarrow> 'd outcome" where
  "run_contribute_reduce E ip h control_block op w =
     bindE (data_of_block control_block w) (\<lambda>in_data.
     bindE (first_input ip w) (\<lambda>u0.
     bindE (data_of_use u0 w) (\<lambda>first_use_data.
     bindE (reduce_into E op h in_data first_use_data (w_mem w)) (\<lambda>m.
       Inr ([CDecrement (invocation_ready_event ip)], w\<lparr>w_mem := m\<rparr>)))))"

text \<open>
  Completion: the reduced data is packed once and unpacked into the data of every other use, each
  of which is destroyed first.
\<close>

fun unpack_into :: "'d \<Rightarrow> ptr option list \<Rightarrow> 'd memory \<Rightarrow> rt_error + 'd memory" where
  "unpack_into v [] m = Inr m"
| "unpack_into v (udata # us) m =
     bindE (mem_destroy udata m) (\<lambda>m1.
     bindE (deref NullPointer udata) (\<lambda>a. unpack_into v us (mem_construct a v m1)))"

fun collect :: "('a \<Rightarrow> 'e + 'b) \<Rightarrow> 'a list \<Rightarrow> 'e + 'b list" where
  "collect f [] = Inr []"
| "collect f (x # xs) = bindE (f x) (\<lambda>y. bindE (collect f xs) (\<lambda>ys. Inr (y # ys)))"

definition run_allreduce_done :: "'d env \<Rightarrow> invocation_ptr \<Rightarrow> nat \<Rightarrow> key \<Rightarrow> 'd world \<Rightarrow> 'd outcome" where
  "run_allreduce_done E ip t tag w =
     bindE (lock_invocation ip w) (\<lambda>iv.
     bindE (first_input ip w) (\<lambda>u0.
     bindE (use_at u0 w) (\<lambda>us0.
     bindE (data_of_use u0 w) (\<lambda>first_use_data.
     bindE (mem_read first_use_data (w_mem w)) (\<lambda>v.
     let ser_man = en_ser E (us_handle us0);
         packed_data = pack ser_man v
     in bindE (collect (\<lambda>u. data_of_use u w) (drop 1 (iv_input_uses iv))) (\<lambda>others.
        bindE (unpack_into (unpack ser_man packed_data) others (w_mem w)) (\<lambda>m.
          Inr (map CRelease (iv_input_uses iv) @ [CEraseCollective t tag ip], w\<lparr>w_mem := m\<rparr>))))))))"

definition erase_collective :: "nat \<Rightarrow> key \<Rightarrow> invocation_ptr \<Rightarrow> 'd world \<Rightarrow> 'd outcome" where
  "erase_collective t tag ip w =
     bindE (at TokenMissing (w_tokens w) t) (\<lambda>tk.
     bindE (require SingletonCollective (tk_size tk \<noteq> 1)) (\<lambda>_.
       Inr ([], update_invocation ip (\<lambda>iv. iv\<lparr>iv_owned := False\<rparr>)
                  (set_collectives t (erase tag) w))))"

section \<open>Reduction of a collection\<close>

definition reduce_collection_use :: "nat \<Rightarrow> nat \<Rightarrow> collective_details \<Rightarrow> 'd world \<Rightarrow> 'd outcome" where
  "reduce_collection_use use_in use_out d w =
     bindE (use_at use_in w) (\<lambda>uin.
     bindE (use_at use_out w) (\<lambda>uout.
     bindE (require CollectionExpected (manages_collection uin)) (\<lambda>_.
     bindE (require CollectionExpected (\<not> manages_collection uout)) (\<lambda>_.
     bindE (deref NullPointer (us_in uin)) (\<lambda>f.
     bindE (collection_block_of f w) (\<lambda>(c, cb).
       attach_action (flow_trigger f)
         (ReduceInReadyAction use_in use_out (reduce_operation d) (managed_size uin) c) w))))))"

definition run_reduce_in_ready :: "nat \<Rightarrow> nat \<Rightarrow> nat \<Rightarrow> nat \<Rightarrow> nat \<Rightarrow> 'd world \<Rightarrow> 'd outcome" where
  "run_reduce_in_ready use_in use_out op n c w =
     bindE (use_at use_out w) (\<lambda>uout.
     bindE (deref NullPointer (us_anti_in uout)) (\<lambda>a.
       attach_action (anti_flow_trigger a) (ReduceAntiReadyAction use_in use_out op n c) w))"

fun reduce_elements ::
  "'d env \<Rightarrow> nat \<Rightarrow> nat \<Rightarrow> cblk \<Rightarrow> ptr option \<Rightarrow> nat list \<Rightarrow> 'd memory \<Rightarrow> rt_error + 'd memory" where
  "reduce_elements E op h cb out_data [] m = Inr m"
| "reduce_elements E op h cb out_data (i # is) m =
     bindE (data_for_index (en_ser E) cb (of_nat i)) (\<lambda>in_data.
     bindE (reduce_into E op h (Some in_data) out_data m) (\<lambda>m1.
       reduce_elements E op h cb out_data is m1))"

definition run_reduce_anti_ready ::
  "'d env \<Rightarrow> nat \<Rightarrow> nat \<Rightarrow> nat \<Rightarrow> nat \<Rightarrow> nat \<Rightarrow> 'd world \<Rightarrow> 'd outcome" where
  "run_reduce_anti_ready E use_in use_out op n c w =
     bindE (use_at use_in w) (\<lambda>uin.
     bindE (use_at use_out w) (\<lambda>uout.
     bindE (data_of_use use_out w) (\<lambda>out_data.
     bindE (mem_destroy out_data (w_mem w)) (\<lambda>m1.
     bindE (at NullPointer (w_cblks w) c) (\<lambda>cb.
     bindE (deref NullPointer (cb_n_indices cb)) (\<lambda>n_indices.
     bindE (require SizeMismatch (0 < n_indices)) (\<lambda>_.
     bindE (data_for_index (en_ser E) cb 0) (\<lambda>first.
     bindE (copy_data (en_ser E) (us_handle uout) (Some first) out_data m1) (\<lambda>(a, m2).
     bindE (reduce_elements E op (us_handle uin) cb (Some a) [1..<n] m2) (\<lambda>m3.
       Inr ([CRelease use_in, CRelease use_out], w\<lparr>w_mem := m3\<rparr>)))))))))))"

end
