(* ===== verification/Tasks.thy ===== *)
theory Tasks
  imports Collectives
begin

text \<open>
  The operations of a worker's queue (\<open>src/src/ready_operation.hpp\<close>, \<open>ready_operation.cpp\<close>), how a
  worker runs one (\<open>Worker::run_operation\<close>), and the registration of tasks and of task collections
  (\<open>src/src/runtime/runtime.cpp\<close>).
\<close>

section \<open>Ready operations\<close>

fun is_runnable :: "ready_op \<Rightarrow> bool" where
  "is_runnable (SpecialMessage k) = False"
| "is_runnable (ReadyTaskOperation t) = True"
| "is_runnable (CallableOperation c s) = True"

fun is_stealable :: "ready_op \<Rightarrow> bool" where
  "is_stealable (SpecialMessage k) = False"
| "is_stealable (ReadyTaskOperation t) = True"
| "is_stealable (CallableOperation c s) = s"

fun get_message_kind :: "ready_op \<Rightarrow> message_kind" where
  "get_message_kind (SpecialMessage k) = k"
| "get_message_kind (ReadyTaskOperation t) = NoMessage"
| "get_message_kind (CallableOperation c s) = NoMessage"

text \<open>The dependencies that have permissions get the pointer to the data of their in flow.\<close>

fun setup_data :: "nat list \<Rightarrow> 'd world \<Rightarrow> rt_error + 'd world" where
  "setup_data [] w = Inr w"
| "setup_data (dep # deps) w =
     bindE (use_at dep w) (\<lambda>us.
       if immediate_none us then setup_data deps w
       else bindE (data_of_use dep w) (\<lambda>p.
              setup_data deps (update_use dep (\<lambda>us. us\<lparr>us_data := p\<rparr>) w)))"

text \<open>\<open>ReadyTaskOperation::run\<close>: the calls of the body, then the end of the task.\<close>

definition run_task :: "nat \<Rightarrow> task \<Rightarrow> 'd world \<Rightarrow> 'd outcome" where
  "run_task me t w =
     bindE (worker_at me w) (\<lambda>wk.
     bindE (setup_data (get_dependencies t) w) (\<lambda>w1.
       Inr (map CApi (task_body t) @ [CTaskFinished (wk_running wk)],
            update_worker me (\<lambda>wk. wk\<lparr>wk_running := Some t\<rparr>) w1)))"

definition task_finished :: "nat \<Rightarrow> task option \<Rightarrow> 'd world \<Rightarrow> 'd outcome" where
  "task_finished me old_running_task w =
     bindE (worker_at me w) (\<lambda>_.
       decrement_count shutdown_counter
         (update_worker me (\<lambda>wk. wk\<lparr>wk_running := old_running_task\<rparr>) w))"

fun run_callable :: "callable \<Rightarrow> 'd world \<Rightarrow> cmd list" where
  "run_callable (DecrementOf e) w = [CDecrement e]"
| "run_callable JoinWorkers w = map CJoin [1..<length (w_workers w)]"

text \<open>
  \<open>run_operation\<close>: whether the work loop should end, and what is to be run.
\<close>

definition run_operation :: "nat \<Rightarrow> ready_op \<Rightarrow> 'd world \<Rightarrow> rt_error + (bool \<times> cmd list \<times> 'd world)" where
  "run_operation me op w =
     (if is_runnable op then
        (case op of
           ReadyTaskOperation t \<Rightarrow> bindE (run_task me t w) (\<lambda>(cs, w1). Inr (False, cs, w1))
         | CallableOperation c s \<Rightarrow> Inr (False, run_callable c w, w)
         | SpecialMessage k \<Rightarrow> Inl UnreachableMessage)
      else
        (case get_message_kind op of
           AllTasksDone \<Rightarrow> Inr (True, [], w)
         | NoMessage \<Rightarrow> Inl UnreachableMessage))"

definition run_ignoring_message :: "nat \<Rightarrow> ready_op \<Rightarrow> 'd world \<Rightarrow> 'd outcome" where
  "run_ignoring_message me op w = bindE (run_operation me op w) (\<lambda>(b, cs, w1). Inr (cs, w1))"

text \<open>What the application does to the data of a use, through the pointer that it was given.\<close>

definition user_code :: "'d env \<Rightarrow> nat \<Rightarrow> nat \<Rightarrow> 'd world \<Rightarrow> 'd outcome" where
  "user_code E u code w =
     bindE (use_at u w) (\<lambda>us.
     bindE (mem_read (us_data us) (w_mem w)) (\<lambda>v.
     bindE (deref NullPointer (us_data us)) (\<lambda>a.
       Inr ([], w\<lparr>w_mem := mem_construct a (en_user E code v) (w_mem w)\<rparr>))))"

section \<open>Registration of tasks\<close>

definition register_task :: "nat \<Rightarrow> task \<Rightarrow> 'd world \<Rightarrow> 'd outcome" where
  "register_task me t w =
     bindE (increment_count shutdown_counter w) (\<lambda>w1. Inr (make_pending_task t me w1))"

text \<open>The dependencies of a task collection: the collections among them learn the token.\<close>

fun set_parent_tokens :: "nat \<Rightarrow> nat list \<Rightarrow> 'd world \<Rightarrow> rt_error + 'd world" where
  "set_parent_tokens t [] w = Inr w"
| "set_parent_tokens t (dep # deps) w =
     bindE (use_at dep w) (\<lambda>us.
       if manages_collection us then
         bindE (require AntiDependencyExpected (is_anti_dependency us)) (\<lambda>_.
         bindE (deref NullPointer (us_in us)) (\<lambda>f.
         bindE (flow_at f w) (\<lambda>fl.
           set_parent_tokens t deps
             (w\<lparr>w_flows := (w_flows w)[flow_id f := fl\<lparr>fl_parent_token := Some t\<rparr>]\<rparr>))))
       else set_parent_tokens t deps w)"

definition make_token :: "nat \<Rightarrow> 'd world \<Rightarrow> nat \<times> 'd world" where
  "make_token n w =
     (length (w_tokens w),
      w\<lparr>w_tokens := w_tokens w @ [\<lparr>tk_size = n, tk_sequence = w_next_sequence w,
            tk_collectives = (\<lambda>_. None), tk_published = (\<lambda>_. None)\<rparr>],
        w_next_sequence := w_next_sequence w + 1\<rparr>)"

definition register_task_collection :: "collection \<Rightarrow> 'd world \<Rightarrow> 'd outcome" where
  "register_task_collection tc w =
     bindE (increment_count shutdown_counter w) (\<lambda>w1.
     let (t, w2) = make_token (length (tc_tasks tc)) w1;
         w3 = w2\<lparr>w_collection_token := (w_collection_token w2)(tc_id tc \<mapsto> t)\<rparr>
     in bindE (set_parent_tokens t (tc_dependencies tc) w3) (\<lambda>w4.
          Inr ([CCreateTasks (tc_name tc) (tc_tasks tc) 0], w4)))"

text \<open>
  The loop over the indices; each round starts by keeping the workers from shutting down, and the
  count that the whole registration held is given back at the end.
\<close>

definition name_task :: "key \<Rightarrow> nat \<Rightarrow> task \<Rightarrow> task" where
  "name_task name i t =
     (if name \<noteq> EmptyKey
      then Task (get_dependencies t) (is_data_parallel_task t) (BackendIndexKey i name) (task_body t)
      else t)"

fun create_tasks :: "nat \<Rightarrow> key \<Rightarrow> task list \<Rightarrow> nat \<Rightarrow> 'd world \<Rightarrow> 'd outcome" where
  "create_tasks me name [] i w = decrement_count shutdown_counter w"
| "create_tasks me name (t # ts) i w =
     bindE (increment_count shutdown_counter w) (\<lambda>w1.
     bindE (require DivisionByZero (w_workers w1 \<noteq> [])) (\<lambda>_.
     let (cs, w2) = make_pending_task (name_task name i t) ((me + i) mod length (w_workers w1)) w1
     in Inr (cs @ [CCreateTasks name ts (i + 1)], w2)))"

end
