(* ===== verification/Workers.thy ===== *)
theory Workers
  imports Tasks
begin

text \<open>
  The workers (\<open>src/src/worker/worker_threads.cpp\<close>, \<open>work_stealing_random.cpp\<close>,
  \<open>work_stealing_off.cpp\<close>) and the life of the runtime (\<open>src/src/runtime/runtime.cpp\<close>,
  \<open>runtime_instance.hpp\<close>): construction, the shutdown actions, the work loop and joining.
\<close>

section \<open>Work stealing\<close>

text \<open>
  The remainder of C++ keeps the sign of the dividend, and \<open>steal_distribution(...) + id\<close> is a sum of
  two values of type \<open>int\<close>, of which the first can be any non-negative one since the member
  \<open>steal_distribution\<close> is never given a range. A sum past the largest \<open>int\<close> wraps.
\<close>

definition c_rem :: "int \<Rightarrow> int \<Rightarrow> int" where
  "c_rem a b = (if 0 \<le> a then a mod b else - ((- a) mod b))"

definition int_add :: "int \<Rightarrow> int \<Rightarrow> int" where
  "int_add a b = sint (word_of_int (a + b) :: 32 word)"

definition steal_from :: "int \<Rightarrow> nat \<Rightarrow> nat \<Rightarrow> int" where
  "steal_from drawn me n_threads = c_rem (int_add drawn (int me)) (int n_threads)"

definition worker_index :: "int \<Rightarrow> 'd world \<Rightarrow> rt_error + nat" where
  "worker_index i w =
     (if 0 \<le> i \<and> nat i < length (w_workers w) then Inr (nat i) else Inl NoSuchWorker)"

section \<open>The work loop\<close>

definition add_dorment :: "u64 \<Rightarrow> 'd world \<Rightarrow> 'd world" where
  "add_dorment d w = w\<lparr>w_dorment := w_dorment w + d\<rparr>"

definition set_ready :: "nat \<Rightarrow> ready_op list \<Rightarrow> 'd world \<Rightarrow> 'd world" where
  "set_ready i ops w = update_worker i (\<lambda>wk. wk\<lparr>wk_ready := ops\<rparr>) w"

text \<open>\<open>try_to_steal_work\<close>; what \<open>run_operation\<close> returns is ignored.\<close>

definition try_to_steal_work :: "'d env \<Rightarrow> nat \<Rightarrow> int \<Rightarrow> 'd world \<Rightarrow> 'd outcome" where
  "try_to_steal_work E me drawn w =
     (if en_stealing E then
        bindE (worker_index (steal_from drawn me (length (w_workers w))) w) (\<lambda>v.
          case list_op (TakeIf is_stealable) (wk_ready (w_workers w ! v)) of
            ((has_ready_op, Some op), rest) \<Rightarrow>
              then_do (run_ignoring_message me op (add_dorment (- 1) (set_ready v rest w))) [CDorment]
          | ((has_ready_op, None), rest) \<Rightarrow> Inr ([], w))
      else Inr ([], w))"

text \<open>One round of \<open>run_work_loop\<close>.\<close>

definition work_loop_round :: "'d env \<Rightarrow> nat \<Rightarrow> int \<Rightarrow> 'd world \<Rightarrow> 'd outcome" where
  "work_loop_round E me drawn w =
     bindE (worker_at me w) (\<lambda>wk.
       case list_op Take (wk_ready wk) of
         ((has_ready_op, Some op), rest) \<Rightarrow>
           bindE (run_operation me op (add_dorment (- 1) (set_ready me rest w)))
             (\<lambda>(should_break, cs, w1).
               if should_break
               then Inr ([], add_dorment 1 (update_worker me (\<lambda>wk. wk\<lparr>wk_stopped := True\<rparr>) w1))
               else Inr (cs @ [CDorment, CLoop], w1))
       | ((has_ready_op, None), rest) \<Rightarrow> then_do (try_to_steal_work E me drawn w) [CLoop])"

definition work_loop_start :: "'d world \<Rightarrow> 'd outcome" where
  "work_loop_start w = Inr ([CLoop], add_dorment 1 w)"

section \<open>Threads\<close>

text \<open>\<open>spawn_work_loop\<close> on all workers but the first, whose loop the caller itself runs.\<close>

definition spin_up_worker_threads :: "'d world \<Rightarrow> 'd outcome" where
  "spin_up_worker_threads w =
     bindE (require NoSuchWorker (w_workers w \<noteq> [])) (\<lambda>_.
       Inr ([CLoopStart],
            w\<lparr>w_workers := take 1 (w_workers w) @ map (\<lambda>wk. wk\<lparr>wk_thread := True\<rparr>) (drop 1 (w_workers w))\<rparr>))"

text \<open>\<open>join\<close> waits; the scheduler below only lets it go on once the worker has stopped.\<close>

definition join_worker :: "nat \<Rightarrow> 'd world \<Rightarrow> 'd outcome" where
  "join_worker i w =
     bindE (worker_at i w) (\<lambda>wk. bindE (require NoThread (wk_thread wk)) (\<lambda>_. Inr ([], w)))"

definition wait_for_top_level_instance_to_shut_down :: "'d world \<Rightarrow> cmd list" where
  "wait_for_top_level_instance_to_shut_down w = map CJoin [1..<length (w_workers w)]"

section \<open>Shutdown\<close>

fun emplace_all :: "nat list \<Rightarrow> ready_op \<Rightarrow> 'd world \<Rightarrow> rt_error + 'd world" where
  "emplace_all [] op w = Inr w"
| "emplace_all (i # is) op w = bindE (emplace_ready i op w) (\<lambda>w1. emplace_all is op w1)"

definition run_shutdown_action :: "'d world \<Rightarrow> 'd outcome" where
  "run_shutdown_action w =
     bindE (emplace_all [0..<length (w_workers w)] (SpecialMessage AllTasksDone) w) (\<lambda>w1. Inr ([], w1))"

definition run_region_shutdown_action :: "'d world \<Rightarrow> 'd outcome" where
  "run_region_shutdown_action w =
     bindE (emplace_ready 0 (CallableOperation JoinWorkers False) w) (\<lambda>w1.
     bindE (emplace_all [0..<length (w_workers w1)] (SpecialMessage AllTasksDone) w1) (\<lambda>w2.
       Inr ([], w2\<lparr>w_called := w_called w2 @ w_callbacks w2\<rparr>)))"

section \<open>Construction\<close>

definition new_worker :: worker where
  "new_worker = \<lparr>wk_ready = [], wk_running = None, wk_depth = 0, wk_thread = False, wk_stopped = False\<rparr>"

text \<open>\<open>_create_workers\<close>\<close>

definition create_workers :: "nat \<Rightarrow> worker list" where
  "create_workers nthreads = map (\<lambda>_. new_worker) [0..<nthreads]"

text \<open>
  \<open>Runtime()\<close>, for a region: the shutdown counter is 1 and the workers are there. The uses and the
  handles are the frontend's.
\<close>

definition region_runtime :: "nat \<Rightarrow> use list \<Rightarrow> handle list \<Rightarrow> 'd world" where
  "region_runtime nthreads uses handles =
     \<lparr>w_events = [\<lparr>ev_count = 1, ev_triggered = False, ev_actions = []\<rparr>], w_flows = [], w_aflows = [],
      w_cblks = [], w_uses = uses, w_handles = handles, w_entries = [], w_invocations = [],
      w_tokens = [], w_collection_token = (\<lambda>_. None), w_workers = create_workers nthreads,
      w_mem = mem_empty, w_registered = {}, w_next_key = 0, w_next_sequence = 0,
      w_pending_tasks = 0, w_dorment = 0, w_max_depth = 0, w_callbacks = [], w_called = []\<rparr>"

definition register_quiescence_callback :: "nat \<Rightarrow> 'd world \<Rightarrow> 'd world" where
  "register_quiescence_callback cb w = w\<lparr>w_callbacks := w_callbacks w @ [cb]\<rparr>"

text \<open>\<open>_init_shutdown_counter\<close>, and the constructor from a task that is ready to run.\<close>

definition init_shutdown_counter :: "'d world \<Rightarrow> 'd world" where
  "init_shutdown_counter w =
     w\<lparr>w_events := (w_events w)[shutdown_counter := (w_events w ! shutdown_counter)
          \<lparr>ev_actions := ev_actions (w_events w ! shutdown_counter) @ [ShutdownAction]\<rparr>]\<rparr>"

definition top_level_runtime :: "nat \<Rightarrow> use list \<Rightarrow> handle list \<Rightarrow> task \<Rightarrow> rt_error + 'd world" where
  "top_level_runtime nthreads uses handles top_level_task =
     emplace_ready 0 (ReadyTaskOperation top_level_task)
       (init_shutdown_counter (region_runtime nthreads uses handles))"

text \<open>\<open>with_active_runtime_instance\<close> up to the call of \<open>spin_up_worker_threads\<close>; the body of the region
  is the list of the calls that it makes.\<close>

definition with_active_runtime_instance :: "api list \<Rightarrow> 'd world \<Rightarrow> 'd outcome" where
  "with_active_runtime_instance body w =
     then_do (attach_action shutdown_counter RegionShutdownAction w)
       (map CApi body @ [CDecrement shutdown_counter, CSpinUp])"

end
