(* ===== verification/Machine.thy ===== *)
theory Machine
  imports Workers
begin

text \<open>
  The whole backend as a machine: each worker's thread has a stack of commands, the next one first,
  and a step runs the next command of some thread. A procedure that calls another one is resumed
  by the commands behind it, so every interleaving of the threads between two such calls is a run.
\<close>

section \<open>One command\<close>

definition run_action :: "'d env \<Rightarrow> nat \<Rightarrow> action \<Rightarrow> 'd world \<Rightarrow> 'd outcome" where
  "run_action E me a w =
     (case a of
        DecrementAction e \<Rightarrow> decrement_count e w
      | EnqueueAction op \<Rightarrow> run_enqueue_action me op w
      | FetchedAction en f \<Rightarrow> run_fetched en f w
      | PublishCopyAction en source c u \<Rightarrow> run_publish_copy E en source c u w
      | CollectiveDecrementAction ip \<Rightarrow> run_collective_decrement ip w
      | ContributeAction ip h c op \<Rightarrow> run_contribute ip h c op w
      | ContributeAfterAntiAction ip h c op \<Rightarrow> run_contribute_after_anti ip h c op w
      | ContributeReduceAction ip h c op \<Rightarrow> run_contribute_reduce E ip h c op w
      | AllreduceDoneAction ip t tag \<Rightarrow> run_allreduce_done E ip t tag w
      | ReduceInReadyAction ui uo op n c \<Rightarrow> run_reduce_in_ready ui uo op n c w
      | ReduceAntiReadyAction ui uo op n c \<Rightarrow> run_reduce_anti_ready E ui uo op n c w
      | ShutdownAction \<Rightarrow> run_shutdown_action w
      | RegionShutdownAction \<Rightarrow> run_region_shutdown_action w)"

text \<open>The calls that a task's body, or the body of a region, makes into the backend.\<close>

definition run_api :: "'d env \<Rightarrow> nat \<Rightarrow> api \<Rightarrow> 'd world \<Rightarrow> 'd outcome" where
  "run_api E me a w =
     (case a of
        RegisterUse u \<Rightarrow> register_use u w
      | ReleaseUse u \<Rightarrow> release_use u w
      | RegisterTask t \<Rightarrow> register_task me t w
      | RegisterTaskCollection tc \<Rightarrow> register_task_collection tc w
      | PublishUse u d \<Rightarrow> publish_use u d w
      | AllreduceUse u d tag \<Rightarrow> allreduce_use u d tag w
      | ReduceCollectionUse ui uo d \<Rightarrow> reduce_collection_use ui uo d w
      | UserCode u code \<Rightarrow> user_code E u code w)"

definition step :: "'d env \<Rightarrow> nat \<Rightarrow> int \<Rightarrow> cmd \<Rightarrow> 'd world \<Rightarrow> 'd outcome" where
  "step E me drawn c w =
     (case c of
        CDecrement e \<Rightarrow> decrement_count e w
      | CAction a \<Rightarrow> run_action E me a w
      | CApi a \<Rightarrow> run_api E me a w
      | CRegisterIn u \<Rightarrow> register_in E u w
      | CRegisterAntiIn u \<Rightarrow> register_anti_in u w
      | CRegisterOut u \<Rightarrow> register_out u w
      | CRegisterAntiOut u \<Rightarrow> register_anti_out u w
      | CRelease u \<Rightarrow> release_use u w
      | CAliasFlows held waits_for \<Rightarrow> alias_flows me held waits_for w
      | CAddDependency p e \<Rightarrow> add_dependency_on p e w
      | CTaskDependency p dep \<Rightarrow> task_dependency p dep w
      | CTaskAntiDependency p dep \<Rightarrow> task_anti_dependency p dep w
      | CEnqueueOrRun p op i allow \<Rightarrow> enqueue_or_run me p op i allow w
      | CStackRun op \<Rightarrow> stack_run me op w
      | CStackExit \<Rightarrow> stack_exit me w
      | CRun op \<Rightarrow> run_ignoring_message me op w
      | CTaskFinished old \<Rightarrow> task_finished me old w
      | CCreateTasks name ts i \<Rightarrow> create_tasks me name ts i w
      | CAttach e a \<Rightarrow> attach_action e a w
      | CEraseCollective t tag ip \<Rightarrow> erase_collective t tag ip w
      | CSpinUp \<Rightarrow> spin_up_worker_threads w
      | CLoopStart \<Rightarrow> work_loop_start w
      | CLoop \<Rightarrow> work_loop_round E me drawn w
      | CDorment \<Rightarrow> Inr ([], add_dorment 1 w)
      | CJoin i \<Rightarrow> join_worker i w)"

section \<open>Threads and schedules\<close>

record 'd config =
  cf_stacks :: "cmd list list"
  cf_world :: "'d world"

text \<open>A thread that has not been started cannot run, and a join waits for the worker to stop.\<close>

definition may_run :: "'d world \<Rightarrow> nat \<Rightarrow> cmd \<Rightarrow> bool" where
  "may_run w i c \<longleftrightarrow>
     (i = 0 \<or> (i < length (w_workers w) \<and> wk_thread (w_workers w ! i)))
     \<and> (case c of CJoin j \<Rightarrow> j < length (w_workers w) \<longrightarrow> wk_stopped (w_workers w ! j) | _ \<Rightarrow> True)"

inductive sched :: "'d env \<Rightarrow> 'd config \<Rightarrow> 'd config \<Rightarrow> bool" for E where
  sched: "i < length (cf_stacks g) \<Longrightarrow> cf_stacks g ! i = c # cs \<Longrightarrow> may_run (cf_world g) i c
    \<Longrightarrow> 0 \<le> drawn \<Longrightarrow> drawn < 2 ^ 31 \<Longrightarrow> step E i drawn c (cf_world g) = Inr (cs', w')
    \<Longrightarrow> sched E g \<lparr>cf_stacks = (cf_stacks g)[i := cs' @ cs], cf_world = w'\<rparr>"

inductive_cases schedE: "sched E g g'"

text \<open>
  A run under a given schedule, which says which thread goes next and what it draws: \<open>Inl\<close> is the
  error that stopped it, or nothing if the thread could not run.
\<close>

definition sched_step :: "'d env \<Rightarrow> nat \<Rightarrow> int \<Rightarrow> 'd config \<Rightarrow> rt_error option + 'd config" where
  "sched_step E i drawn g =
     (if i < length (cf_stacks g) then
        (case cf_stacks g ! i of
           [] \<Rightarrow> Inl None
         | c # cs \<Rightarrow>
             if may_run (cf_world g) i c then
               (case step E i drawn c (cf_world g) of
                  Inl e \<Rightarrow> Inl (Some e)
                | Inr (cs', w') \<Rightarrow> Inr \<lparr>cf_stacks = (cf_stacks g)[i := cs' @ cs], cf_world = w'\<rparr>)
             else Inl None)
      else Inl None)"

fun run_schedule :: "'d env \<Rightarrow> nat list \<Rightarrow> 'd config \<Rightarrow> rt_error option + 'd config" where
  "run_schedule E [] g = Inr g"
| "run_schedule E (i # is) g = bindE (sched_step E i 0 g) (run_schedule E is)"

lemma sched_step_sched:
  assumes "sched_step E i drawn g = Inr g'" and "0 \<le> drawn" and "drawn < 2 ^ 31"
  shows "sched E g g'"
  using assms
  by (auto simp: sched_step_def split: if_splits list.splits sum.splits prod.splits intro!: sched.sched)

lemma run_schedule_reaches: "run_schedule E is g = Inr g' \<Longrightarrow> (sched E)\<^sup>*\<^sup>* g g'"
proof (induction "is" arbitrary: g)
  case Nil
  then show ?case by simp
next
  case (Cons i "is")
  then obtain g1 where "sched_step E i 0 g = Inr g1" and r: "run_schedule E is g1 = Inr g'"
    by auto
  then have "sched E g g1" by (auto intro: sched_step_sched)
  with Cons.IH [OF r] show ?case by (meson converse_rtranclp_into_rtranclp)
qed

section \<open>The initial configurations\<close>

text \<open>\<open>main\<close>: the first thread starts the others, runs its own loop and joins them.\<close>

definition top_level_config :: "nat \<Rightarrow> use list \<Rightarrow> handle list \<Rightarrow> task \<Rightarrow> rt_error + 'd config" where
  "top_level_config nthreads uses handles top_level_task =
     bindE (top_level_runtime nthreads uses handles top_level_task) (\<lambda>w.
       Inr \<lparr>cf_stacks = (CSpinUp # wait_for_top_level_instance_to_shut_down w)
                         # map (\<lambda>_. [CLoopStart]) [1..<nthreads],
            cf_world = w\<rparr>)"

definition region_config :: "nat \<Rightarrow> use list \<Rightarrow> handle list \<Rightarrow> nat list \<Rightarrow> api list \<Rightarrow> rt_error + 'd config" where
  "region_config nthreads uses handles callbacks body =
     bindE (with_active_runtime_instance body
              (fold register_quiescence_callback callbacks (region_runtime nthreads uses handles)))
       (\<lambda>(cs, w). Inr \<lparr>cf_stacks = cs # map (\<lambda>_. [CLoopStart]) [1..<nthreads], cf_world = w\<rparr>)"

end
