(* ===== verification/Tally.thy ===== *)
theory Tally
  imports Machine
begin

text \<open>
  Sums over everything that waits somewhere: the actions in the queues of the events, the operations
  in the queues of the workers and the commands on the stacks of the threads. A weight of these is
  conserved by queueing an action, by triggering an event and by taking an operation; the locale
  says so once, for the credits, the claims and the measures of the other theories.
\<close>

definition waiting :: "(ready_op \<Rightarrow> 'm) \<Rightarrow> (action \<Rightarrow> 'm) \<Rightarrow> 'd world \<Rightarrow> 'm :: comm_monoid_add" where
  "waiting fop fac w =
     sum_list (map (\<lambda>ev. sum_list (map fac (ev_actions ev))) (w_events w))
     + sum_list (map (\<lambda>wk. sum_list (map fop (wk_ready wk))) (w_workers w))"

abbreviation todo :: "(cmd \<Rightarrow> 'm) \<Rightarrow> cmd list \<Rightarrow> 'm :: comm_monoid_add" where
  "todo fcmd cs \<equiv> sum_list (map fcmd cs)"

abbreviation all_todo :: "(cmd \<Rightarrow> 'm) \<Rightarrow> cmd list list \<Rightarrow> 'm :: comm_monoid_add" where
  "all_todo fcmd css \<equiv> sum_list (map (todo fcmd) css)"

section \<open>What the primitives change\<close>

named_theorems frame \<comment> \<open>the shape of the state after a primitive\<close>

lemma new_event_frame [frame]:
  "new_event n w = (e, w') \<Longrightarrow>
     e = length (w_events w) \<and>
     w' = w\<lparr>w_events := w_events w @ [\<lparr>ev_count = n, ev_triggered = False, ev_actions = []\<rparr>]\<rparr>"
  by (auto simp: new_event_def)

lemma advance_count_frame [frame]:
  "advance_count e n w = Inr w' \<Longrightarrow>
     e < length (w_events w) \<and> \<not> ev_triggered (w_events w ! e) \<and>
     w' = w\<lparr>w_events := (w_events w)[e := (w_events w ! e)\<lparr>ev_count := ev_count (w_events w ! e) + n\<rparr>]\<rparr>"
  by (auto simp: advance_count_def)

lemma increment_count_frame [frame]:
  "increment_count e w = Inr w' \<Longrightarrow>
     e < length (w_events w) \<and> \<not> ev_triggered (w_events w ! e) \<and>
     w' = w\<lparr>w_events := (w_events w)[e := (w_events w ! e)\<lparr>ev_count := ev_count (w_events w ! e) + 1\<rparr>]\<rparr>"
  unfolding increment_count_def by (rule advance_count_frame)

lemma decrement_count_frame [frame]:
  "decrement_count e w = Inr (cs, w') \<Longrightarrow>
     e < length (w_events w) \<and> \<not> ev_triggered (w_events w ! e) \<and>
     (if ev_count (w_events w ! e) = 1
      then cs = map CAction (ev_actions (w_events w ! e)) \<and>
        w' = w\<lparr>w_events := (w_events w)[e := (w_events w ! e)\<lparr>ev_count := 0, ev_triggered := True, ev_actions := []\<rparr>]\<rparr>
      else cs = [] \<and>
        w' = w\<lparr>w_events := (w_events w)
               [e := (w_events w ! e)\<lparr>ev_count := ev_count (w_events w ! e) - 1\<rparr>]\<rparr>)"
  by (auto simp: decrement_count_def make_ready_def Let_def split: if_splits)

lemma attach_or_do_frame [frame]:
  "attach_or_do_action e a cs0 w = Inr (cs, w') \<Longrightarrow>
     e < length (w_events w) \<and>
     (if ev_triggered (w_events w ! e) then cs = cs0 \<and> w' = w
      else cs = [] \<and>
        w' = w\<lparr>w_events := (w_events w)
               [e := (w_events w ! e)\<lparr>ev_actions := ev_actions (w_events w ! e) @ [a]\<rparr>]\<rparr>)"
  by (auto simp: attach_or_do_action_def split: if_splits)

lemma attach_action_frame [frame]:
  "attach_action e a w = Inr (cs, w') \<Longrightarrow>
     e < length (w_events w) \<and>
     (if ev_triggered (w_events w ! e) then cs = [CAction a] \<and> w' = w
      else cs = [] \<and>
        w' = w\<lparr>w_events := (w_events w)
               [e := (w_events w ! e)\<lparr>ev_actions := ev_actions (w_events w ! e) @ [a]\<rparr>]\<rparr>)"
  unfolding attach_action_def by (rule attach_or_do_frame)

lemma emplace_ready_frame [frame]:
  "emplace_ready i op w = Inr w' \<Longrightarrow>
     i < length (w_workers w) \<and>
     w' = w\<lparr>w_workers := (w_workers w)
            [i := (w_workers w ! i)\<lparr>wk_ready := wk_ready (w_workers w ! i) @ [op]\<rparr>]\<rparr>"
  by (auto simp: emplace_ready_def worker_at_def update_worker_def)

text \<open>Each changes the events only, or the workers only.\<close>

lemma events_only:
  "new_event n w = (e, w') \<Longrightarrow> w' = w\<lparr>w_events := w_events w'\<rparr>"
  "advance_count e n w = Inr w' \<Longrightarrow> w' = w\<lparr>w_events := w_events w'\<rparr>"
  "increment_count e w = Inr w' \<Longrightarrow> w' = w\<lparr>w_events := w_events w'\<rparr>"
  "decrement_count e w = Inr (cs, w') \<Longrightarrow> w' = w\<lparr>w_events := w_events w'\<rparr>"
  "attach_or_do_action e a cs0 w = Inr (cs, w') \<Longrightarrow> w' = w\<lparr>w_events := w_events w'\<rparr>"
  "attach_action e a w = Inr (cs, w') \<Longrightarrow> w' = w\<lparr>w_events := w_events w'\<rparr>"
  "attach_decrement_of e e' w = Inr (cs, w') \<Longrightarrow> w' = w\<lparr>w_events := w_events w'\<rparr>"
  by (drule frame, auto split: if_splits)+ (auto simp: attach_decrement_of_def dest!: attach_action_frame split: if_splits)

lemma workers_only:
  "emplace_ready i op w = Inr w' \<Longrightarrow> w' = w\<lparr>w_workers := w_workers w'\<rparr>"
  by (drule frame) auto

section \<open>Weights\<close>

locale tally =
  fixes of_op :: "ready_op \<Rightarrow> 'm :: cancel_comm_monoid_add"
    and of_action :: "action \<Rightarrow> 'm"
    and of_cmd :: "cmd \<Rightarrow> 'm"
  assumes of_cmd_action: "of_cmd (CAction a) = of_action a"
begin

lemma todo_actions: "todo of_cmd (map CAction as) = sum_list (map of_action as)"
  by (induction as) (simp_all add: of_cmd_action)

lemma waiting_cong:
  "w_events w' = w_events w \<Longrightarrow> map wk_ready (w_workers w') = map wk_ready (w_workers w)
    \<Longrightarrow> waiting of_op of_action w' = waiting of_op of_action w"
proof -
  assume *: "w_events w' = w_events w" "map wk_ready (w_workers w') = map wk_ready (w_workers w)"
  have "sum_list (map (\<lambda>wk. sum_list (map of_op (wk_ready wk))) ws)
      = sum_list (map (\<lambda>ops. sum_list (map of_op ops)) (map wk_ready ws))" for ws
    by (induction ws) simp_all
  with * show ?thesis unfolding waiting_def by metis
qed

lemma waiting_event:
  assumes "e < length (w_events w)"
  shows "waiting of_op of_action (w\<lparr>w_events := (w_events w)[e := ev]\<rparr>)
      + sum_list (map of_action (ev_actions (w_events w ! e)))
    = waiting of_op of_action w + sum_list (map of_action (ev_actions ev))"
  using add_frame(1) [OF sum_list_update [OF assms, of "\<lambda>ev. sum_list (map of_action (ev_actions ev))" ev]]
  by (simp add: waiting_def)

lemma waiting_same_actions:
  assumes "e < length (w_events w)" and "ev_actions ev = ev_actions (w_events w ! e)"
  shows "waiting of_op of_action (w\<lparr>w_events := (w_events w)[e := ev]\<rparr>) = waiting of_op of_action w"
  using waiting_event [OF assms(1), of ev] assms(2) by simp

lemma waiting_worker:
  assumes "i < length (w_workers w)"
  shows "waiting of_op of_action (w\<lparr>w_workers := (w_workers w)[i := wk]\<rparr>)
      + sum_list (map of_op (wk_ready (w_workers w ! i)))
    = waiting of_op of_action w + sum_list (map of_op (wk_ready wk))"
  using add_frame(2) [OF sum_list_update [OF assms, of "\<lambda>wk. sum_list (map of_op (wk_ready wk))" wk]]
  by (simp add: waiting_def)

lemma new_event_waiting:
  "new_event n w = (e, w') \<Longrightarrow> waiting of_op of_action w' = waiting of_op of_action w"
  by (drule frame) (simp add: waiting_def)

lemma advance_waiting:
  "advance_count e n w = Inr w' \<Longrightarrow> waiting of_op of_action w' = waiting of_op of_action w"
  by (drule frame) (simp add: waiting_same_actions)

lemma increment_waiting:
  "increment_count e w = Inr w' \<Longrightarrow> waiting of_op of_action w' = waiting of_op of_action w"
  by (drule frame) (simp add: waiting_same_actions)

lemma decrement_waiting:
  assumes "decrement_count e w = Inr (cs, w')"
  shows "waiting of_op of_action w' + todo of_cmd cs = waiting of_op of_action w"
proof (cases "ev_count (w_events w ! e) = 1")
  case True
  with decrement_count_frame [OF assms] show ?thesis
    using waiting_event [of e w "(w_events w ! e)\<lparr>ev_count := 0, ev_triggered := True, ev_actions := []\<rparr>"]
    by (simp add: todo_actions del: map_map)
next
  case False
  with decrement_count_frame [OF assms] show ?thesis by (simp add: waiting_same_actions)
qed

lemma attach_or_do_waiting:
  assumes "attach_or_do_action e a cs0 w = Inr (cs, w')" and "todo of_cmd cs0 = of_action a"
  shows "waiting of_op of_action w' + todo of_cmd cs = waiting of_op of_action w + of_action a"
proof (cases "ev_triggered (w_events w ! e)")
  case True
  with attach_or_do_frame [OF assms(1)] assms(2) show ?thesis by simp
next
  case False
  let ?ev = "(w_events w ! e)\<lparr>ev_actions := ev_actions (w_events w ! e) @ [a]\<rparr>"
  from attach_or_do_frame [OF assms(1)] False
  have e: "e < length (w_events w)" and "cs = []" and w': "w' = w\<lparr>w_events := (w_events w)[e := ?ev]\<rparr>"
    by simp_all
  then show ?thesis
    using cancel_frame(1) [of _ _ _ "of_action a"] waiting_event [OF e, of ?ev] by simp
qed

lemma attach_waiting:
  "attach_action e a w = Inr (cs, w') \<Longrightarrow>
     waiting of_op of_action w' + todo of_cmd cs = waiting of_op of_action w + of_action a"
  unfolding attach_action_def by (erule attach_or_do_waiting) (simp add: of_cmd_action)

lemma emplace_waiting:
  assumes "emplace_ready i op w = Inr w'"
  shows "waiting of_op of_action w' = waiting of_op of_action w + of_op op"
proof -
  let ?wk = "(w_workers w ! i)\<lparr>wk_ready := wk_ready (w_workers w ! i) @ [op]\<rparr>"
  from emplace_ready_frame [OF assms]
  have i: "i < length (w_workers w)" and w': "w' = w\<lparr>w_workers := (w_workers w)[i := ?wk]\<rparr>"
    by simp_all
  then show ?thesis
    using cancel_frame(1) [of _ _ _ "of_op op"] waiting_worker [OF i, of ?wk] by simp
qed

lemma set_ready_waiting:
  assumes "i < length (w_workers w)" and "wk_ready (w_workers w ! i) = op # ops"
  shows "waiting of_op of_action (set_ready i ops w) + of_op op = waiting of_op of_action w"
proof -
  let ?wk = "(w_workers w ! i)\<lparr>wk_ready := ops\<rparr>"
  have "set_ready i ops w = w\<lparr>w_workers := (w_workers w)[i := ?wk]\<rparr>"
    by (simp add: set_ready_def update_worker_def)
  then show ?thesis
    using cancel_frame(2) [of _ "of_op op"] waiting_worker [OF assms(1), of ?wk] assms(2) by simp
qed

end

end
