(* ===== verification/Accounting.thy ===== *)
theory Accounting
  imports Tally
begin

text \<open>
  The accounting of the counters. An event's count is meant to be the number of decrements that are
  still to come; a decrement to come is a credit, and this theory says who holds the credits: the
  commands on the stacks, the actions and operations that wait in queues, the registered uses, the
  publication entries that have no source yet and the collective invocations that wait for more
  contributions.
\<close>

section \<open>Credits\<close>

fun credit_op :: "ready_op \<Rightarrow> nat multiset" where
  "credit_op (ReadyTaskOperation t) = {#shutdown_counter#}"
| "credit_op (CallableOperation (DecrementOf e) s) = {#e#}"
| "credit_op (CallableOperation JoinWorkers s) = {#}"
| "credit_op (SpecialMessage k) = {#}"

fun credit_action :: "action \<Rightarrow> nat multiset" where
  "credit_action (DecrementAction e) = {#e#}"
| "credit_action (EnqueueAction op) = credit_op op"
| "credit_action (FetchedAction en f) = {#flow_trigger f#}"
| "credit_action (PublishCopyAction en source c u) = {#flow_trigger source, fetching_join_counter en#}"
| "credit_action (CollectiveDecrementAction ip) = {#invocation_ready_event ip#}"
| "credit_action (ContributeAction ip h c op) = {#invocation_ready_event ip#}"
| "credit_action (ContributeAfterAntiAction ip h c op) = {#invocation_ready_event ip#}"
| "credit_action (ContributeReduceAction ip h c op) = {#invocation_ready_event ip#}"
| "credit_action (AllreduceDoneAction ip t tag) = {#}"
| "credit_action (ReduceInReadyAction ui uo op n c) = {#}"
| "credit_action (ReduceAntiReadyAction ui uo op n c) = {#}"
| "credit_action ShutdownAction = {#}"
| "credit_action RegionShutdownAction = {#}"

fun credit_cmd :: "cmd \<Rightarrow> nat multiset" where
  "credit_cmd (CDecrement e) = {#e#}"
| "credit_cmd (CAction a) = credit_action a"
| "credit_cmd (CAttach e a) = credit_action a"
| "credit_cmd (CEnqueueOrRun p op i allow) = credit_op op"
| "credit_cmd (CStackRun op) = credit_op op"
| "credit_cmd (CRun op) = credit_op op"
| "credit_cmd (CTaskFinished old) = {#shutdown_counter#}"
| "credit_cmd (CCreateTasks name ts i) = {#shutdown_counter#}"
| "credit_cmd _ = {#}"

interpretation credit: tally credit_op credit_action credit_cmd
  by unfold_locales simp

section \<open>What uses, entries and invocations hold\<close>

text \<open>A registered use holds one count of each event that \<open>release_use\<close> will decrement.\<close>

definition held :: "'d world \<Rightarrow> nat multiset" where
  "held w = (\<Sum>u<length (w_uses w). if u \<in> w_registered w then mset (released_triggers (w_uses w ! u)) else {#})"

text \<open>An entry without a source holds the count that the publication's copy will give back.\<close>

definition unpublished :: "'d world \<Rightarrow> nat multiset" where
  "unpublished w =
     sum_list (map (\<lambda>(en, source). if source = None then {#fetching_join_counter en#} else {#}) (w_entries w))"

text \<open>An invocation holds two counts for each contribution that is still missing.\<close>

definition reserved_counts :: "'d world \<Rightarrow> nat multiset" where
  "reserved_counts w =
     sum_list (map (\<lambda>(ip, iv). replicate_mset (2 * iv_size iv - 2 * length (iv_input_uses iv))
                                (invocation_ready_event ip)) (w_invocations w))"

definition committed :: "'d world \<Rightarrow> nat multiset" where
  "committed w = held w + unpublished w + reserved_counts w"

definition release_events :: "'d world \<Rightarrow> nat set" where
  "release_events w = (\<lambda>(en, source). release_event en) ` set (w_entries w)"

section \<open>Balance\<close>

text \<open>
  A triggered event has no credit and no action left; one that is not triggered counts its credits,
  of which there is at least one. The events in \<open>R\<close> are left out.
\<close>

definition balanced_event :: "event list \<Rightarrow> nat multiset \<Rightarrow> nat \<Rightarrow> bool" where
  "balanced_event evs m e \<longleftrightarrow>
     (if e < length evs then
        (if ev_triggered (evs ! e) then e \<notin># m \<and> ev_actions (evs ! e) = []
         else e \<in># m \<and> ev_count (evs ! e) = of_nat (count m e))
      else e \<notin># m)"

definition owed :: "'d world \<Rightarrow> nat multiset \<Rightarrow> nat multiset" where
  "owed w k = waiting credit_op credit_action w + k"

definition accounted :: "nat set \<Rightarrow> 'd world \<Rightarrow> nat multiset \<Rightarrow> bool" where
  "accounted R w k \<longleftrightarrow> (\<forall>e. e \<notin> R \<longrightarrow> balanced_event (w_events w) (owed w k) e)"

lemma balanced_event_cong: "count m x = count m' x \<Longrightarrow> balanced_event evs m x = balanced_event evs m' x"
  by (simp add: balanced_event_def flip: count_greater_zero_iff)

lemma accounted_free:
  assumes "e \<in> R"
  shows "accounted R w (k + {#e#}) \<longleftrightarrow> accounted R w k"
proof -
  have "count (owed w k) x = count (owed w (k + {#e#})) x" if "x \<notin> R" for x
    using that assms by (auto simp: owed_def)
  then show ?thesis unfolding accounted_def by (metis balanced_event_cong)
qed

lemma accounted_weaken: "accounted R w k \<Longrightarrow> R \<subseteq> R' \<Longrightarrow> accounted R' w k"
  by (auto simp: accounted_def)

lemma accounted_cong:
  assumes "accounted R w k" and "w_events w' = w_events w"
    and "map wk_ready (w_workers w') = map wk_ready (w_workers w)"
  shows "accounted R w' k"
  using assms credit.waiting_cong [OF assms(2,3)] by (simp add: accounted_def owed_def)

lemma owed_eq:
  assumes "waiting credit_op credit_action w' + x = waiting credit_op credit_action w + y"
  shows "owed w' (k + x) = owed w (k + y)"
  using add_frame(2) [OF assms, of k] by (simp add: owed_def ac_simps)

lemma accounted_new_event:
  assumes "accounted R w k" and "new_event n w = (e, w')" and "n \<noteq> 0"
  shows "accounted R w' (k + replicate_mset (unat n) e)"
proof -
  from new_event_frame [OF assms(2)]
  have e: "e = length (w_events w)"
    and ev: "w_events w' = w_events w @ [\<lparr>ev_count = n, ev_triggered = False, ev_actions = []\<rparr>]"
    by auto
  have o: "owed w' (k + replicate_mset (unat n) e) = owed w k + replicate_mset (unat n) e"
    using credit.new_event_waiting [OF assms(2)] by (simp add: owed_def ac_simps)
  have n: "0 < unat n" using assms(3) by (simp add: unat_gt_0)
  have "balanced_event (w_events w') (m + replicate_mset (unat n) e) x"
    if x: "balanced_event (w_events w) m x" for m x
  proof (cases "x = e")
    case True
    with x e have "count m x = 0" by (simp add: balanced_event_def count_eq_zero_iff)
    with True e n show ?thesis by (simp add: balanced_event_def ev)
  next
    case False
    then have "count (m + replicate_mset (unat n) e) x = count m x" by simp
    then have "x \<in># m + replicate_mset (unat n) e \<longleftrightarrow> x \<in># m" by (simp only: count_greater_zero_iff [symmetric])
    with x False e show ?thesis by (auto simp: balanced_event_def ev nth_append)
  qed
  with assms(1) show ?thesis unfolding accounted_def o by simp
qed

lemma accounted_new_free:
  assumes "accounted R w k" and "new_event n w = (e, w')" and "e \<in> R'" and "R \<subseteq> R'"
  shows "accounted R' w' k"
proof -
  from new_event_frame [OF assms(2)]
  have e: "e = length (w_events w)"
    and ev: "w_events w' = w_events w @ [\<lparr>ev_count = n, ev_triggered = False, ev_actions = []\<rparr>]"
    by auto
  have o: "owed w' k = owed w k"
    using credit.new_event_waiting [OF assms(2)] by (simp add: owed_def)
  have "balanced_event (w_events w') m x" if "balanced_event (w_events w) m x" "x \<noteq> e" for m x
    using that by (auto simp: balanced_event_def ev e nth_append)
  with assms(1,3,4) show ?thesis unfolding accounted_def o by (metis subsetD)
qed

lemma accounted_increment:
  assumes "accounted R w k" and "increment_count e w = Inr w'"
  shows "accounted R w' (k + {#e#})"
proof -
  from increment_count_frame [OF assms(2)]
  have e: "e < length (w_events w)" "\<not> ev_triggered (w_events w ! e)"
    and ev: "w_events w' = (w_events w)
      [e := (w_events w ! e)\<lparr>ev_count := ev_count (w_events w ! e) + 1\<rparr>]"
    by auto
  have o: "owed w' (k + {#e#}) = add_mset e (owed w k)"
    using credit.increment_waiting [OF assms(2)] by (simp add: owed_def)
  have "balanced_event (w_events w') (add_mset e (owed w k)) x"
    if "balanced_event (w_events w) (owed w k) x" for x
    using that e by (cases "x = e") (auto simp: balanced_event_def ev)
  with assms(1) show ?thesis unfolding accounted_def o by simp
qed

lemma accounted_advance_free:
  assumes "accounted R w k" and "advance_count e n w = Inr w'" and "e \<in> R"
  shows "accounted R w' k"
proof -
  from advance_count_frame [OF assms(2)]
  have ev: "w_events w' = (w_events w)[e := (w_events w ! e)\<lparr>ev_count := ev_count (w_events w ! e) + n\<rparr>]"
    by auto
  have o: "owed w' k = owed w k"
    using credit.advance_waiting [OF assms(2)] by (simp add: owed_def)
  have "balanced_event (w_events w') m x" if "balanced_event (w_events w) m x" "x \<noteq> e" for m x
    using that by (simp add: balanced_event_def ev)
  with assms(1,3) show ?thesis unfolding accounted_def o by metis
qed

text \<open>A decrement uses up one credit; the credits of the actions it sets free go to the stack.\<close>

lemma accounted_decrement:
  assumes "accounted R w (k + {#e#})" and "decrement_count e w = Inr (cs, w')"
    and "count (owed w (k + {#e#})) e < 2 ^ 64"
  shows "accounted R w' (k + todo credit_cmd cs)"
proof -
  let ?m = "owed w k"
  from decrement_count_frame [OF assms(2)]
  have e: "e < length (w_events w)" "\<not> ev_triggered (w_events w ! e)" by auto
  have o: "owed w' (k + todo credit_cmd cs) = ?m"
    using owed_eq [of w' "todo credit_cmd cs" w "{#}" k] credit.decrement_waiting [OF assms(2)] by simp
  have s: "owed w (k + {#e#}) = add_mset e ?m" by (simp add: owed_def)
  have "balanced_event (w_events w') ?m x" if x: "balanced_event (w_events w) (add_mset e ?m) x" for x
  proof (cases "x = e")
    case True
    from x True e have c: "ev_count (w_events w ! e) = of_nat (Suc (count ?m e))"
      by (simp add: balanced_event_def)
    have n: "Suc (count ?m e) < 2 ^ 64" using assms(3) s by simp
    then have u: "unat (ev_count (w_events w ! e)) = Suc (count ?m e)"
      unfolding c by (rule unat_u64_of_nat)
    show ?thesis
    proof (cases "ev_count (w_events w ! e) = 1")
      case ct: True
      with u have "count ?m e = 0" by simp
      with ct decrement_count_frame [OF assms(2)] True e show ?thesis
        by (auto simp: balanced_event_def count_eq_zero_iff)
    next
      case ct: False
      with c have "count ?m e \<noteq> 0" by (cases "count ?m e") auto
      then have "e \<in># ?m" by (simp only: count_greater_zero_iff [symmetric])
      moreover have "ev_count (w_events w ! e) - 1 = of_nat (count ?m e)" unfolding c by simp
      ultimately show ?thesis
        using ct decrement_count_frame [OF assms(2)] True e
        by (auto simp: balanced_event_def)
    qed
  next
    case False
    with x decrement_count_frame [OF assms(2)] show ?thesis
      by (auto simp: balanced_event_def split: if_splits)
  qed
  with assms(1) show ?thesis unfolding accounted_def o s by simp
qed

lemma accounted_decrement_free:
  assumes "accounted R w k" and "decrement_count e w = Inr (cs, w')" and "e \<in> R"
  shows "accounted R w' (k + todo credit_cmd cs)"
proof -
  have o: "owed w' (k + todo credit_cmd cs) = owed w k"
    using owed_eq [of w' "todo credit_cmd cs" w "{#}" k] credit.decrement_waiting [OF assms(2)] by simp
  have "balanced_event (w_events w') m x" if "balanced_event (w_events w) m x" "x \<noteq> e" for m x
    using that decrement_count_frame [OF assms(2)]
    by (auto simp: balanced_event_def split: if_splits)
  with assms(1,3) show ?thesis unfolding accounted_def o by metis
qed

lemma accounted_attach_or_do:
  assumes "accounted R w (k + credit_action a)" and "attach_or_do_action e a cs0 w = Inr (cs, w')"
    and "todo credit_cmd cs0 = credit_action a"
  shows "accounted R w' (k + todo credit_cmd cs)"
proof -
  have o: "owed w' (k + todo credit_cmd cs) = owed w (k + credit_action a)"
    by (rule owed_eq) (rule credit.attach_or_do_waiting [OF assms(2,3)])
  have "balanced_event (w_events w') m x" if "balanced_event (w_events w) m x" for m x
    using that attach_or_do_frame [OF assms(2)]
    by (cases "x = e") (auto simp: balanced_event_def split: if_splits)
  with assms(1) show ?thesis unfolding accounted_def o by simp
qed

lemma accounted_attach:
  "accounted R w (k + credit_action a) \<Longrightarrow> attach_action e a w = Inr (cs, w')
    \<Longrightarrow> accounted R w' (k + todo credit_cmd cs)"
  unfolding attach_action_def by (erule accounted_attach_or_do) (assumption, simp)

lemma accounted_attach_decrement:
  "accounted R w (k + {#e'#}) \<Longrightarrow> attach_decrement_of e e' w = Inr (cs, w')
    \<Longrightarrow> accounted R w' (k + todo credit_cmd cs)"
  unfolding attach_decrement_of_def by (rule accounted_attach [where a = "DecrementAction e'"]) simp_all

lemma accounted_emplace:
  assumes "accounted R w (k + credit_op op)" and "emplace_ready i op w = Inr w'"
  shows "accounted R w' k"
proof -
  have o: "owed w' k = owed w (k + credit_op op)"
    using credit.emplace_waiting [OF assms(2)] by (simp add: owed_def ac_simps)
  have "w_events w' = w_events w" using emplace_ready_frame [OF assms(2)] by simp
  with assms(1) show ?thesis unfolding accounted_def o by simp
qed

end
