(* ===== verification/StepAccounting.thy ===== *)
theory StepAccounting
  imports Accounting
begin

text \<open>
  Every operation of the machine keeps the accounts: what a command may decrement it has been
  credited with, and what it leaves behind is credited to its followers.
\<close>

section \<open>Frames\<close>

text \<open>The parts of the state that hold counts, apart from the queues.\<close>

definition same_books :: "'d world \<Rightarrow> 'd world \<Rightarrow> bool" where
  "same_books w w' \<longleftrightarrow> w_uses w' = w_uses w \<and> w_registered w' = w_registered w
     \<and> w_entries w' = w_entries w \<and> w_invocations w' = w_invocations w"

lemma same_books_refl [simp]: "same_books w w"
  by (simp add: same_books_def)

lemma same_books_trans [trans]: "same_books w w1 \<Longrightarrow> same_books w1 w2 \<Longrightarrow> same_books w w2"
  by (simp add: same_books_def)

lemma same_books_events: "w' = w\<lparr>w_events := x\<rparr> \<Longrightarrow> same_books w w'"
  by (simp add: same_books_def)

lemma same_books_committed:
  "same_books w w' \<Longrightarrow> committed w' = committed w"
  "same_books w w' \<Longrightarrow> release_events w' = release_events w"
  by (simp_all add: same_books_def committed_def held_def unpublished_def reserved_counts_def
      release_events_def cong: if_cong)

lemma primitive_books:
  "new_event n w = (e, w') \<Longrightarrow> same_books w w'"
  "advance_count e n w = Inr w' \<Longrightarrow> same_books w w'"
  "increment_count e w = Inr w' \<Longrightarrow> same_books w w'"
  "decrement_count e w = Inr (cs, w') \<Longrightarrow> same_books w w'"
  "attach_or_do_action e a cs0 w = Inr (cs, w') \<Longrightarrow> same_books w w'"
  "attach_action e a w = Inr (cs, w') \<Longrightarrow> same_books w w'"
  "attach_decrement_of e e' w = Inr (cs, w') \<Longrightarrow> same_books w w'"
  by (rule same_books_events, erule events_only)+

lemma make_cblk_books:
  assumes "make_cblk cb w = (c, w')"
  shows "same_books w w'" and "w_events w' = w_events w" and "w_workers w' = w_workers w"
  using assms by (auto simp: make_cblk_def same_books_def)

lemma emplace_books: "emplace_ready i op w = Inr w' \<Longrightarrow> same_books w w'"
  by (auto dest!: emplace_ready_frame simp: same_books_def)

section \<open>Flows\<close>

lemma make_flow_accounted:
  assumes "make_flow c 1 w = Inr (f, w')" and "accounted R w k"
  shows "accounted R w' (k + {#flow_trigger f#})" and "same_books w w'"
proof -
  obtain e w1 where n: "new_event 1 w = (e, w1)" by (cases "new_event 1 w :: nat \<times> 'a world")
  with assms(1) have f: "flow_trigger f = e" "w_events w' = w_events w1" "w_workers w' = w_workers w1"
    "same_books w1 w'"
    by (auto simp: make_flow_def same_books_def)
  have "accounted R w1 (k + {#e#})" using accounted_new_event [OF assms(2) n] by simp
  with f show "accounted R w' (k + {#flow_trigger f#})" by (simp add: accounted_cong)
  show "same_books w w'" using primitive_books(1) [OF n] f(4) by (rule same_books_trans)
qed

lemma make_anti_flow_accounted:
  assumes "make_anti_flow 1 w = Inr (f, w')" and "accounted R w k"
  shows "accounted R w' (k + {#anti_flow_trigger f#})" and "same_books w w'"
proof -
  obtain e w1 where n: "new_event 1 w = (e, w1)" by (cases "new_event 1 w :: nat \<times> 'a world")
  with assms(1) have f: "anti_flow_trigger f = e" "w_events w' = w_events w1" "w_workers w' = w_workers w1"
    "same_books w1 w'"
    by (auto simp: make_anti_flow_def same_books_def)
  have "accounted R w1 (k + {#e#})" using accounted_new_event [OF assms(2) n] by simp
  with f show "accounted R w' (k + {#anti_flow_trigger f#})" by (simp add: accounted_cong)
  show "same_books w w'" using primitive_books(1) [OF n] f(4) by (rule same_books_trans)
qed

text \<open>A new event that is made ready at once: it has the one credit that it started with.\<close>

lemma fresh_ready:
  assumes "accounted R w k" and "length (w_events w) = e" and "accounted R w1 (k + {#e#})"
    and "waiting credit_op credit_action w1 = waiting credit_op credit_action w"
    and "decrement_count e w1 = Inr (cs, w2)"
  shows "accounted R w2 (k + todo credit_cmd cs)"
proof (cases "e \<in> R")
  case True
  have "accounted R w1 k"
    using assms(3) by (rule iffD1 [OF accounted_free [OF True]])
  from accounted_decrement_free [OF this assms(5) True] show ?thesis .
next
  case False
  with assms(1,2) have "e \<notin># owed w k" by (auto simp: accounted_def balanced_event_def)
  moreover have "owed w1 (k + {#e#}) = add_mset e (owed w k)" using assms(4) by (simp add: owed_def)
  ultimately have "count (owed w1 (k + {#e#})) e < 2 ^ 64" by (simp add: not_in_iff)
  with accounted_decrement [OF assms(3,5)] show ?thesis by simp
qed

lemma make_flow_waiting:
  assumes "make_flow c n w = Inr (f, w')"
  shows "waiting credit_op credit_action w' = waiting credit_op credit_action w"
    and "flow_trigger f = length (w_events w)"
proof -
  obtain e w1 where n: "new_event n w = (e, w1)" by (cases "new_event n w :: nat \<times> 'a world")
  with assms have *: "flow_trigger f = e" "w_events w' = w_events w1" "w_workers w' = w_workers w1"
    by (auto simp: make_flow_def)
  from credit.new_event_waiting [OF n] * credit.waiting_cong [of w' w1]
  show "waiting credit_op credit_action w' = waiting credit_op credit_action w" by simp
  from new_event_frame [OF n] * show "flow_trigger f = length (w_events w)" by simp
qed

lemma make_anti_flow_waiting:
  assumes "make_anti_flow n w = Inr (f, w')"
  shows "waiting credit_op credit_action w' = waiting credit_op credit_action w"
    and "anti_flow_trigger f = length (w_events w)"
proof -
  obtain e w1 where n: "new_event n w = (e, w1)" by (cases "new_event n w :: nat \<times> 'a world")
  with assms have *: "anti_flow_trigger f = e" "w_events w' = w_events w1" "w_workers w' = w_workers w1"
    by (auto simp: make_anti_flow_def)
  from credit.new_event_waiting [OF n] * credit.waiting_cong [of w' w1]
  show "waiting credit_op credit_action w' = waiting credit_op credit_action w" by simp
  from new_event_frame [OF n] * show "anti_flow_trigger f = length (w_events w)" by simp
qed

section \<open>Registration: the in flow\<close>

lemma in_flow_next_accounted:
  assumes "in_flow_next rel w = Inr (f, cs, w')" and "accounted R w k"
  shows "accounted R w' (k + todo credit_cmd cs)" and "same_books w w'"
proof -
  from assms(1) obtain r c w1
    where m: "make_flow c 1 w = Inr (f, w1)"
      and a: "attach_decrement_of (flow_trigger r) (flow_trigger f) w1 = Inr (cs, w')"
    by (auto simp: in_flow_next_def)
  from accounted_attach_decrement [OF make_flow_accounted(1) [OF m assms(2)] a]
  show "accounted R w' (k + todo credit_cmd cs)" .
  from make_flow_accounted(2) [OF m assms(2)] primitive_books(7) [OF a]
  show "same_books w w'" by (rule same_books_trans)
qed

lemma in_flow_of_cblk_accounted:
  assumes "in_flow_of_cblk cm w = Inr (f, cs, w')" and "accounted R w k"
  shows "accounted R w' (k + todo credit_cmd cs)" and "same_books w w'"
proof -
  let ?w0 = "w\<lparr>w_mem := snd cm\<rparr>"
  from assms(1) obtain c w1 w2
    where c: "make_cblk (fst cm) ?w0 = (c, w1)"
      and m: "make_flow (Some c) 1 w1 = Inr (f, w2)"
      and d: "decrement_count (flow_trigger f) w2 = Inr (cs, w')"
    by (auto simp: in_flow_of_cblk_def split: prod.splits)
  have a1: "accounted R w1 k"
    using assms(2) make_cblk_books [OF c] by (simp add: accounted_cong)
  from fresh_ready [OF a1 make_flow_waiting(2) [OF m, symmetric] make_flow_accounted(1) [OF m a1]
      make_flow_waiting(1) [OF m] d]
  show "accounted R w' (k + todo credit_cmd cs)" .
  have "same_books w ?w0" by (simp add: same_books_def)
  also note make_cblk_books(1) [OF c]
  also note make_flow_accounted(2) [OF m a1]
  also note primitive_books(4) [OF d]
  finally show "same_books w w'" .
qed

lemma in_flow_initial_accounted:
  assumes "in_flow_initial E us w = Inr (f, cs, w')" and "accounted R w k"
  shows "accounted R w' (k + todo credit_cmd cs)" and "same_books w w'"
  using assms by (auto simp: in_flow_initial_def intro: in_flow_of_cblk_accounted)

lemma in_flow_initial_collection_accounted:
  assumes "in_flow_initial_collection E us w = Inr (f, cs, w')" and "accounted R w k"
  shows "accounted R w' (k + todo credit_cmd cs)" and "same_books w w'"
  using assms by (auto simp: in_flow_initial_collection_def intro: in_flow_of_cblk_accounted)

lemma in_flow_indexed_local_accounted:
  assumes "in_flow_indexed_local E rel w = Inr (f, cs, w')" and "accounted R w k"
  shows "accounted R w' (k + todo credit_cmd cs)" and "same_books w w'"
proof -
  from assms(1) obtain r coll cb p c w1 w2
    where c: "make_cblk (cblk_for_index (Some p) coll (rel_index rel)) w = (c, w1)"
      and m: "make_flow (Some c) 1 w1 = Inr (f, w2)"
      and a: "attach_decrement_of (flow_trigger r) (flow_trigger f) w2 = Inr (cs, w')"
    by (auto simp: in_flow_indexed_local_def split: prod.splits)
  have a1: "accounted R w1 k"
    using assms(2) make_cblk_books [OF c] by (simp add: accounted_cong)
  from accounted_attach_decrement [OF make_flow_accounted(1) [OF m a1] a]
  show "accounted R w' (k + todo credit_cmd cs)" .
  note make_cblk_books(1) [OF c]
  also note make_flow_accounted(2) [OF m a1]
  also note primitive_books(7) [OF a]
  finally show "same_books w w'" .
qed

text \<open>A new publication entry brings its own unpublished count.\<close>

lemma make_entry_accounted:
  assumes "make_entry w = (en, w')" and "accounted (release_events w) w k"
  shows "accounted (release_events w') w' (k + {#fetching_join_counter en#})"
    and "w_uses w' = w_uses w" "w_registered w' = w_registered w" "w_invocations w' = w_invocations w"
    and "w_entries w' = w_entries w @ [(en, None)]" and "entry_id en = length (w_entries w)"
proof -
  obtain e1 w1 e2 w2 where n1: "new_event 1 w = (e1, w1)" and n2: "new_event 1 w1 = (e2, w2)"
    by (metis surj_pair)
  with assms(1) have en: "en = EntryPtr (length (w_entries w2)) e1 e2"
    and w': "w' = w2\<lparr>w_entries := w_entries w2 @ [(en, None)]\<rparr>"
    by (auto simp: make_entry_def Let_def)
  have b: "same_books w w2"
    using primitive_books(1) [OF n1] primitive_books(1) [OF n2] by (rule same_books_trans)
  then show "w_uses w' = w_uses w" "w_registered w' = w_registered w" "w_invocations w' = w_invocations w"
    "w_entries w' = w_entries w @ [(en, None)]" "entry_id en = length (w_entries w)"
    by (simp_all add: w' en same_books_def)
  have r: "release_events w' = insert e2 (release_events w)"
    using b by (auto simp: release_events_def w' en same_books_def)
  have "accounted (release_events w) w1 (k + {#e1#})"
    using accounted_new_event [OF assms(2) n1] by simp
  from accounted_new_free [OF this n2, of "release_events w'"] r
  have "accounted (release_events w') w2 (k + {#e1#})" by auto
  moreover have "fetching_join_counter en = e1" by (simp add: en)
  ultimately show "accounted (release_events w') w' (k + {#fetching_join_counter en#})"
    by (simp add: accounted_cong [of _ w2] w')
qed

lemma set_published_entry_frame [simp]:
  "w_events (set_published_entry t k en w) = w_events w"
  "w_workers (set_published_entry t k en w) = w_workers w"
  "same_books w (set_published_entry t k en w)"
  by (simp_all add: set_published_entry_def Let_def same_books_def)

lemma ensure_entry_accounted:
  assumes "ensure_entry t key w = Inr (en, w')" and "accounted (release_events w) w (k + committed w)"
  shows "accounted (release_events w') w' (k + committed w')"
    and "w_uses w' = w_uses w" "w_registered w' = w_registered w" "w_invocations w' = w_invocations w"
proof -
  have *: "accounted (release_events w') w' (k + committed w') \<and> w_uses w' = w_uses w
    \<and> w_registered w' = w_registered w \<and> w_invocations w' = w_invocations w"
  proof (cases "w' = w")
    case True
    with assms(2) show ?thesis by simp
  next
    case False
    with assms(1) obtain w1 where m: "make_entry w = (en, w1)"
      and w': "w' = set_published_entry t key (Some en) w1"
      by (auto simp: ensure_entry_def split: option.splits prod.splits)
    have sb: "same_books w1 w'" unfolding w' by simp
    note e = make_entry_accounted [OF m assms(2)]
    have c: "committed w' = committed w + {#fetching_join_counter en#}"
      using e(2-5) sb
      by (simp add: committed_def held_def unpublished_def reserved_counts_def same_books_def
          cong: if_cong)
    have "release_events w' = release_events w1" using sb by (rule same_books_committed)
    with e(1) have "accounted (release_events w') w' (k + committed w + {#fetching_join_counter en#})"
      by (simp add: w' accounted_cong)
    then show ?thesis using c e(2-4) sb by (simp add: same_books_def ac_simps)
  qed
  then show "accounted (release_events w') w' (k + committed w')"
    and "w_uses w' = w_uses w" "w_registered w' = w_registered w" "w_invocations w' = w_invocations w"
    by simp_all
qed

lemma in_flow_indexed_fetching_accounted:
  assumes "in_flow_indexed_fetching us w = Inr (f, cs, w')"
    and "accounted (release_events w) w (k + committed w)"
  shows "accounted (release_events w') w' (k + committed w' + todo credit_cmd cs)"
    and "w_uses w' = w_uses w" "w_registered w' = w_registered w"
proof -
  from assms(1) obtain c w1 w2 t key en w3
    where c: "make_cblk (cblk_for_fetch (Some (us_handle us)) None) w = (c, w1)"
      and m: "make_flow (Some c) 1 w1 = Inr (f, w2)"
      and e: "ensure_entry t key w2 = Inr (en, w3)"
      and a: "attach_action (fetching_join_counter en) (FetchedAction en f) w3 = Inr (cs, w')"
    by (auto simp: in_flow_indexed_fetching_def Let_def split: prod.splits)
  have a1: "accounted (release_events w) w1 (k + committed w)"
    using assms(2) make_cblk_books [OF c] by (simp add: accounted_cong)
  have b: "same_books w w2"
    using make_cblk_books(1) [OF c] make_flow_accounted(2) [OF m a1] by (rule same_books_trans)
  have "accounted (release_events w2) w2 (k + {#flow_trigger f#} + committed w2)"
    using make_flow_accounted(1) [OF m a1] same_books_committed [OF b] by (simp add: ac_simps)
  note e' = ensure_entry_accounted [OF e this]
  then have "accounted (release_events w3) w3 (k + committed w3 + credit_action (FetchedAction en f))"
    by (simp add: ac_simps)
  from accounted_attach [OF this a] same_books_committed [OF primitive_books(6) [OF a]]
  show "accounted (release_events w') w' (k + committed w' + todo credit_cmd cs)" by simp
  show "w_uses w' = w_uses w" "w_registered w' = w_registered w"
    using e'(2,3) b primitive_books(6) [OF a] by (simp_all add: same_books_def)
qed

end
