(* ===== verification/UseAccounting.thy ===== *)
theory UseAccounting
  imports StepAccounting
begin

text \<open>The accounts under the registration and the release of uses.\<close>

section \<open>What a use holds\<close>

lemma held_update:
  assumes "u < length (w_uses w)"
  shows "held (update_use u f w) + (if u \<in> w_registered w then mset (released_triggers (w_uses w ! u)) else {#})
    = held w + (if u \<in> w_registered w then mset (released_triggers (f (w_uses w ! u))) else {#})"
proof -
  let ?h = "\<lambda>us v. if v \<in> w_registered w then mset (released_triggers (us ! v)) else {#}"
  let ?us' = "(w_uses w)[u := f (w_uses w ! u)]"
  have "(\<Sum>v<length (w_uses w). ?h (w_uses w) v)
      = ?h (w_uses w) u + (\<Sum>v\<in>{..<length (w_uses w)} - {u}. ?h (w_uses w) v)"
    using assms by (intro sum.remove) auto
  moreover have "(\<Sum>v<length (w_uses w). ?h ?us' v)
      = ?h ?us' u + (\<Sum>v\<in>{..<length (w_uses w)} - {u}. ?h ?us' v)"
    using assms by (intro sum.remove) auto
  moreover have "(\<Sum>v\<in>{..<length (w_uses w)} - {u}. ?h ?us' v)
      = (\<Sum>v\<in>{..<length (w_uses w)} - {u}. ?h (w_uses w) v)"
    by (rule sum.cong) auto
  moreover have "held (update_use u f w) = (\<Sum>v<length (w_uses w). ?h ?us' v)"
    by (simp add: held_def update_use_def cong: if_cong)
  moreover have "held w = (\<Sum>v<length (w_uses w). ?h (w_uses w) v)" by (simp add: held_def)
  ultimately show ?thesis using assms by (simp add: ac_simps)
qed

lemma committed_update:
  assumes "u < length (w_uses w)"
  shows "committed (update_use u f w) + (if u \<in> w_registered w then mset (released_triggers (w_uses w ! u)) else {#})
    = committed w + (if u \<in> w_registered w then mset (released_triggers (f (w_uses w ! u))) else {#})"
proof -
  have "unpublished (update_use u f w) = unpublished w" "reserved_counts (update_use u f w) = reserved_counts w"
    by (simp_all add: update_use_def unpublished_def reserved_counts_def)
  with held_update [OF assms, of f] show ?thesis by (simp add: committed_def ac_simps)
qed

lemma committed_update_same:
  assumes "\<And>us. released_triggers (f us) = released_triggers us"
  shows "committed (update_use u f w) = committed w"
proof (cases "u < length (w_uses w)")
  case True
  with committed_update [OF this, of f] assms show ?thesis by (simp split: if_splits)
next
  case False
  then show ?thesis
    by (simp add: update_use_def committed_def held_def unpublished_def reserved_counts_def cong: if_cong)
qed

lemma update_use_frame [simp]:
  "w_events (update_use u f w) = w_events w"
  "w_workers (update_use u f w) = w_workers w"
  "w_registered (update_use u f w) = w_registered w"
  "w_invocations (update_use u f w) = w_invocations w"
  "w_entries (update_use u f w) = w_entries w"
  "length (w_uses (update_use u f w)) = length (w_uses w)"
  "release_events (update_use u f w) = release_events w"
  by (simp_all add: update_use_def release_events_def)

lemma accounted_update_use [simp]: "accounted R (update_use u f w) k = accounted R w k"
  using accounted_cong [of R w k "update_use u f w"] accounted_cong [of R "update_use u f w" k w]
  by auto

section \<open>Registration\<close>

text \<open>
  While a use is being registered, what is still to be set is null; so nothing is forgotten when it
  is set.
\<close>

fun chain_ok :: "use list \<Rightarrow> cmd \<Rightarrow> bool" where
  "chain_ok uses (CRegisterIn u) \<longleftrightarrow>
     us_anti_in (uses ! u) = None \<and> us_out (uses ! u) = None \<and> us_anti_out (uses ! u) = None"
| "chain_ok uses (CRegisterAntiIn u) \<longleftrightarrow>
     us_anti_in (uses ! u) = None \<and> us_out (uses ! u) = None \<and> us_anti_out (uses ! u) = None"
| "chain_ok uses (CRegisterOut u) \<longleftrightarrow> us_out (uses ! u) = None \<and> us_anti_out (uses ! u) = None"
| "chain_ok uses (CRegisterAntiOut u) \<longleftrightarrow> us_anti_out (uses ! u) = None"
| "chain_ok uses _ \<longleftrightarrow> True"

lemma released_us_in [simp]:
  "released_triggers (us\<lparr>us_in := f\<rparr>) = released_triggers us"
  "released_triggers (us\<lparr>us_data := p\<rparr>) = released_triggers us"
  by (simp_all add: released_triggers_def cong: option.case_cong)

lemma set_in_flow_accounted:
  assumes "set_in_flow u r = Inr (cs, w')" and "r = Inr (f, cs1, w1)"
    and "accounted (release_events w1) w1 (k + committed w1 + todo credit_cmd cs1)"
  shows "accounted (release_events w') w' (k + committed w' + todo credit_cmd cs)"
proof -
  have "committed (update_use u (\<lambda>us. us\<lparr>us_in := x\<rparr>) w1) = committed w1" for x
    by (rule committed_update_same) simp
  with assms show ?thesis by (auto simp: set_in_flow_def)
qed

lemma reuse_in_flow_accounted:
  assumes "reuse_in_flow u r w = Inr (cs, w')" and "accounted (release_events w) w (k + committed w)"
  shows "accounted (release_events w') w' (k + committed w' + todo credit_cmd cs)"
proof -
  have "committed (update_use u (\<lambda>us. us\<lparr>us_in := x\<rparr>) w) = committed w" for x
    by (rule committed_update_same) simp
  with assms show ?thesis by (auto simp: reuse_in_flow_def)
qed

lemma set_in_flow_books_accounted:
  assumes "set_in_flow u r = Inr (cs, w')"
    and "\<And>f cs1 w1. r = Inr (f, cs1, w1) \<Longrightarrow>
      accounted (release_events w) w1 (k + committed w + todo credit_cmd cs1) \<and> same_books w w1"
  shows "accounted (release_events w') w' (k + committed w' + todo credit_cmd cs)"
proof -
  from assms(1) obtain f cs1 w1 where r: "r = Inr (f, cs1, w1)"
    by (auto simp: set_in_flow_def)
  from assms(2) [OF this] same_books_committed [of w w1]
  have "accounted (release_events w1) w1 (k + committed w1 + todo credit_cmd cs1)" by simp
  from set_in_flow_accounted [OF assms(1) r this] show ?thesis .
qed

lemma register_in_accounted:
  assumes "register_in E u w = Inr (cs, w')" and "accounted (release_events w) w (k + committed w)"
  shows "accounted (release_events w') w' (k + committed w' + todo credit_cmd cs)"
proof -
  note reuse = reuse_in_flow_accounted [OF _ assms(2)]
  note fresh = in_flow_next_accounted [OF _ assms(2)] in_flow_initial_accounted [OF _ assms(2)]
    in_flow_initial_collection_accounted [OF _ assms(2)] in_flow_indexed_local_accounted [OF _ assms(2)]
  note set_fresh = set_in_flow_books_accounted [where w = w]
  from assms(1) obtain us where us: "use_at u w = Inr us" and r: "(let rel = us_in_rel us in
     (case rel_description rel of
        Insignificant \<Rightarrow> reuse_in_flow u (Inr None) w
      | InsignificantCollection \<Rightarrow> reuse_in_flow u (Inr None) w
      | Same \<Rightarrow> reuse_in_flow u (related_flow_ptr rel w) w
      | SameCollection \<Rightarrow> reuse_in_flow u (related_flow_ptr rel w) w
      | Next \<Rightarrow> set_in_flow u (in_flow_next rel w)
      | NextCollection \<Rightarrow> set_in_flow u (in_flow_next rel w)
      | Initial \<Rightarrow> set_in_flow u (in_flow_initial E us w)
      | InitialCollection \<Rightarrow> set_in_flow u (in_flow_initial_collection E us w)
      | IndexedLocal \<Rightarrow> set_in_flow u (in_flow_indexed_local E rel w)
      | IndexedFetching \<Rightarrow> set_in_flow u (in_flow_indexed_fetching us w)
      | Forwarding \<Rightarrow> reuse_in_flow u (related_flow_ptr rel w) w
      | Null \<Rightarrow> Inl UnimplementedRelation
      | NullCollection \<Rightarrow> Inl UnimplementedRelation)) = Inr (cs, w')"
    by (auto simp: register_in_def)
  show ?thesis
  proof (cases "rel_description (us_in_rel us)")
    case IndexedFetching
    with r have s: "set_in_flow u (in_flow_indexed_fetching us w) = Inr (cs, w')" by simp
    then obtain f cs1 w1 where f: "in_flow_indexed_fetching us w = Inr (f, cs1, w1)"
      by (auto simp: set_in_flow_def)
    from set_in_flow_accounted [OF s f in_flow_indexed_fetching_accounted(1) [OF f assms(2)]]
    show ?thesis .
  qed (use r in \<open>auto simp: Let_def intro: reuse set_fresh fresh\<close>)
qed

text \<open>Setting one of the other flows of a use that did not have it yet.\<close>

lemma update_committed:
  assumes "u < length (w_uses w)" and "u \<in> w_registered w"
    and "mset (released_triggers (f (w_uses w ! u))) = mset (released_triggers (w_uses w ! u)) + x"
  shows "committed (update_use u f w) = committed w + x"
proof -
  have "committed (update_use u f w) + mset (released_triggers (w_uses w ! u))
      = committed w + (mset (released_triggers (w_uses w ! u)) + x)"
    using committed_update [OF assms(1), of f] assms(2,3) by simp
  then show ?thesis by (rule cancel_frame(1))
qed

lemma set_anti_in_accounted:
  assumes "set_anti_in_flow u f cs1 w = Inr (cs, w')"
    and "u < length (w_uses w)" "u \<in> w_registered w" "us_anti_in (w_uses w ! u) = None"
    and "accounted (release_events w) w (k + committed w + todo credit_cmd cs1
           + (case f of Some a \<Rightarrow> if is_anti_dependency (w_uses w ! u) then {#} else {#anti_flow_trigger a#}
              | None \<Rightarrow> {#}))"
  shows "accounted (release_events w') w' (k + committed w' + todo credit_cmd cs)"
proof -
  have "committed (update_use u (\<lambda>us. us\<lparr>us_anti_in := f\<rparr>) w) = committed w
      + (case f of Some a \<Rightarrow> if is_anti_dependency (w_uses w ! u) then {#} else {#anti_flow_trigger a#}
         | None \<Rightarrow> {#})"
    using assms(2-4) by (intro update_committed) (auto simp: released_triggers_def split: option.splits)
  with assms(1,5) show ?thesis by (auto simp: set_anti_in_flow_def ac_simps)
qed

lemma set_out_accounted:
  assumes "set_out_flow u f cs1 w = Inr (cs, w')"
    and "u < length (w_uses w)" "u \<in> w_registered w" "us_out (w_uses w ! u) = None"
    and "accounted (release_events w) w (k + committed w + todo credit_cmd cs1
           + (case f of Some a \<Rightarrow> {#flow_trigger a#} | None \<Rightarrow> {#}))"
  shows "accounted (release_events w') w' (k + committed w' + todo credit_cmd cs)"
proof -
  have "committed (update_use u (\<lambda>us. us\<lparr>us_out := f\<rparr>) w) = committed w
      + (case f of Some a \<Rightarrow> {#flow_trigger a#} | None \<Rightarrow> {#})"
    using assms(2-4) by (intro update_committed) (auto simp: released_triggers_def split: option.splits)
  with assms(1,5) show ?thesis by (auto simp: set_out_flow_def ac_simps)
qed

lemma set_anti_out_accounted:
  assumes "set_anti_out_flow u f cs1 w = Inr (cs, w')"
    and "u < length (w_uses w)" "u \<in> w_registered w" "us_anti_out (w_uses w ! u) = None"
    and "accounted (release_events w) w (k + committed w + todo credit_cmd cs1 + {#anti_flow_trigger f#})"
  shows "accounted (release_events w') w' (k + committed w' + todo credit_cmd cs)"
proof -
  have "committed (update_use u (\<lambda>us. us\<lparr>us_anti_out := Some f\<rparr>) w) = committed w + {#anti_flow_trigger f#}"
    using assms(2-4) by (intro update_committed) (auto simp: released_triggers_def split: option.splits)
  with assms(1,5) show ?thesis by (auto simp: set_anti_out_flow_def ac_simps)
qed

text \<open>What a token's tables point at is there, and is what they say it is.\<close>

definition tables_ok :: "'d world \<Rightarrow> bool" where
  "tables_ok w \<longleftrightarrow> (\<forall>tk\<in>set (w_tokens w).
     (\<forall>key en. tk_published tk key = Some (Some en)
        \<longrightarrow> entry_id en < length (w_entries w) \<and> fst (w_entries w ! entry_id en) = en)
     \<and> (\<forall>tag ip. tk_collectives tk tag = Some ip
        \<longrightarrow> invocation_id ip < length (w_invocations w) \<and> fst (w_invocations w ! invocation_id ip) = ip))"

lemma published_entry_table:
  assumes "published_entry t key w = Inr (Some en)"
  shows "t < length (w_tokens w) \<and> tk_published (w_tokens w ! t) key = Some (Some en)"
  using assms
  by (auto simp: published_entry_def evaluate_at_def split: option.splits if_splits)

lemma published_entry_ok:
  assumes "published_entry t key w = Inr (Some en)" and "tables_ok w"
  shows "entry_id en < length (w_entries w)" and "fst (w_entries w ! entry_id en) = en"
    and "release_event en \<in> release_events w"
proof -
  from published_entry_table [OF assms(1)]
  have "w_tokens w ! t \<in> set (w_tokens w)" "tk_published (w_tokens w ! t) key = Some (Some en)"
    by simp_all
  with assms(2) show e: "entry_id en < length (w_entries w)" "fst (w_entries w ! entry_id en) = en"
    unfolding tables_ok_def by blast+
  then have "w_entries w ! entry_id en \<in> set (w_entries w)" by simp
  moreover have "release_event en = (\<lambda>(en, source). release_event en) (w_entries w ! entry_id en)"
    using e(2) by (simp add: split_beta)
  ultimately show "release_event en \<in> release_events w"
    unfolding release_events_def by (rule rev_image_eqI)
qed

text \<open>The cases of the other three flows, each a chain of the primitives' laws.\<close>

lemma anti_in_accounted:
  assumes "register_anti_in u w = Inr (cs, w')" and "chain_ok (w_uses w) (CRegisterAntiIn u)"
    and "u \<in> w_registered w" and "accounted (release_events w) w (k + committed w)"
  shows "accounted (release_events w') w' (k + committed w' + todo credit_cmd cs)"
proof -
  let ?us = "w_uses w ! u"
  from assms(1) have u: "u < length (w_uses w)" by (auto simp: register_anti_in_def use_at_def)
  have none: "us_anti_in ?us = None" using assms(2) by simp
  have set: "accounted (release_events w') w' (k + committed w' + todo credit_cmd cs)"
    if "set_anti_in_flow u f cs1 w1 = Inr (cs, w')" and "same_books w w1"
      and "accounted (release_events w) w1 (k + committed w + todo credit_cmd cs1
           + (case f of Some a \<Rightarrow> if is_anti_dependency ?us then {#} else {#anti_flow_trigger a#}
              | None \<Rightarrow> {#}))" for f cs1 w1
    using set_anti_in_accounted [OF that(1)] that u none assms(3) same_books_committed [OF that(2)]
    by (simp add: same_books_def cong: option.case_cong)
  have same: ?thesis if "anti_in_same u ?us w = Inr (cs, w')"
  proof -
    from that obtain f where c: "(case f of
         Some a \<Rightarrow> if is_anti_dependency ?us then set_anti_in_flow u f [] w
           else bindE (increment_count (anti_flow_trigger a) w) (\<lambda>w1. set_anti_in_flow u f [] w1)
       | None \<Rightarrow> set_anti_in_flow u f [] w) = Inr (cs, w')"
      by (auto simp: anti_in_same_def)
    show ?thesis
    proof (cases f)
      case None
      with c set [of None "[]" w] assms(4) show ?thesis by simp
    next
      case (Some a)
      show ?thesis
      proof (cases "is_anti_dependency ?us")
        case True
        with c Some set [of f "[]" w] assms(4) show ?thesis by simp
      next
        case False
        with c Some obtain w1 where i: "increment_count (anti_flow_trigger a) w = Inr w1"
          and s: "set_anti_in_flow u f [] w1 = Inr (cs, w')" by auto
        from accounted_increment [OF assms(4) i] primitive_books(3) [OF i] set [OF s] False Some
        show ?thesis by simp
      qed
    qed
  qed
  have nxt: ?thesis if "anti_in_next u ?us w = Inr (cs, w')"
  proof -
    from that obtain f w1 where n: "\<not> is_anti_dependency ?us" and m: "make_anti_flow 1 w = Inr (f, w1)"
      and s: "set_anti_in_flow u (Some f) [] w1 = Inr (cs, w')"
      by (auto simp: anti_in_next_def)
    from make_anti_flow_accounted [OF m assms(4)] set [OF s] n show ?thesis by simp
  qed
  have fwd: ?thesis if "anti_in_forwarding u ?us w = Inr (cs, w')"
  proof -
    from that obtain f w1 cs1 w2 where n: "is_anti_dependency ?us"
      and m: "make_anti_flow 1 w = Inr (f, w1)"
      and d: "decrement_count (anti_flow_trigger f) w1 = Inr (cs1, w2)"
      and s: "set_anti_in_flow u (Some f) cs1 w2 = Inr (cs, w')"
      by (auto simp: anti_in_forwarding_def)
    note a = make_anti_flow_accounted [OF m assms(4)]
    have "accounted (release_events w) w2 (k + committed w + todo credit_cmd cs1)"
      by (rule fresh_ready [OF assms(4) make_anti_flow_waiting(2) [OF m, symmetric] a(1)
            make_anti_flow_waiting(1) [OF m] d])
    moreover have "same_books w w2" using a(2) primitive_books(4) [OF d] by (rule same_books_trans)
    ultimately show ?thesis using set [OF s] n by simp
  qed
  have loc: ?thesis if l: "anti_in_indexed_local u ?us w = Inr (cs, w')"
  proof -
    from l obtain r where n: "is_anti_dependency ?us" and c: "(case r of
         None \<Rightarrow> set_anti_in_flow u None [] w
       | Some a \<Rightarrow>
           bindE (make_anti_flow 1 w) (\<lambda>(f, w1).
           bindE (attach_decrement_of (anti_flow_trigger a) (anti_flow_trigger f) w1) (\<lambda>(cs, w2).
             set_anti_in_flow u (Some f) cs w2))) = Inr (cs, w')"
      by (auto simp: anti_in_indexed_local_def)
    show ?thesis
    proof (cases r)
      case None
      with c set [of None "[]" w] assms(4) show ?thesis by simp
    next
      case (Some a)
      with c obtain f w1 cs1 w2 where m: "make_anti_flow 1 w = Inr (f, w1)"
        and d: "attach_decrement_of (anti_flow_trigger a) (anti_flow_trigger f) w1 = Inr (cs1, w2)"
        and s: "set_anti_in_flow u (Some f) cs1 w2 = Inr (cs, w')"
        by auto
      note a = make_anti_flow_accounted [OF m assms(4)]
      have "same_books w w2" using a(2) primitive_books(7) [OF d] by (rule same_books_trans)
      with accounted_attach_decrement [OF a(1) d] set [OF s] n show ?thesis by simp
    qed
  qed
  from assms(1) u show ?thesis
    by (auto simp: register_anti_in_def use_at_def split: description.splits
        intro: same nxt fwd loc set [of None "[]" w] dest: sym) (use assms(4) set [of None "[]" w] in auto)
qed

lemma out_accounted:
  assumes "register_out u w = Inr (cs, w')" and "chain_ok (w_uses w) (CRegisterOut u)"
    and "u \<in> w_registered w" and "accounted (release_events w) w (k + committed w)"
  shows "accounted (release_events w') w' (k + committed w' + todo credit_cmd cs)"
proof -
  let ?us = "w_uses w ! u"
  from assms(1) have u: "u < length (w_uses w)" by (auto simp: register_out_def use_at_def)
  have none: "us_out ?us = None" using assms(2) by simp
  have set: "accounted (release_events w') w' (k + committed w' + todo credit_cmd cs)"
    if "set_out_flow u f cs1 w1 = Inr (cs, w')" and "same_books w w1"
      and "accounted (release_events w) w1 (k + committed w + todo credit_cmd cs1
           + (case f of Some a \<Rightarrow> {#flow_trigger a#} | None \<Rightarrow> {#}))" for f cs1 w1
    using set_out_accounted [OF that(1)] that u none assms(3) same_books_committed [OF that(2)]
    by (simp add: same_books_def)
  have insig: ?thesis if "set_out_flow u None [] w = Inr (cs, w')"
    using set [OF that] assms(4) by simp
  have same: ?thesis if "out_same u related w = Inr (cs, w')" for related
  proof -
    from that obtain f w1 where i: "increment_count (flow_trigger f) w = Inr w1"
      and s: "set_out_flow u (Some f) [] w1 = Inr (cs, w')"
      by (auto simp: out_same_def)
    from accounted_increment [OF assms(4) i] primitive_books(3) [OF i] set [OF s] show ?thesis by simp
  qed
  have fresh: ?thesis if "make_flow c 1 w = Inr (f, w1)" "set_out_flow u (Some f) [] w1 = Inr (cs, w')"
    for c f w1
    using make_flow_accounted [OF that(1) assms(4)] set [OF that(2)] by simp
  have nxt: ?thesis if "out_next u related w = Inr (cs, w')" for related
    using that fresh by (auto simp: out_next_def)
  have nul: ?thesis if "out_null u ?us w = Inr (cs, w')"
    using that fresh by (auto simp: out_null_def)
  have loc: ?thesis if l: "out_indexed_local u related w = Inr (cs, w')" for related
  proof -
    from l obtain r w1 c w2 f w3 cs1 w4 where i: "increment_count (flow_trigger r) w = Inr w1"
      and c: "make_cblk cblk_default w1 = (c, w2)"
      and m: "make_flow (Some c) 1 w2 = Inr (f, w3)"
      and d: "attach_decrement_of (flow_trigger f) (flow_trigger r) w3 = Inr (cs1, w4)"
      and s: "set_out_flow u (Some f) cs1 w4 = Inr (cs, w')"
      by (auto simp: out_indexed_local_def split: prod.splits)
    have "accounted (release_events w) w2 (k + committed w + {#flow_trigger r#})"
      using accounted_increment [OF assms(4) i] make_cblk_books [OF c] by (simp add: accounted_cong)
    note a = make_flow_accounted [OF m this]
    have "accounted (release_events w) w3 (k + committed w + {#flow_trigger f#} + {#flow_trigger r#})"
      using a(1) by (simp add: ac_simps add_mset_commute)
    from accounted_attach_decrement [OF this d]
    have "accounted (release_events w) w4 (k + committed w + todo credit_cmd cs1 + {#flow_trigger f#})"
      by (simp add: ac_simps)
    moreover have "same_books w w4"
      using primitive_books(3) [OF i] make_cblk_books(1) [OF c] a(2) primitive_books(7) [OF d]
      by (meson same_books_trans)
    ultimately show ?thesis using set [OF s] by simp
  qed
  from assms(1) u obtain related where "(case rel_description (us_out_rel ?us) of
        Insignificant \<Rightarrow> set_out_flow u None [] w
      | InsignificantCollection \<Rightarrow> set_out_flow u None [] w
      | Same \<Rightarrow> out_same u related w
      | SameCollection \<Rightarrow> out_same u related w
      | Next \<Rightarrow> out_next u related w
      | NextCollection \<Rightarrow> out_next u related w
      | Null \<Rightarrow> out_null u ?us w
      | NullCollection \<Rightarrow> out_null u ?us w
      | IndexedLocal \<Rightarrow> out_indexed_local u related w
      | _ \<Rightarrow> Inl UnimplementedRelation) = Inr (cs, w')"
    by (auto simp: register_out_def use_at_def)
  then show ?thesis
    by (cases "rel_description (us_out_rel ?us)") (simp_all add: insig same nxt nul loc)
qed

lemma anti_out_accounted:
  assumes "register_anti_out u w = Inr (cs, w')" and "chain_ok (w_uses w) (CRegisterAntiOut u)"
    and "u \<in> w_registered w" and "accounted (release_events w) w (k + committed w)" and "tables_ok w"
  shows "accounted (release_events w') w' (k + committed w' + todo credit_cmd cs)"
proof -
  let ?us = "w_uses w ! u"
  from assms(1) have u: "u < length (w_uses w)" by (auto simp: register_anti_out_def use_at_def)
  have none: "us_anti_out ?us = None" using assms(2) by simp
  have set: "accounted (release_events w') w' (k + committed w' + todo credit_cmd cs)"
    if "set_anti_out_flow u f cs1 w1 = Inr (cs, w')" and "same_books w w1"
      and "accounted (release_events w) w1 (k + committed w + todo credit_cmd cs1 + {#anti_flow_trigger f#})"
    for f cs1 w1
    using set_anti_out_accounted [OF that(1)] that u none assms(3) same_books_committed [OF that(2)]
    by (simp add: same_books_def)
  have ini: ?thesis if "anti_out_initial u w = Inr (cs, w')"
  proof -
    from that obtain f w1 where m: "make_anti_flow 1 w = Inr (f, w1)"
      and s: "set_anti_out_flow u f [] w1 = Inr (cs, w')"
      by (auto simp: anti_out_initial_def)
    from make_anti_flow_accounted [OF m assms(4)] set [OF s] show ?thesis by simp
  qed
  have same: ?thesis if "anti_out_same u ?us related w = Inr (cs, w')" for related
  proof -
    from that obtain f w1 where i: "increment_count (anti_flow_trigger f) w = Inr w1"
      and s: "set_anti_out_flow u f [] w1 = Inr (cs, w')"
      by (auto simp: anti_out_same_def)
    from accounted_increment [OF assms(4) i] primitive_books(3) [OF i] set [OF s] show ?thesis by simp
  qed
  have nxt: ?thesis if "anti_out_next u related w = Inr (cs, w')" for related
    using that ini by (auto simp: anti_out_next_def)
  have loc: ?thesis if l: "anti_out_indexed_local u related w = Inr (cs, w')" for related
  proof -
    from l obtain r w1 f w2 cs1 w3 where i: "increment_count (anti_flow_trigger r) w = Inr w1"
      and m: "make_anti_flow 1 w1 = Inr (f, w2)"
      and d: "attach_decrement_of (anti_flow_trigger f) (anti_flow_trigger r) w2 = Inr (cs1, w3)"
      and s: "set_anti_out_flow u f cs1 w3 = Inr (cs, w')"
      by (auto simp: anti_out_indexed_local_def)
    note a = make_anti_flow_accounted [OF m accounted_increment [OF assms(4) i]]
    have "accounted (release_events w) w2 (k + committed w + {#anti_flow_trigger f#} + {#anti_flow_trigger r#})"
      using a(1) by (simp add: ac_simps add_mset_commute)
    from accounted_attach_decrement [OF this d]
    have "accounted (release_events w) w3 (k + committed w + todo credit_cmd cs1 + {#anti_flow_trigger f#})"
      by (simp add: ac_simps)
    moreover have "same_books w w3"
      using primitive_books(3) [OF i] a(2) primitive_books(7) [OF d] by (meson same_books_trans)
    ultimately show ?thesis using set [OF s] by simp
  qed
  have fet: ?thesis if l: "anti_out_indexed_fetching u ?us w = Inr (cs, w')"
  proof -
    let ?set = "\<lambda>f w1. w1\<lparr>w_aflows := (w_aflows w1)[anti_flow_id f := True]\<rparr>"
    from l obtain f w1 t key en cs1 w3 where m: "make_anti_flow 1 w = Inr (f, w1)"
      and en: "published_entry t key (?set f w1) = Inr (Some en)"
      and d: "attach_decrement_of (anti_flow_trigger f) (release_event en) (?set f w1) = Inr (cs1, w3)"
      and s: "set_anti_out_flow u f cs1 w3 = Inr (cs, w')"
      by (auto simp: anti_out_indexed_fetching_def Let_def)
    note a = make_anti_flow_accounted [OF m assms(4)]
    have b: "same_books w (?set f w1)"
      using a(2) by (simp add: same_books_def)
    have "accounted (release_events w) (?set f w1) (k + committed w + {#anti_flow_trigger f#})"
      using a(1) by (rule accounted_cong) simp_all
    moreover have r: "release_event en \<in> release_events w"
    proof -
      have "w_tokens w1 = w_tokens w"
        using m by (auto simp: make_anti_flow_def new_event_def)
      then have "tables_ok (?set f w1)"
        using assms(5) b by (simp add: tables_ok_def same_books_def)
      from published_entry_ok(3) [OF en this] same_books_committed(2) [OF b] show ?thesis by simp
    qed
    ultimately have "accounted (release_events w) (?set f w1)
        (k + committed w + {#anti_flow_trigger f#} + {#release_event en#})"
      by (simp only: accounted_free [OF r])
    from accounted_attach_decrement [OF this d]
    have "accounted (release_events w) w3 (k + committed w + todo credit_cmd cs1 + {#anti_flow_trigger f#})"
      by (simp add: ac_simps)
    moreover have "same_books w w3" using b primitive_books(7) [OF d] by (rule same_books_trans)
    ultimately show ?thesis using set [OF s] by simp
  qed
  from assms(1) u obtain related where c: "(case rel_description (us_anti_out_rel ?us) of
        Insignificant \<Rightarrow> Inr ([], w)
      | InsignificantCollection \<Rightarrow> Inr ([], w)
      | Initial \<Rightarrow> anti_out_initial u w
      | InitialCollection \<Rightarrow> anti_out_initial u w
      | Same \<Rightarrow> anti_out_same u ?us related w
      | SameCollection \<Rightarrow> anti_out_same u ?us related w
      | Next \<Rightarrow> anti_out_next u related w
      | NextCollection \<Rightarrow> anti_out_next u related w
      | IndexedLocal \<Rightarrow> anti_out_indexed_local u related w
      | IndexedFetching \<Rightarrow> anti_out_indexed_fetching u ?us w
      | _ \<Rightarrow> Inl UnimplementedRelation) = Inr (cs, w')"
    by (auto simp: register_anti_out_def use_at_def)
  then show ?thesis
    using assms(4) by (cases "rel_description (us_anti_out_rel ?us)") (auto simp: ini same nxt loc fet)
qed

end
