(* ===== verification/OpAccounting.thy ===== *)
theory OpAccounting
  imports UseAccounting
begin

text \<open>
  The accounts under the release of uses, pending operations, tasks, publications, collectives and
  the workers' loops; together with the theories before it, under every command of the machine.
\<close>

section \<open>Steps that leave the books alone\<close>

definition keeps :: "'d world \<Rightarrow> nat multiset \<Rightarrow> 'd world \<Rightarrow> nat multiset \<Rightarrow> bool" where
  "keeps w x w' y \<longleftrightarrow>
     same_books w w' \<and> (\<forall>R k. accounted R w (k + x) \<longrightarrow> accounted R w' (k + y))"

lemma keepsI:
  "same_books w w' \<Longrightarrow> (\<And>R k. accounted R w (k + x) \<Longrightarrow> accounted R w' (k + y)) \<Longrightarrow> keeps w x w' y"
  by (simp add: keeps_def)

lemma keepsD: "keeps w x w' y \<Longrightarrow> accounted R w (k + x) \<Longrightarrow> accounted R w' (k + y)"
  by (simp add: keeps_def)

lemma keeps_refl [simp]: "keeps w x w x"
  by (simp add: keeps_def)

lemma keeps_trans: "keeps w x w1 y \<Longrightarrow> keeps w1 y w2 z \<Longrightarrow> keeps w x w2 z"
  by (meson keeps_def same_books_trans)

lemma keeps_add: "keeps w x w' y \<Longrightarrow> keeps w (x + z) w' (y + z)"
proof (rule keepsI)
  fix R k assume k: "keeps w x w' y"
  then show "same_books w w'" by (simp add: keeps_def)
  assume "accounted R w (k + (x + z))"
  then have "accounted R w ((k + z) + x)" by (simp add: ac_simps)
  from keepsD [OF k this] show "accounted R w' (k + (y + z))" by (simp add: ac_simps)
qed

lemma keeps_committed:
  assumes "keeps w x w' y" and "accounted (release_events w) w (k + committed w + x)"
  shows "accounted (release_events w') w' (k + committed w' + y)"
  using keepsD [OF assms] same_books_committed [of w w'] assms(1) by (simp add: keeps_def)

lemma keeps_frame:
  assumes "same_books w w'" and "w_events w' = w_events w"
    and "map wk_ready (w_workers w') = map wk_ready (w_workers w)"
  shows "keeps w x w' x"
  using assms by (auto intro: keepsI accounted_cong)

lemma keeps_attach:
  "attach_action e a w = Inr (cs, w') \<Longrightarrow> keeps w (credit_action a) w' (todo credit_cmd cs)"
  using primitive_books(6) accounted_attach by (blast intro: keepsI)

lemma keeps_emplace: "emplace_ready i op w = Inr w' \<Longrightarrow> keeps w (credit_op op) w' {#}"
  using emplace_books accounted_emplace by (force intro: keepsI)

lemma keeps_increment: "increment_count e w = Inr w' \<Longrightarrow> keeps w {#} w' {#e#}"
  using primitive_books(3) accounted_increment by (force intro: keepsI)

lemma keeps_new_event: "new_event 1 w = (e, w') \<Longrightarrow> keeps w {#} w' {#e#}"
proof (rule keepsI)
  assume n: "new_event 1 w = (e, w')"
  then show "same_books w w'" by (rule primitive_books)
  fix R k assume "accounted R w (k + {#})"
  then have "accounted R w k" by simp
  from accounted_new_event [OF this n] show "accounted R w' (k + {#e#})" by simp
qed

lemma keeps_update_worker:
  assumes "\<And>wk. wk_ready (f wk) = wk_ready wk"
  shows "keeps w x (update_worker i f w) x"
proof (rule keeps_frame)
  have "map wk_ready ((w_workers w)[i := f (w_workers w ! i)]) = map wk_ready (w_workers w)"
    using assms by (cases "i < length (w_workers w)") (auto simp: map_update list_update_same_conv list_update_beyond)
  then show "map wk_ready (w_workers (update_worker i f w)) = map wk_ready (w_workers w)"
    by (simp add: update_worker_def)
qed (simp_all add: update_worker_def same_books_def)

section \<open>Pending operations\<close>

lemma add_dependency_keeps:
  assumes "add_dependency_on p e w = Inr (cs, w')"
  shows "keeps w {#} w' (todo credit_cmd cs)"
proof -
  from assms obtain w1 where i: "increment_count p w = Inr w1"
    and a: "attach_action e (DecrementAction p) w1 = Inr (cs, w')"
    by (auto simp: add_dependency_on_def)
  from keeps_increment [OF i] keeps_attach [OF a] show ?thesis by (auto intro: keeps_trans)
qed

lemma task_dependency_keeps:
  assumes "task_dependency p d w = Inr (cs, w')"
  shows "keeps w {#} w' (todo credit_cmd cs)"
  using assms add_dependency_keeps
  by (auto simp: task_dependency_def then_do_def split: if_splits)

lemma task_anti_dependency_keeps:
  assumes "task_anti_dependency p d w = Inr (cs, w')"
  shows "keeps w {#} w' (todo credit_cmd cs)"
  using assms add_dependency_keeps by (auto simp: task_anti_dependency_def split: if_splits)

lemma enqueue_or_run_keeps:
  assumes "enqueue_or_run me p op i allow w = Inr (cs, w')"
  shows "keeps w (credit_op op) w' (todo credit_cmd cs)"
proof -
  let ?w1 = "w\<lparr>w_pending_tasks := w_pending_tasks w + 1\<rparr>"
  have k1: "keeps w (credit_op op) ?w1 (credit_op op)"
    by (rule keeps_frame) (simp_all add: same_books_def)
  from assms obtain cs0 where a: "attach_or_do_action p (EnqueueAction op) cs0 ?w1 = Inr (cs, w')"
    and c: "todo credit_cmd cs0 = credit_op op"
    by (auto simp: enqueue_or_run_def Let_def attach_action_def split: if_splits)
  have "keeps ?w1 (credit_op op) w' (todo credit_cmd cs)"
    using primitive_books(5) [OF a] accounted_attach_or_do [OF _ a] c by (intro keepsI) auto
  with k1 show ?thesis by (rule keeps_trans)
qed

lemma run_enqueue_keeps:
  assumes "run_enqueue_action me op w = Inr (cs, w')"
  shows "keeps w (credit_op op) w' (todo credit_cmd cs)"
proof -
  from assms obtain w1 where e: "emplace_ready me op w = Inr w1" and "cs = []"
    and w': "w' = w1\<lparr>w_pending_tasks := w_pending_tasks w1 - 1\<rparr>"
    by (auto simp: run_enqueue_action_def)
  moreover have "keeps w1 {#} w' {#}" unfolding w' by (rule keeps_frame) (simp_all add: same_books_def)
  ultimately show ?thesis using keeps_emplace [OF e] by (auto intro: keeps_trans)
qed

lemma stack_run_keeps:
  assumes "stack_run me op w = Inr (cs, w')"
  shows "keeps w (credit_op op) w' (todo credit_cmd cs)"
  using assms keeps_update_worker [of "\<lambda>wk. wk\<lparr>wk_depth := wk_depth wk + 1\<rparr>"]
  by (auto simp: stack_run_def)

lemma stack_exit_keeps:
  assumes "stack_exit me w = Inr (cs, w')"
  shows "keeps w {#} w' (todo credit_cmd cs)"
proof -
  let ?w1 = "update_worker me (\<lambda>wk. wk\<lparr>wk_depth := wk_depth wk - 1\<rparr>) w"
  from assms have "cs = []" and w': "w' = ?w1\<lparr>w_pending_tasks := w_pending_tasks ?w1 - 1\<rparr>"
    by (auto simp: stack_exit_def Let_def)
  moreover have "keeps w {#} ?w1 {#}" by (rule keeps_update_worker) simp
  moreover have "keeps ?w1 {#} w' {#}" unfolding w' by (rule keeps_frame) (simp_all add: same_books_def)
  ultimately show ?thesis by (auto intro: keeps_trans)
qed

lemma when_ready_keeps:
  assumes "when_ready_do me e c w = (cs, w')"
  shows "keeps w (credit_op (CallableOperation c True)) w' (todo credit_cmd cs)"
proof -
  from assms obtain p where n: "new_event 1 w = (p, w')"
    and cs: "cs = [CAddDependency p e, CDecrement p, CEnqueueOrRun p (CallableOperation c True) me True]"
    by (auto simp: when_ready_do_def when_all_ready_do_def make_pending_operation_def split: prod.splits)
  from keeps_add [OF keeps_new_event [OF n], of "credit_op (CallableOperation c True)"] cs
  show ?thesis by (simp add: ac_simps)
qed

lemma todo_no_credit: "(\<And>x. credit_cmd (f x) = {#}) \<Longrightarrow> todo credit_cmd (map f xs) = {#}"
  by (induction xs) simp_all

lemma make_pending_task_keeps:
  assumes "make_pending_task t i w = (cs, w')"
  shows "keeps w {#shutdown_counter#} w' (todo credit_cmd cs)"
proof -
  from assms obtain p where n: "new_event 1 w = (p, w')"
    and cs: "cs = map (CTaskDependency p) (get_dependencies t)
      @ [CDecrement p, CEnqueueOrRun p (ReadyTaskOperation t) i (\<not> is_data_parallel_task t)]"
    by (auto simp: make_pending_task_def make_pending_operation_def split: prod.splits)
  have "todo credit_cmd (map (CTaskDependency p) (get_dependencies t)) = {#}"
    by (rule todo_no_credit) simp
  with keeps_add [OF keeps_new_event [OF n], of "{#shutdown_counter#}"] cs
  show ?thesis by (simp add: ac_simps)
qed

lemma alias_flows_keeps:
  assumes "alias_flows me h e w = Inr (cs, w')"
  shows "keeps w {#} w' (todo credit_cmd cs)"
proof -
  from assms obtain w1 where i: "increment_count h w = Inr w1"
    and r: "when_ready_do me e (DecrementOf h) w1 = (cs, w')"
    by (auto simp: alias_flows_def)
  from keeps_increment [OF i] when_ready_keeps [OF r] show ?thesis by (auto intro: keeps_trans)
qed

section \<open>Tasks\<close>

lemma setup_data_frame:
  "setup_data deps w = Inr w' \<Longrightarrow>
     w_events w' = w_events w \<and> w_workers w' = w_workers w \<and> committed w' = committed w
     \<and> release_events w' = release_events w \<and> w_registered w' = w_registered w
     \<and> w_entries w' = w_entries w \<and> w_invocations w' = w_invocations w
     \<and> w_tokens w' = w_tokens w \<and> length (w_uses w') = length (w_uses w)
     \<and> (\<forall>v. us_in (w_uses w' ! v) = us_in (w_uses w ! v)
          \<and> us_anti_in (w_uses w' ! v) = us_anti_in (w_uses w ! v)
          \<and> us_out (w_uses w' ! v) = us_out (w_uses w ! v)
          \<and> us_anti_out (w_uses w' ! v) = us_anti_out (w_uses w ! v))"
proof (induction deps arbitrary: w)
  case Nil
  then show ?case by simp
next
  case (Cons d ds)
  then obtain us where us: "use_at d w = Inr us" by auto
  show ?case
  proof (cases "immediate_none us")
    case True
    with Cons.prems us Cons.IH [of w] show ?thesis by simp
  next
    case False
    with Cons.prems us obtain p
      where s: "setup_data ds (update_use d (\<lambda>us. us\<lparr>us_data := p\<rparr>) w) = Inr w'" by auto
    let ?w1 = "update_use d (\<lambda>us. us\<lparr>us_data := p\<rparr>) w"
    have "committed ?w1 = committed w" by (rule committed_update_same) simp
    moreover have "w_tokens ?w1 = w_tokens w" by (simp add: update_use_def)
    moreover have "\<forall>v. us_in (w_uses ?w1 ! v) = us_in (w_uses w ! v)
          \<and> us_anti_in (w_uses ?w1 ! v) = us_anti_in (w_uses w ! v)
          \<and> us_out (w_uses ?w1 ! v) = us_out (w_uses w ! v)
          \<and> us_anti_out (w_uses ?w1 ! v) = us_anti_out (w_uses w ! v)"
      using us by (auto simp: update_use_def use_at_def nth_list_update)
    ultimately show ?thesis using Cons.IH [OF s] by simp
  qed
qed

lemma run_task_accounted:
  assumes "run_task me t w = Inr (cs, w')"
    and "accounted (release_events w) w (k + committed w + {#shutdown_counter#})"
  shows "accounted (release_events w') w' (k + committed w' + todo credit_cmd cs)"
proof -
  from assms(1) obtain wk :: worker and w1 where s: "setup_data (get_dependencies t) w = Inr w1"
    and cs: "cs = map CApi (task_body t) @ [CTaskFinished (wk_running wk)]"
    and w': "w' = update_worker me (\<lambda>wk. wk\<lparr>wk_running := Some t\<rparr>) w1"
    by (auto simp: run_task_def)
  note f = setup_data_frame [OF s]
  have "accounted (release_events w1) w1 (k + committed w1 + {#shutdown_counter#})"
    using assms(2) f accounted_cong [OF assms(2), of w1] by simp
  moreover have "keeps w1 {#shutdown_counter#} w' {#shutdown_counter#}"
    unfolding w' by (rule keeps_update_worker) simp
  moreover have "todo credit_cmd (map CApi (task_body t)) = {#}" by (rule todo_no_credit) simp
  ultimately show ?thesis using keeps_committed [of w1 "{#shutdown_counter#}" w' "{#shutdown_counter#}" k] by (simp add: cs)
qed

lemma run_operation_accounted:
  assumes "run_operation me op w = Inr (b, cs, w')"
    and "accounted (release_events w) w (k + committed w + credit_op op)"
  shows "accounted (release_events w') w' (k + committed w' + todo credit_cmd cs)"
proof (cases op)
  case (SpecialMessage m)
  with assms show ?thesis
    by (auto simp: run_operation_def split: message_kind.splits)
next
  case (ReadyTaskOperation t)
  with assms run_task_accounted [of me t w cs w' k] show ?thesis by (auto simp: run_operation_def)
next
  case (CallableOperation c s)
  moreover have "todo credit_cmd (map CJoin xs) = {#}" for xs by (rule todo_no_credit) simp
  ultimately show ?thesis
    using assms by (cases c) (auto simp: run_operation_def)
qed

section \<open>Decrements\<close>

definition fits :: "'d world \<Rightarrow> nat multiset \<Rightarrow> bool" where
  "fits w k \<longleftrightarrow> (\<forall>e. count (owed w k) e < 2 ^ 64)"

lemma decrement_committed:
  assumes "decrement_count e w = Inr (cs, w')"
    and "accounted (release_events w) w (k + committed w + {#e#})" and "fits w (k + committed w + {#e#})"
  shows "accounted (release_events w') w' (k + committed w' + todo credit_cmd cs)"
  using accounted_decrement [OF assms(2,1)] assms(3)
    same_books_committed [OF primitive_books(4) [OF assms(1)]]
  by (simp add: fits_def)

lemma owed_frame:
  assumes "w_events w' = w_events w" and "map wk_ready (w_workers w') = map wk_ready (w_workers w)"
  shows "owed w' k = owed w k"
  using credit.waiting_cong [OF assms] by (simp add: owed_def)

lemma task_finished_accounted:
  assumes "task_finished me old w = Inr (cs, w')"
    and "accounted (release_events w) w (k + committed w + {#shutdown_counter#})"
    and "fits w (k + committed w + {#shutdown_counter#})"
  shows "accounted (release_events w') w' (k + committed w' + todo credit_cmd cs)"
proof -
  let ?w1 = "update_worker me (\<lambda>wk. wk\<lparr>wk_running := old\<rparr>) w"
  from assms(1) have d: "decrement_count shutdown_counter ?w1 = Inr (cs, w')"
    by (auto simp: task_finished_def)
  have b: "committed ?w1 = committed w"
    by (rule same_books_committed) (simp add: same_books_def update_worker_def)
  have r: "map wk_ready (w_workers ?w1) = map wk_ready (w_workers w)"
    by (cases "me < length (w_workers w)")
      (auto simp: update_worker_def map_update list_update_same_conv list_update_beyond)
  have o: "owed ?w1 x = owed w x" for x
    by (rule owed_frame) (use r in \<open>simp_all add: update_worker_def\<close>)
  have "keeps w {#shutdown_counter#} ?w1 {#shutdown_counter#}" by (rule keeps_update_worker) simp
  from decrement_committed [OF d keeps_committed [OF this assms(2)]] assms(3) show ?thesis
    by (simp add: fits_def o b)
qed

lemma register_task_keeps:
  assumes "register_task me t w = Inr (cs, w')"
  shows "keeps w {#} w' (todo credit_cmd cs)"
proof -
  from assms obtain w1 where i: "increment_count shutdown_counter w = Inr w1"
    and m: "make_pending_task t me w1 = (cs, w')"
    by (auto simp: register_task_def)
  from keeps_increment [OF i] make_pending_task_keeps [OF m] show ?thesis by (rule keeps_trans)
qed

lemma create_tasks_accounted:
  assumes "create_tasks me name ts i w = Inr (cs, w')"
    and "accounted (release_events w) w (k + committed w + {#shutdown_counter#})"
    and "fits w (k + committed w + {#shutdown_counter#})"
  shows "accounted (release_events w') w' (k + committed w' + todo credit_cmd cs)"
proof (cases ts)
  case Nil
  with assms decrement_committed show ?thesis by simp
next
  case (Cons t ts')
  with assms(1) obtain w1 j cs1 where n: "increment_count shutdown_counter w = Inr w1"
    and m: "make_pending_task (name_task name i t) j w1 = (cs1, w')"
    and cs: "cs = cs1 @ [CCreateTasks name ts' (i + 1)]"
    by (auto simp: Let_def split: prod.splits)
  have "keeps w {#} w' (todo credit_cmd cs1)"
    using keeps_increment [OF n] make_pending_task_keeps [OF m] by (rule keeps_trans)
  from keeps_add [OF this, of "{#shutdown_counter#}"]
  have "keeps w {#shutdown_counter#} w' (todo credit_cmd cs)" by (simp add: cs)
  from keeps_committed [OF this assms(2)] show ?thesis .
qed

lemma set_parent_tokens_frame:
  "set_parent_tokens t deps w = Inr w' \<Longrightarrow>
     same_books w w' \<and> w_events w' = w_events w \<and> w_workers w' = w_workers w \<and> w_tokens w' = w_tokens w"
proof (induction deps arbitrary: w)
  case Nil
  then show ?case by simp
next
  case (Cons d ds)
  then obtain us where us: "use_at d w = Inr us" by auto
  show ?case
  proof (cases "manages_collection us")
    case True
    with Cons.prems us obtain w1 where s: "set_parent_tokens t ds w1 = Inr w'"
      and w1: "same_books w w1" "w_events w1 = w_events w" "w_workers w1 = w_workers w"
        "w_tokens w1 = w_tokens w"
      by (auto simp: same_books_def)
    with Cons.IH [OF s] show ?thesis by (auto intro: same_books_trans)
  next
    case False
    with Cons.prems us Cons.IH [of w] show ?thesis by simp
  qed
qed

lemma register_task_collection_keeps:
  assumes "register_task_collection tc w = Inr (cs, w')"
  shows "keeps w {#} w' (todo credit_cmd cs)"
proof -
  from assms obtain w1 t w2 w3 where i: "increment_count shutdown_counter w = Inr w1"
    and t: "make_token (length (tc_tasks tc)) w1 = (t, w2)"
    and w3: "w3 = w2\<lparr>w_collection_token := (w_collection_token w2)(tc_id tc \<mapsto> t)\<rparr>"
    and s: "set_parent_tokens t (tc_dependencies tc) w3 = Inr w'"
    and cs: "cs = [CCreateTasks (tc_name tc) (tc_tasks tc) 0]"
    by (auto simp: register_task_collection_def Let_def split: prod.splits)
  have "same_books w1 w3" "w_events w3 = w_events w1" "w_workers w3 = w_workers w1"
    using t by (auto simp: w3 make_token_def same_books_def)
  moreover note set_parent_tokens_frame [OF s]
  ultimately have "keeps w1 {#shutdown_counter#} w' {#shutdown_counter#}"
    by (intro keeps_frame) (auto intro: same_books_trans)
  with keeps_increment [OF i] have "keeps w {#} w' {#shutdown_counter#}" by (rule keeps_trans)
  then show ?thesis by (simp add: cs)
qed

section \<open>Registering and releasing a use\<close>

lemma held_insert:
  assumes "u < length (w_uses w)" and "u \<notin> w_registered w"
  shows "committed (w\<lparr>w_registered := insert u (w_registered w)\<rparr>)
    = committed w + mset (released_triggers (w_uses w ! u))"
proof -
  let ?h = "\<lambda>r v. if v \<in> r then mset (released_triggers (w_uses w ! v)) else {#}"
  let ?r = "w_registered w"
  have "(\<Sum>v<length (w_uses w). ?h ?r v) = (\<Sum>v\<in>{..<length (w_uses w)} - {u}. ?h ?r v)"
    using assms by (subst sum.remove [of _ u]) auto
  moreover have "(\<Sum>v<length (w_uses w). ?h (insert u ?r) v)
      = mset (released_triggers (w_uses w ! u)) + (\<Sum>v\<in>{..<length (w_uses w)} - {u}. ?h (insert u ?r) v)"
    using assms by (subst sum.remove [of _ u]) auto
  moreover have "(\<Sum>v\<in>{..<length (w_uses w)} - {u}. ?h (insert u ?r) v)
      = (\<Sum>v\<in>{..<length (w_uses w)} - {u}. ?h ?r v)"
    by (rule sum.cong) auto
  ultimately have "held (w\<lparr>w_registered := insert u ?r\<rparr>) = held w + mset (released_triggers (w_uses w ! u))"
    by (simp add: held_def ac_simps cong: if_cong)
  then show ?thesis by (simp add: committed_def unpublished_def reserved_counts_def ac_simps)
qed

lemma held_remove:
  assumes "u < length (w_uses w)" and "u \<in> w_registered w"
  shows "committed (w\<lparr>w_registered := w_registered w - {u}\<rparr>) + mset (released_triggers (w_uses w ! u))
    = committed w"
  using held_insert [of u "w\<lparr>w_registered := w_registered w - {u}\<rparr>"] assms
  by (simp add: insert_absorb)

lemma register_use_accounted:
  assumes "register_use u w = Inr (cs, w')" and "u \<notin> w_registered w"
    and "released_triggers (w_uses w ! u) = []"
    and "accounted (release_events w) w (k + committed w)"
  shows "accounted (release_events w') w' (k + committed w' + todo credit_cmd cs)"
proof -
  from assms(1) obtain w1 where u: "u < length (w_uses w)" and a: "assign_key (us_handle (w_uses w ! u)) w = Inr w1"
    and cs: "cs = [CRegisterIn u]" and w': "w' = w1\<lparr>w_registered := insert u (w_registered w1)\<rparr>"
    by (auto simp: register_use_def use_at_def)
  have b: "same_books w w1" "w_events w1 = w_events w" "w_workers w1 = w_workers w"
    using a by (auto simp: assign_key_def same_books_def split: if_splits)
  have "committed w' = committed w1"
    using held_insert [of u w1] assms(2,3) b u by (simp add: w' same_books_def)
  moreover have "release_events w' = release_events w"
    using same_books_committed(2) [OF b(1)] by (simp add: w' release_events_def)
  moreover have "accounted (release_events w) w' (k + committed w)"
    using assms(4) by (rule accounted_cong) (simp_all add: w' b)
  ultimately show ?thesis using same_books_committed(1) [OF b(1)] by (simp add: cs)
qed

lemma todo_decrements: "todo credit_cmd (map CDecrement es) = mset es"
  by (induction es) simp_all

lemma alias_no_credit:
  assumes "handle_aliasing_for_released_use us = Inr cs"
  shows "todo credit_cmd cs = {#}"
  using assms by (auto simp: handle_aliasing_for_released_use_def split: option.splits)

lemma release_use_accounted:
  assumes "release_use u w = Inr (cs, w')" and "u \<in> w_registered w"
    and "accounted (release_events w) w (k + committed w)"
  shows "accounted (release_events w') w' (k + committed w' + todo credit_cmd cs)"
proof -
  from assms(1) obtain al where u: "u < length (w_uses w)"
    and al: "(if establishes_alias (w_uses w ! u) then handle_aliasing_for_released_use (w_uses w ! u)
        else Inr []) = Inr al"
    and cs: "cs = al @ map CDecrement (released_triggers (w_uses w ! u))"
    and w': "w' = w\<lparr>w_registered := w_registered w - {u}\<rparr>"
    by (auto simp: release_use_def use_at_def Let_def)
  have "todo credit_cmd al = {#}" using al alias_no_credit by (auto split: if_splits)
  then have "todo credit_cmd cs = mset (released_triggers (w_uses w ! u))"
    by (simp add: cs todo_decrements del: map_map)
  with held_remove [OF u assms(2)] have c: "committed w' + todo credit_cmd cs = committed w"
    by (simp add: w')
  have "accounted (release_events w) w' (k + committed w)"
    using assms(3) by (rule accounted_cong) (simp_all add: w')
  then show ?thesis by (simp add: c [symmetric] w' release_events_def ac_simps)
qed

end
