(* ===== verification/CommAccounting.thy ===== *)
theory CommAccounting
  imports OpAccounting
begin

text \<open>The accounts under publication, the collectives, the work loop and shutdown.\<close>

section \<open>Publication\<close>

lemma sum_list_mset_update:
  assumes "i < length xs"
  shows "sum_list (map f (xs[i := x])) + f (xs ! i) = sum_list (map f xs) + (f x :: 'a multiset)"
  by (rule sum_list_update [OF assms])

lemma set_source_committed:
  assumes "entry_id en < length (w_entries w)" and "w_entries w ! entry_id en = (en, None)"
  shows "committed (set_source_flow en f w) + {#fetching_join_counter en#} = committed w"
    and "release_events (set_source_flow en f w) = release_events w"
proof -
  let ?g = "\<lambda>(en, source). if source = None then {#fetching_join_counter en#} else {#}"
  have "unpublished (set_source_flow en f w) + {#fetching_join_counter en#} = unpublished w"
    using sum_list_mset_update [OF assms(1), of ?g "(en, Some f)"] assms(2)
    by (simp add: unpublished_def set_source_flow_def)
  then show "committed (set_source_flow en f w) + {#fetching_join_counter en#} = committed w"
    by (simp add: committed_def held_def reserved_counts_def set_source_flow_def ac_simps cong: if_cong)
  let ?r = "\<lambda>(en, source). release_event en"
  have "map ?r ((w_entries w)[entry_id en := (en, Some f)]) = map ?r (w_entries w)"
    using assms by (simp add: map_update list_update_same_conv)
  then have "?r ` set ((w_entries w)[entry_id en := (en, Some f)]) = ?r ` set (w_entries w)"
    by (metis list.set_map)
  then show "release_events (set_source_flow en f w) = release_events w"
    by (simp add: release_events_def set_source_flow_def)
qed

text \<open>The entry at a key, if any, has not been published yet.\<close>

definition unpublished_at :: "nat \<Rightarrow> key \<times> key \<times> nat \<Rightarrow> 'd world \<Rightarrow> bool" where
  "unpublished_at t key w \<longleftrightarrow>
     (case published_entry t key w of Inr (Some en) \<Rightarrow> snd (w_entries w ! entry_id en) = None | _ \<Rightarrow> True)"

lemma ensure_entry_cases:
  assumes "ensure_entry t key w = Inr (en, w')"
  obtains (old) "published_entry t key w = Inr (Some en)" "w' = w"
    | (new) w1 where "published_entry t key w = Inr None" "make_entry w = (en, w1)"
        "w' = set_published_entry t key (Some en) w1"
  using assms by (auto simp: ensure_entry_def split: option.splits prod.splits)

lemma ensure_entry_entry:
  assumes "ensure_entry t key w = Inr (en, w')" and "tables_ok w" and "unpublished_at t key w"
  shows "entry_id en < length (w_entries w') \<and> w_entries w' ! entry_id en = (en, None)"
  using assms(1)
proof (cases rule: ensure_entry_cases)
  case old
  with published_entry_ok [OF old(1) assms(2)] assms(3) show ?thesis
    by (auto simp: unpublished_at_def intro: prod_eqI)
next
  case (new w1)
  have "w_entries w1 = w_entries w @ [(en, None)]" "entry_id en = length (w_entries w)"
    using new(2) by (auto simp: make_entry_def new_event_def Let_def)
  moreover have "w_entries w' = w_entries w1" by (simp add: new(3) set_published_entry_def Let_def)
  ultimately show ?thesis by simp
qed

lemma publish_at_entry_accounted:
  assumes "publish_at_entry u n en w = Inr (cs, w')"
    and "accounted (release_events w) w (k + committed w)"
    and "entry_id en < length (w_entries w)" "w_entries w ! entry_id en = (en, None)"
  shows "accounted (release_events w') w' (k + committed w' + todo credit_cmd cs)"
proof -
  from assms(1) obtain w1 cs1 w2 in_flow c source w3 cs2
    where v: "advance_count (release_event en) (of_nat n) w = Inr w1"
      and d: "decrement_count (release_event en) w1 = Inr (cs1, w2)"
      and m: "make_flow None 1 w2 = Inr (source, w3)"
      and a: "attach_action (flow_trigger in_flow) (PublishCopyAction en source c u)
             (set_source_flow en source w3) = Inr (cs2, w')"
      and cs: "cs = cs1 @ cs2"
    by (auto simp: publish_at_entry_def)
  have r: "release_event en \<in> release_events w"
    using assms(3,4) unfolding release_events_def by (auto intro!: rev_image_eqI [of "(en, None)"] dest: nth_mem)
  have b: "same_books w w2"
    using primitive_books(2) [OF v] primitive_books(4) [OF d] by (rule same_books_trans)
  from accounted_decrement_free [OF accounted_advance_free [OF assms(2) v r] d r]
  have a2: "accounted (release_events w) w2 (k + committed w + todo credit_cmd cs1)" .
  note m' = make_flow_accounted [OF m a2]
  have b3: "same_books w w3" using b m'(2) by (rule same_books_trans)
  then have e: "entry_id en < length (w_entries w3)" "w_entries w3 ! entry_id en = (en, None)"
    using assms(3,4) by (simp_all add: same_books_def)
  note c = set_source_committed [OF e, of source]
  let ?w4 = "set_source_flow en source w3"
  have "accounted (release_events w) ?w4 (k + committed w + todo credit_cmd cs1 + {#flow_trigger source#})"
    using m'(1) by (rule accounted_cong) (simp_all add: set_source_flow_def)
  moreover have cw: "committed w = committed ?w4 + {#fetching_join_counter en#}"
    using c(1) same_books_committed(1) [OF b3] by simp
  then have "k + committed w + todo credit_cmd cs1 + {#flow_trigger source#}
      = k + committed ?w4 + todo credit_cmd cs1 + credit_action (PublishCopyAction en source c u)"
    by (simp add: ac_simps)
  ultimately have "accounted (release_events w) ?w4
      (k + committed ?w4 + todo credit_cmd cs1 + credit_action (PublishCopyAction en source c u))"
    by simp
  from accounted_attach [OF this a]
  have "accounted (release_events w) w' (k + committed ?w4 + todo credit_cmd cs1 + todo credit_cmd cs2)" .
  moreover have "committed w' = committed ?w4" "release_events w' = release_events w"
    using same_books_committed [OF primitive_books(6) [OF a]] c(2) same_books_committed(2) [OF b3] by simp_all
  ultimately show ?thesis by (simp add: cs ac_simps)
qed

lemma publish_use_accounted:
  assumes "publish_use u d w = Inr (cs, w')"
    and "accounted (release_events w) w (k + committed w)" and "tables_ok w"
    and "\<And>t key. token_of (pd_collection d) w = Inr t \<Longrightarrow> published_key u d w = Inr key \<Longrightarrow> unpublished_at t key w"
  shows "accounted (release_events w') w' (k + committed w' + todo credit_cmd cs)"
proof -
  from assms(1) obtain t key en w1 where t: "token_of (pd_collection d) w = Inr t"
    and key: "published_key u d w = Inr key"
    and e: "ensure_entry t key w = Inr (en, w1)" and p: "publish_at_entry u (n_fetchers d) en w1 = Inr (cs, w')"
    by (auto simp: publish_use_def)
  from ensure_entry_entry [OF e assms(3) assms(4) [OF t key]]
  show ?thesis
    using publish_at_entry_accounted [OF p ensure_entry_accounted(1) [OF e assms(2)]] by simp
qed

lemma run_publish_copy_keeps:
  assumes "run_publish_copy E en source c u w = Inr (cs, w')"
  shows "keeps w (credit_action (PublishCopyAction en source c u)) w' (todo credit_cmd cs)"
proof -
  from assms have "todo credit_cmd cs = {#flow_trigger source, fetching_join_counter en#}"
    and "same_books w w'" "w_events w' = w_events w" "w_workers w' = w_workers w"
    by (auto simp: run_publish_copy_def make_cblk_def same_books_def Let_def)
  then show ?thesis using keeps_frame [of w w'] by simp
qed

lemma run_fetched_keeps:
  assumes "run_fetched en f w = Inr (cs, w')"
  shows "keeps w (credit_action (FetchedAction en f)) w' (todo credit_cmd cs)"
proof -
  from assms have "todo credit_cmd cs = {#flow_trigger f#}"
    and "same_books w w'" "w_events w' = w_events w" "w_workers w' = w_workers w"
    by (auto simp: run_fetched_def same_books_def)
  then show ?thesis using keeps_frame [of w w'] by simp
qed

section \<open>Collectives\<close>

text \<open>A contribution takes two of the counts that its invocation held.\<close>

lemma push_input_frame:
  "w_events (push_input_use ip u w) = w_events w"
  "w_workers (push_input_use ip u w) = w_workers w"
  "w_uses (push_input_use ip u w) = w_uses w"
  "w_registered (push_input_use ip u w) = w_registered w"
  "release_events (push_input_use ip u w) = release_events w"
  by (simp_all add: push_input_use_def update_invocation_def Let_def release_events_def)

lemma push_input_committed:
  assumes "invocation_id ip < length (w_invocations w)"
    and "w_invocations w ! invocation_id ip = (ip, iv)" and "length (iv_input_uses iv) < iv_size iv"
  shows "committed (push_input_use ip u w) + {#invocation_ready_event ip, invocation_ready_event ip#} = committed w"
proof -
  let ?g = "\<lambda>(ip, iv). replicate_mset (2 * iv_size iv - 2 * length (iv_input_uses iv)) (invocation_ready_event ip)"
  let ?r = "invocation_ready_event ip"
  let ?iv' = "iv\<lparr>iv_input_uses := iv_input_uses iv @ [u]\<rparr>"
  have s: "Suc (Suc (2 * iv_size iv - 2 * length (iv_input_uses ?iv'))) = 2 * iv_size iv - 2 * length (iv_input_uses iv)"
    using assms(3) by simp
  have "reserved_counts (push_input_use ip u w) + ?g (ip, iv) = reserved_counts w + ?g (ip, ?iv')"
    using sum_list_mset_update [OF assms(1), of ?g "(ip, ?iv')"] assms(2)
    by (simp add: reserved_counts_def push_input_use_def update_invocation_def Let_def)
  moreover have "?g (ip, iv) = ?g (ip, ?iv') + {#?r, ?r#}"
    unfolding prod.case s [symmetric] by simp
  ultimately have "reserved_counts (push_input_use ip u w) + {#?r, ?r#} = reserved_counts w"
    by simp
  then show ?thesis
    by (simp add: committed_def held_def unpublished_def push_input_use_def update_invocation_def Let_def
        ac_simps cong: if_cong)
qed

lemma contribute_more_accounted:
  assumes "contribute_more u op ip w = Inr (cs, w')"
    and "accounted (release_events w) w (k + committed w)" and "fits w (k + committed w)"
    and "invocation_id ip < length (w_invocations w)"
    and "w_invocations w ! invocation_id ip = (ip, iv)" and "length (iv_input_uses iv) < iv_size iv"
  shows "accounted (release_events w') w' (k + committed w' + todo credit_cmd cs)"
proof -
  let ?w1 = "push_input_use ip u w"
  let ?r = "invocation_ready_event ip"
  from assms(1) obtain us :: use and f c where r: "then_do
         (case us_anti_in us of
            Some a \<Rightarrow> attach_action (anti_flow_trigger a) (DecrementAction ?r) ?w1
          | None \<Rightarrow> decrement_count ?r ?w1)
         [CAttach (flow_trigger f) (ContributeAction ip (us_handle us) c op)] = Inr (cs, w')"
    by (auto simp: contribute_more_def Let_def)
  note c = push_input_committed [OF assms(4-6), of u]
  have e: "k + committed w = (k + committed ?w1 + {#?r#}) + {#?r#}"
    by (simp add: ac_simps flip: c)
  have a1: "accounted (release_events ?w1) ?w1 ((k + committed ?w1 + {#?r#}) + {#?r#})"
    using accounted_cong [OF assms(2), of ?w1] e by (simp add: push_input_frame)
  show ?thesis
  proof (cases "us_anti_in us")
    case None
    with r obtain cs1 where d: "decrement_count ?r ?w1 = Inr (cs1, w')"
      and cs: "cs = cs1 @ [CAttach (flow_trigger f) (ContributeAction ip (us_handle us) c op)]"
      by (auto simp: then_do_def)
    have "owed ?w1 x = owed w x" for x by (rule owed_frame) (simp_all add: push_input_frame)
    then have "count (owed ?w1 ((k + committed ?w1 + {#?r#}) + {#?r#})) ?r < 2 ^ 64"
      using assms(3) unfolding e [symmetric] by (simp add: fits_def)
    from accounted_decrement [OF a1 d this] same_books_committed [OF primitive_books(4) [OF d]]
    show ?thesis by (simp add: cs ac_simps)
  next
    case (Some a)
    with r obtain cs1 where d: "attach_action (anti_flow_trigger a) (DecrementAction ?r) ?w1 = Inr (cs1, w')"
      and cs: "cs = cs1 @ [CAttach (flow_trigger f) (ContributeAction ip (us_handle us) c op)]"
      by (auto simp: then_do_def)
    from a1 have "accounted (release_events ?w1) ?w1 ((k + committed ?w1 + {#?r#}) + credit_action (DecrementAction ?r))"
      by simp
    from accounted_attach [OF this d] same_books_committed [OF primitive_books(6) [OF d]]
    show ?thesis by (simp add: cs ac_simps)
  qed
qed

lemma contribute_first_accounted:
  assumes "contribute_first u t tag ip w = Inr (cs, w')"
    and "accounted (release_events w) w (k + committed w)" and "fits w (k + committed w)"
    and "invocation_id ip < length (w_invocations w)"
    and "w_invocations w ! invocation_id ip = (ip, iv)" and "length (iv_input_uses iv) < iv_size iv"
  shows "accounted (release_events w') w' (k + committed w' + todo credit_cmd cs)"
proof -
  let ?r = "invocation_ready_event ip"
  from assms(1) obtain cs0 w1 and us :: use and f cs1
    where at: "attach_action ?r (AllreduceDoneAction ip t tag) w = Inr (cs0, w1)"
      and d: "(case us_anti_in us of
              Some a \<Rightarrow> attach_action (anti_flow_trigger a) (CollectiveDecrementAction ip) (push_input_use ip u w1)
            | None \<Rightarrow> decrement_count ?r (push_input_use ip u w1)) = Inr (cs1, w')"
      and cs: "cs = cs0 @ cs1 @ [CAttach (flow_trigger f) (CollectiveDecrementAction ip)]"
    by (auto simp: contribute_first_def Let_def)
  let ?w2 = "push_input_use ip u w1"
  have b: "same_books w w1" by (rule primitive_books(6) [OF at])
  have "accounted (release_events w) w (k + committed w + credit_action (AllreduceDoneAction ip t tag))"
    using assms(2) by simp
  from accounted_attach [OF this at] same_books_committed [OF b]
  have a1: "accounted (release_events w1) w1 (k + committed w1 + todo credit_cmd cs0)" by simp
  have ow: "owed w1 (k + committed w + todo credit_cmd cs0) = owed w (k + committed w)"
    using owed_eq [OF credit.attach_waiting [OF at], of "k + committed w"] by simp
  have i: "invocation_id ip < length (w_invocations w1)" "w_invocations w1 ! invocation_id ip = (ip, iv)"
    using assms(4,5) b by (simp_all add: same_books_def)
  note c = push_input_committed [OF i assms(6), of u]
  let ?k = "k + todo credit_cmd cs0"
  have e: "k + committed w1 + todo credit_cmd cs0 = (?k + committed ?w2 + {#?r#}) + {#?r#}"
    by (simp add: ac_simps flip: c)
  have a2: "accounted (release_events ?w2) ?w2 ((?k + committed ?w2 + {#?r#}) + {#?r#})"
    using accounted_cong [OF a1, of ?w2] e by (simp add: push_input_frame)
  show ?thesis
  proof (cases "us_anti_in us")
    case None
    with d have d: "decrement_count ?r ?w2 = Inr (cs1, w')" by simp
    have "owed ?w2 x = owed w1 x" for x by (rule owed_frame) (simp_all add: push_input_frame)
    then have "count (owed ?w2 ((?k + committed ?w2 + {#?r#}) + {#?r#})) ?r < 2 ^ 64"
      using assms(3) ow same_books_committed(1) [OF b] unfolding e [symmetric] by (simp add: fits_def)
    from accounted_decrement [OF a2 d this] same_books_committed [OF primitive_books(4) [OF d]]
    show ?thesis by (simp add: cs ac_simps)
  next
    case (Some a)
    with d have d: "attach_action (anti_flow_trigger a) (CollectiveDecrementAction ip) ?w2 = Inr (cs1, w')"
      by simp
    from a2 have "accounted (release_events ?w2) ?w2 ((?k + committed ?w2 + {#?r#}) + credit_action (CollectiveDecrementAction ip))"
      by simp
    from accounted_attach [OF this d] same_books_committed [OF primitive_books(6) [OF d]]
    show ?thesis by (simp add: cs ac_simps)
  qed
qed

text \<open>
  Room for a contribution: the size fits the counter, and if the invocation exists already then it
  waits for more.
\<close>

definition room_at :: "nat \<Rightarrow> key \<Rightarrow> 'd world \<Rightarrow> bool" where
  "room_at t tag w \<longleftrightarrow>
     t < length (w_tokens w) \<longrightarrow>
       0 < tk_size (w_tokens w ! t) \<and> 2 * tk_size (w_tokens w ! t) < 2 ^ 64
       \<and> (case tk_collectives (w_tokens w ! t) tag of
             None \<Rightarrow> True
           | Some ip \<Rightarrow> length (iv_input_uses (snd (w_invocations w ! invocation_id ip)))
                        < iv_size (snd (w_invocations w ! invocation_id ip)))"

lemma make_invocation_accounted:
  assumes "make_invocation n w = (ip, w')" and "0 < n" "2 * n < 2 ^ 64"
    and "accounted (release_events w) w (k + committed w)"
  shows "accounted (release_events w') w' (k + committed w')"
    and "invocation_id ip < length (w_invocations w')"
    and "w_invocations w' ! invocation_id ip = (ip, \<lparr>iv_input_uses = [], iv_size = n, iv_owned = True\<rparr>)"
    and "owed w' (k + committed w') = owed w (k + committed w) + replicate_mset (2 * n) (invocation_ready_event ip)"
    and "invocation_ready_event ip = length (w_events w)"
proof -
  obtain e w1 where e: "new_event (of_nat (2 * n)) w = (e, w1)" by (metis surj_pair)
  let ?iv = "\<lparr>iv_input_uses = [], iv_size = n, iv_owned = True\<rparr>"
  from assms(1) e have ip: "ip = InvocationPtr (length (w_invocations w1)) e"
    and w': "w' = w1\<lparr>w_invocations := w_invocations w1 @ [(ip, ?iv)]\<rparr>"
    by (auto simp: make_invocation_def Let_def)
  have b: "same_books w w1" by (rule primitive_books(1) [OF e])
  have u: "unat (of_nat (2 * n) :: u64) = 2 * n" using assms(3) by (rule unat_u64_of_nat)
  have n0: "of_nat (2 * n) \<noteq> (0 :: u64)" using u assms(2) by (metis unat_0 mult_is_0 not_gr_zero zero_neq_numeral)
  have "reserved_counts w' = reserved_counts w1 + replicate_mset (2 * n) e"
    by (simp add: reserved_counts_def w' ip)
  then have c: "committed w' = committed w + replicate_mset (2 * n) e"
    using same_books_committed(1) [OF b]
    by (simp add: committed_def held_def unpublished_def w' ac_simps cong: if_cong)
  have r: "release_events w' = release_events w"
    using same_books_committed(2) [OF b] by (simp add: release_events_def w')
  have "accounted (release_events w) w1 (k + committed w + replicate_mset (2 * n) e)"
    using accounted_new_event [OF assms(4) e n0] u by simp
  then have "accounted (release_events w) w' (k + committed w + replicate_mset (2 * n) e)"
    by (rule accounted_cong) (simp_all add: w')
  then show "accounted (release_events w') w' (k + committed w')" by (simp add: r c ac_simps)
  show "invocation_id ip < length (w_invocations w')" "w_invocations w' ! invocation_id ip = (ip, ?iv)"
    by (simp_all add: w' ip)
  have "waiting credit_op credit_action w' = waiting credit_op credit_action w"
    using credit.new_event_waiting [OF e] credit.waiting_cong [of w' w1] by (simp add: w')
  then show "owed w' (k + committed w') = owed w (k + committed w) + replicate_mset (2 * n) (invocation_ready_event ip)"
    by (simp add: owed_def c ip ac_simps)
  show "invocation_ready_event ip = length (w_events w)" using new_event_frame [OF e] ip by simp
qed

lemma set_collectives_frame [simp]:
  "w_events (set_collectives t f w) = w_events w"
  "w_workers (set_collectives t f w) = w_workers w"
  "w_invocations (set_collectives t f w) = w_invocations w"
  "same_books w (set_collectives t f w)"
  by (simp_all add: set_collectives_def Let_def same_books_def)

lemma allreduce_use_accounted:
  assumes "allreduce_use u d tag w = Inr (cs, w')"
    and "accounted (release_events w) w (k + committed w)" and "fits w (k + committed w)" and "tables_ok w"
    and "\<And>t. token_of (cd_collection d) w = Inr t \<Longrightarrow> room_at t tag w"
    and "\<And>e. e \<ge> length (w_events w) \<Longrightarrow> e \<notin># owed w (k + committed w)"
  shows "accounted (release_events w') w' (k + committed w' + todo credit_cmd cs)"
proof -
  from assms(1) obtain t where t: "token_of (cd_collection d) w = Inr t" and tl: "t < length (w_tokens w)"
    by (auto simp: allreduce_use_def)
  let ?tk = "w_tokens w ! t"
  obtain ip w1 where m: "make_invocation (tk_size ?tk) w = (ip, w1)" by (metis surj_pair)
  from assms(5) [OF t] tl have room: "0 < tk_size ?tk" "2 * tk_size ?tk < 2 ^ 64"
    by (simp_all add: room_at_def)
  show ?thesis
  proof (cases "tk_collectives ?tk tag")
    case (Some found)
    with assms(1) t m have c: "contribute_more u (reduce_operation d) found w = Inr (cs, w')"
      by (auto simp: allreduce_use_def evaluate_or_evaluate_first_def)
    from assms(4) tl Some have i: "invocation_id found < length (w_invocations w)"
      "fst (w_invocations w ! invocation_id found) = found"
      unfolding tables_ok_def by (meson nth_mem)+
    from assms(5) [OF t] tl Some
    have "length (iv_input_uses (snd (w_invocations w ! invocation_id found)))
        < iv_size (snd (w_invocations w ! invocation_id found))"
      by (simp add: room_at_def)
    from contribute_more_accounted [OF c assms(2,3) i(1) _ this] i(2) show ?thesis
      by (metis prod.collapse)
  next
    case None
    let ?w2 = "set_collectives t (\<lambda>_. (tk_collectives ?tk)(tag \<mapsto> ip)) w1"
    from None assms(1) t m have c: "contribute_first u t tag ip ?w2 = Inr (cs, w')"
      by (auto simp: allreduce_use_def evaluate_or_evaluate_first_def)
    note v = make_invocation_accounted [OF m room assms(2)]
    have b: "committed ?w2 = committed w1" "release_events ?w2 = release_events w1"
      by (rule same_books_committed, simp)+
    have "accounted (release_events w1) ?w2 (k + committed w1)" using v(1) by (rule accounted_cong) simp_all
    then have a2: "accounted (release_events ?w2) ?w2 (k + committed ?w2)" using b by simp
    have "owed ?w2 x = owed w1 x" for x by (rule owed_frame) simp_all
    then have o: "owed ?w2 (k + committed ?w2) = owed w (k + committed w)
        + replicate_mset (2 * tk_size ?tk) (invocation_ready_event ip)"
      using v(4) b by simp
    have "count (owed ?w2 (k + committed ?w2)) e < 2 ^ 64" for e
    proof (cases "e = invocation_ready_event ip")
      case True
      with assms(6) [of e] v(5) have "count (owed w (k + committed w)) e = 0"
        by (simp add: count_eq_zero_iff)
      with o True room show ?thesis by simp
    next
      case False
      with o assms(3) show ?thesis by (simp add: fits_def)
    qed
    then have "fits ?w2 (k + committed ?w2)" by (simp add: fits_def)
    from contribute_first_accounted [OF c a2 this] v(2,3) room show ?thesis by simp
  qed
qed

lemma contribute_keeps:
  "run_contribute ip h c op w = Inr (cs, w') \<Longrightarrow>
     keeps w (credit_action (ContributeAction ip h c op)) w' (todo credit_cmd cs)"
  "run_contribute_after_anti ip h c op w = Inr (cs, w') \<Longrightarrow>
     keeps w (credit_action (ContributeAfterAntiAction ip h c op)) w' (todo credit_cmd cs)"
  "run_contribute_reduce E ip h c op w = Inr (cs, w') \<Longrightarrow>
     keeps w (credit_action (ContributeReduceAction ip h c op)) w' (todo credit_cmd cs)"
  "run_collective_decrement ip w = Inr (cs, w') \<Longrightarrow>
     keeps w (credit_action (CollectiveDecrementAction ip)) w' (todo credit_cmd cs)"
proof -
  show "keeps w (credit_action (ContributeAction ip h c op)) w' (todo credit_cmd cs)"
    if "run_contribute ip h c op w = Inr (cs, w')"
    using that keeps_attach by (fastforce simp: run_contribute_def split: option.splits)
  show "keeps w (credit_action (ContributeAfterAntiAction ip h c op)) w' (todo credit_cmd cs)"
    if "run_contribute_after_anti ip h c op w = Inr (cs, w')"
    using that keeps_attach by (fastforce simp: run_contribute_after_anti_def)
  show "keeps w (credit_action (ContributeReduceAction ip h c op)) w' (todo credit_cmd cs)"
    if "run_contribute_reduce E ip h c op w = Inr (cs, w')"
    using that by (auto simp: run_contribute_reduce_def same_books_def intro!: keeps_frame)
  show "keeps w (credit_action (CollectiveDecrementAction ip)) w' (todo credit_cmd cs)"
    if "run_collective_decrement ip w = Inr (cs, w')"
    using that by (auto simp: run_collective_decrement_def)
qed

lemma allreduce_done_keeps:
  assumes "run_allreduce_done E ip t tag w = Inr (cs, w')"
  shows "keeps w {#} w' (todo credit_cmd cs)"
proof -
  from assms obtain us m where cs: "cs = map CRelease us @ [CEraseCollective t tag ip]"
    and w': "w' = w\<lparr>w_mem := m\<rparr>"
    by (auto simp: run_allreduce_done_def Let_def)
  have "todo credit_cmd (map CRelease us) = {#}" by (rule todo_no_credit) simp
  moreover have "keeps w {#} w' {#}" unfolding w' by (rule keeps_frame) (simp_all add: same_books_def)
  ultimately show ?thesis by (simp add: cs)
qed

lemma erase_collective_accounted:
  assumes "erase_collective t tag ip w = Inr (cs, w')"
    and "accounted (release_events w) w (k + committed w)"
  shows "accounted (release_events w') w' (k + committed w' + todo credit_cmd cs)"
proof -
  let ?w1 = "set_collectives t (erase tag) w"
  from assms(1) have cs: "cs = []" and w': "w' = update_invocation ip (\<lambda>iv. iv\<lparr>iv_owned := False\<rparr>) ?w1"
    by (auto simp: erase_collective_def)
  let ?g = "\<lambda>(ip, iv). replicate_mset (2 * iv_size iv - 2 * length (iv_input_uses iv)) (invocation_ready_event ip)"
  have "map ?g (w_invocations w') = map ?g (w_invocations w)"
    by (cases "invocation_id ip < length (w_invocations w)")
      (auto simp: w' update_invocation_def Let_def map_update list_update_same_conv list_update_beyond
        split: prod.splits)
  then have "reserved_counts w' = reserved_counts w" by (simp add: reserved_counts_def)
  moreover have "w_uses w' = w_uses w" "w_registered w' = w_registered w" "w_entries w' = w_entries w"
    by (simp_all add: w' update_invocation_def Let_def set_collectives_def)
  ultimately have c: "committed w' = committed w" "release_events w' = release_events w"
    by (simp_all add: committed_def held_def unpublished_def release_events_def cong: if_cong)
  have "accounted (release_events w) w' (k + committed w)"
    using assms(2) by (rule accounted_cong) (simp_all add: w' update_invocation_def Let_def)
  then show ?thesis by (simp add: c cs)
qed

lemma reduce_keeps:
  "reduce_collection_use ui uo d w = Inr (cs, w') \<Longrightarrow> keeps w {#} w' (todo credit_cmd cs)"
  "run_reduce_in_ready ui uo op n c w = Inr (cs, w') \<Longrightarrow> keeps w {#} w' (todo credit_cmd cs)"
  "run_reduce_anti_ready E ui uo op n c w = Inr (cs, w') \<Longrightarrow> keeps w {#} w' (todo credit_cmd cs)"
proof -
  show "keeps w {#} w' (todo credit_cmd cs)" if "reduce_collection_use ui uo d w = Inr (cs, w')"
    using that keeps_attach by (fastforce simp: reduce_collection_use_def)
  show "keeps w {#} w' (todo credit_cmd cs)" if "run_reduce_in_ready ui uo op n c w = Inr (cs, w')"
    using that keeps_attach by (fastforce simp: run_reduce_in_ready_def)
  show "keeps w {#} w' (todo credit_cmd cs)" if "run_reduce_anti_ready E ui uo op n c w = Inr (cs, w')"
    using that by (auto simp: run_reduce_anti_ready_def same_books_def intro!: keeps_frame)
qed

section \<open>The work loop and the threads\<close>

lemma set_ready_accounted:
  assumes "accounted R w k" and "i < length (w_workers w)" and "wk_ready (w_workers w ! i) = op # ops"
  shows "accounted R (set_ready i ops w) (k + credit_op op)" and "same_books w (set_ready i ops w)"
proof -
  have "owed (set_ready i ops w) (k + credit_op op) = owed w k"
    using credit.set_ready_waiting [OF assms(2,3)] by (simp add: owed_def ac_simps)
  moreover have "w_events (set_ready i ops w) = w_events w" by (simp add: set_ready_def update_worker_def)
  ultimately show "accounted R (set_ready i ops w) (k + credit_op op)"
    using assms(1) by (simp add: accounted_def)
  show "same_books w (set_ready i ops w)" by (simp add: set_ready_def update_worker_def same_books_def)
qed

lemma add_dorment_frame [simp]:
  "w_events (add_dorment d w) = w_events w" "w_workers (add_dorment d w) = w_workers w"
  "same_books w (add_dorment d w)"
  by (simp_all add: add_dorment_def same_books_def)

text \<open>Taking an operation from a queue and running it.\<close>

lemma take_and_run_accounted:
  assumes "run_operation me op (add_dorment d (set_ready i ops w)) = Inr (b, cs, w')"
    and "i < length (w_workers w)" "wk_ready (w_workers w ! i) = op # ops"
    and "accounted (release_events w) w (k + committed w)"
  shows "accounted (release_events w') w' (k + committed w' + todo credit_cmd cs)"
proof -
  let ?w1 = "add_dorment d (set_ready i ops w)"
  note a = set_ready_accounted [OF assms(4,2,3)]
  have "same_books w ?w1" using a(2) add_dorment_frame(3) by (rule same_books_trans)
  note c = same_books_committed [OF this]
  have "accounted (release_events w) ?w1 (k + committed w + credit_op op)"
    using a(1) by (rule accounted_cong) simp_all
  then have "accounted (release_events ?w1) ?w1 (k + committed ?w1 + credit_op op)" by (simp add: c)
  from run_operation_accounted [OF assms(1) this] show ?thesis .
qed

lemma work_loop_round_accounted:
  assumes "work_loop_round E me drawn w = Inr (cs, w')"
    and "accounted (release_events w) w (k + committed w)"
  shows "accounted (release_events w') w' (k + committed w' + todo credit_cmd cs)"
proof -
  from assms(1) have me: "me < length (w_workers w)" by (auto simp: work_loop_round_def worker_at_def)
  let ?ops = "wk_ready (w_workers w ! me)"
  show ?thesis
  proof (cases ?ops)
    case Nil
    with assms(1) me obtain cs1 where s: "try_to_steal_work E me drawn w = Inr (cs1, w')"
      and cs: "cs = cs1 @ [CLoop]"
      by (auto simp: work_loop_round_def worker_at_def then_do_def)
    show ?thesis
    proof (cases "w' = w \<and> cs1 = []")
      case True
      with assms(2) cs show ?thesis by simp
    next
      case False
      with s obtain v op rest cs2 where v: "v < length (w_workers w)"
        and q: "wk_ready (w_workers w ! v) = op # rest"
        and r: "run_ignoring_message me op (add_dorment (- 1) (set_ready v rest w)) = Inr (cs2, w')"
        and cs1: "cs1 = cs2 @ [CDorment]"
        by (cases "wk_ready (w_workers w ! nat (steal_from drawn me (length (w_workers w))))")
          (auto simp: try_to_steal_work_def worker_index_def then_do_def split: if_splits prod.splits)
      from r obtain b where "run_operation me op (add_dorment (- 1) (set_ready v rest w)) = Inr (b, cs2, w')"
        by (auto simp: run_ignoring_message_def)
      from take_and_run_accounted [OF this v q assms(2)] show ?thesis by (simp add: cs cs1)
    qed
  next
    case (Cons op rest)
    with assms(1) me obtain b cs1 w1
      where r: "run_operation me op (add_dorment (- 1) (set_ready me rest w)) = Inr (b, cs1, w1)"
        and e: "if b then cs = [] \<and> w' = add_dorment 1 (update_worker me (\<lambda>wk. wk\<lparr>wk_stopped := True\<rparr>) w1)
               else cs = cs1 @ [CDorment, CLoop] \<and> w' = w1"
      by (auto simp: work_loop_round_def worker_at_def split: if_splits)
    note a = take_and_run_accounted [OF r me Cons assms(2)]
    show ?thesis
    proof (cases b)
      case False
      with e a show ?thesis by auto
    next
      case True
      with r have "cs1 = []" by (auto simp: run_operation_def split: ready_op.splits if_splits message_kind.splits)
      let ?w2 = "update_worker me (\<lambda>wk. wk\<lparr>wk_stopped := True\<rparr>) w1"
      have "keeps w1 {#} ?w2 {#}" by (rule keeps_update_worker) simp
      moreover have "keeps ?w2 {#} w' {#}"
        using True e by (auto intro!: keeps_frame)
      ultimately have "keeps w1 {#} w' {#}" by (rule keeps_trans)
      from keeps_committed [OF this] a \<open>cs1 = []\<close> True e show ?thesis by auto
    qed
  qed
qed

lemma emplace_all_keeps:
  "emplace_all is (SpecialMessage m) w = Inr w' \<Longrightarrow> keeps w {#} w' {#}"
proof (induction "is" arbitrary: w)
  case Nil
  then show ?case by simp
next
  case (Cons i "is")
  then obtain w1 where e: "emplace_ready i (SpecialMessage m) w = Inr w1"
    and r: "emplace_all is (SpecialMessage m) w1 = Inr w'" by auto
  from keeps_emplace [OF e] have "keeps w {#} w1 {#}" by simp
  from this Cons.IH [OF r] show ?case by (rule keeps_trans)
qed

lemma shutdown_keeps:
  "run_shutdown_action w = Inr (cs, w') \<Longrightarrow> keeps w {#} w' (todo credit_cmd cs)"
  "run_region_shutdown_action w = Inr (cs, w') \<Longrightarrow> keeps w {#} w' (todo credit_cmd cs)"
proof -
  show "keeps w {#} w' (todo credit_cmd cs)" if "run_shutdown_action w = Inr (cs, w')"
    using that emplace_all_keeps by (fastforce simp: run_shutdown_action_def)
  assume "run_region_shutdown_action w = Inr (cs, w')"
  then obtain w1 w2 where e: "emplace_ready 0 (CallableOperation JoinWorkers False) w = Inr w1"
    and a: "emplace_all [0..<length (w_workers w1)] (SpecialMessage AllTasksDone) w1 = Inr w2"
    and "cs = []" and w': "w' = w2\<lparr>w_called := w_called w2 @ w_callbacks w2\<rparr>"
    by (auto simp: run_region_shutdown_action_def)
  moreover have "keeps w {#} w1 {#}" using keeps_emplace [OF e] by simp
  moreover note emplace_all_keeps [OF a]
  moreover have "keeps w2 {#} w' {#}" unfolding w' by (rule keeps_frame) (simp_all add: same_books_def)
  ultimately show "keeps w {#} w' (todo credit_cmd cs)" by (auto intro: keeps_trans)
qed

lemma spin_up_keeps:
  assumes "spin_up_worker_threads w = Inr (cs, w')"
  shows "keeps w {#} w' (todo credit_cmd cs)"
proof -
  have "map wk_ready (take 1 ws @ map (\<lambda>wk. wk\<lparr>wk_thread := True\<rparr>) (drop 1 ws)) = map wk_ready ws" for ws :: "worker list"
    by (cases ws) simp_all
  then show ?thesis
    using assms by (auto simp: spin_up_worker_threads_def same_books_def intro!: keeps_frame)
qed

section \<open>Every command\<close>

text \<open>What the frontend has to respect, beyond the claims: an entry is published once, and a
  collective gets no more contributions than it has room for.\<close>

fun api_room :: "api \<Rightarrow> 'd world \<Rightarrow> bool" where
  "api_room (PublishUse u d) w \<longleftrightarrow>
     (case (token_of (pd_collection d) w, published_key u d w) of
        (Inr t, Inr key) \<Rightarrow> unpublished_at t key w
      | _ \<Rightarrow> True)"
| "api_room (AllreduceUse u d tag) w \<longleftrightarrow>
     (case token_of (cd_collection d) w of Inr t \<Rightarrow> room_at t tag w | Inl _ \<Rightarrow> True)"
| "api_room _ w \<longleftrightarrow> True"

text \<open>The uses that have to be registered for a command, and what has to be null to register one.\<close>

fun needs_registered :: "cmd \<Rightarrow> nat set" where
  "needs_registered (CRegisterIn u) = {u}"
| "needs_registered (CRegisterAntiIn u) = {u}"
| "needs_registered (CRegisterOut u) = {u}"
| "needs_registered (CRegisterAntiOut u) = {u}"
| "needs_registered (CRelease u) = {u}"
| "needs_registered (CApi (ReleaseUse u)) = {u}"
| "needs_registered _ = {}"

fun registers_fresh :: "cmd \<Rightarrow> 'd world \<Rightarrow> bool" where
  "registers_fresh (CApi (RegisterUse u)) w \<longleftrightarrow>
     u \<notin> w_registered w \<and> us_anti_in (w_uses w ! u) = None \<and> us_out (w_uses w ! u) = None
     \<and> us_anti_out (w_uses w ! u) = None"
| "registers_fresh _ w \<longleftrightarrow> True"

lemma run_action_accounted:
  assumes "run_action E me a w = Inr (cs, w')"
    and "accounted (release_events w) w (k + committed w + credit_action a)"
    and "fits w (k + committed w + credit_action a)"
  shows "accounted (release_events w') w' (k + committed w' + todo credit_cmd cs)"
proof (cases a)
  case (DecrementAction e)
  with assms decrement_committed show ?thesis by (simp add: run_action_def)
next
  case (EnqueueAction op)
  with assms keeps_committed [OF run_enqueue_keeps] show ?thesis by (simp add: run_action_def)
next
  case (FetchedAction en f)
  with assms have "run_fetched en f w = Inr (cs, w')" by (simp add: run_action_def)
  from keeps_committed [OF run_fetched_keeps [OF this]] assms(2) FetchedAction show ?thesis by simp
next
  case (PublishCopyAction en source c u)
  with assms have "run_publish_copy E en source c u w = Inr (cs, w')" by (simp add: run_action_def)
  from keeps_committed [OF run_publish_copy_keeps [OF this]] assms(2) PublishCopyAction show ?thesis by simp
next
  case (CollectiveDecrementAction ip)
  with assms have "run_collective_decrement ip w = Inr (cs, w')" by (simp add: run_action_def)
  from keeps_committed [OF contribute_keeps(4) [OF this]] assms(2) CollectiveDecrementAction
  show ?thesis by simp
next
  case (ContributeAction ip h c op)
  with assms have "run_contribute ip h c op w = Inr (cs, w')" by (simp add: run_action_def)
  from keeps_committed [OF contribute_keeps(1) [OF this]] assms(2) ContributeAction show ?thesis by simp
next
  case (ContributeAfterAntiAction ip h c op)
  with assms have "run_contribute_after_anti ip h c op w = Inr (cs, w')" by (simp add: run_action_def)
  from keeps_committed [OF contribute_keeps(2) [OF this]] assms(2) ContributeAfterAntiAction
  show ?thesis by simp
next
  case (ContributeReduceAction ip h c op)
  with assms have "run_contribute_reduce E ip h c op w = Inr (cs, w')" by (simp add: run_action_def)
  from keeps_committed [OF contribute_keeps(3) [OF this]] assms(2) ContributeReduceAction
  show ?thesis by simp
next
  case (AllreduceDoneAction ip t tag)
  with assms have "run_allreduce_done E ip t tag w = Inr (cs, w')" by (simp add: run_action_def)
  from keeps_committed [OF allreduce_done_keeps [OF this]] assms(2) AllreduceDoneAction show ?thesis by simp
next
  case (ReduceInReadyAction ui uo op n c)
  with assms have "run_reduce_in_ready ui uo op n c w = Inr (cs, w')" by (simp add: run_action_def)
  from keeps_committed [OF reduce_keeps(2) [OF this]] assms(2) ReduceInReadyAction show ?thesis by simp
next
  case (ReduceAntiReadyAction ui uo op n c)
  with assms have "run_reduce_anti_ready E ui uo op n c w = Inr (cs, w')" by (simp add: run_action_def)
  from keeps_committed [OF reduce_keeps(3) [OF this]] assms(2) ReduceAntiReadyAction show ?thesis by simp
next
  case ShutdownAction
  with assms have "run_shutdown_action w = Inr (cs, w')" by (simp add: run_action_def)
  from keeps_committed [OF shutdown_keeps(1) [OF this]] assms(2) ShutdownAction show ?thesis by simp
next
  case RegionShutdownAction
  with assms have "run_region_shutdown_action w = Inr (cs, w')" by (simp add: run_action_def)
  from keeps_committed [OF shutdown_keeps(2) [OF this]] assms(2) RegionShutdownAction show ?thesis by simp
qed

lemma fresh_not_owed:
  assumes "accounted R w k" and "e \<ge> length (w_events w)" and "e \<notin> R"
  shows "e \<notin># owed w k"
  using assms by (auto simp: accounted_def balanced_event_def)

lemma run_api_accounted:
  assumes "run_api E me a w = Inr (cs, w')"
    and "accounted (release_events w) w (k + committed w)" and "fits w (k + committed w)"
    and "tables_ok w" and "api_room a w" and "registers_fresh (CApi a) w"
    and "needs_registered (CApi a) \<subseteq> w_registered w"
    and "\<And>e. e \<in> release_events w \<Longrightarrow> e < length (w_events w)"
  shows "accounted (release_events w') w' (k + committed w' + todo credit_cmd cs)"
proof (cases a)
  case (RegisterUse u)
  with assms register_use_accounted [of u w cs w'] show ?thesis
    by (simp add: run_api_def released_triggers_def)
next
  case (ReleaseUse u)
  with assms release_use_accounted [of u w cs w'] show ?thesis by (simp add: run_api_def)
next
  case (RegisterTask t)
  with assms(1) have "register_task me t w = Inr (cs, w')" by (simp add: run_api_def)
  from keeps_committed [OF register_task_keeps [OF this]] assms(2) show ?thesis by simp
next
  case (RegisterTaskCollection tc)
  with assms(1) have "register_task_collection tc w = Inr (cs, w')" by (simp add: run_api_def)
  from keeps_committed [OF register_task_collection_keeps [OF this]] assms(2) show ?thesis by simp
next
  case (PublishUse u d)
  with assms(1) have "publish_use u d w = Inr (cs, w')" by (simp add: run_api_def)
  moreover have "unpublished_at t key w"
    if "token_of (pd_collection d) w = Inr t" "published_key u d w = Inr key" for t key
    using assms(5) PublishUse that by (cases key) simp
  ultimately show ?thesis using publish_use_accounted [OF _ assms(2,4)] by simp
next
  case (AllreduceUse u d tag)
  with assms(1) have "allreduce_use u d tag w = Inr (cs, w')" by (simp add: run_api_def)
  moreover have "e \<notin># owed w (k + committed w)" if "e \<ge> length (w_events w)" for e
    using fresh_not_owed [OF assms(2) that] assms(8) [of e] that by fastforce
  moreover have "room_at t tag w" if "token_of (cd_collection d) w = Inr t" for t
    using assms(5) AllreduceUse that by simp
  ultimately show ?thesis
    using allreduce_use_accounted [OF _ assms(2,3,4)] by simp
next
  case (ReduceCollectionUse ui uo d)
  with assms(1) have "reduce_collection_use ui uo d w = Inr (cs, w')" by (simp add: run_api_def)
  from keeps_committed [OF reduce_keeps(1) [OF this]] assms(2) show ?thesis by simp
next
  case (UserCode u code)
  with assms(1) obtain m where "cs = []" and w': "w' = w\<lparr>w_mem := m\<rparr>"
    by (auto simp: run_api_def user_code_def)
  moreover have "keeps w {#} w' {#}" unfolding w' by (rule keeps_frame) (simp_all add: same_books_def)
  ultimately show ?thesis using keeps_committed [of w "{#}" w' "{#}" k] assms(2) by simp
qed

text \<open>
  The law of the whole machine: whatever command runs, every event that is not a release event goes
  on counting its credits.
\<close>

lemma step_accounted:
  assumes "step E me drawn c w = Inr (cs, w')"
    and "accounted (release_events w) w (k + committed w + credit_cmd c)"
    and "fits w (k + committed w + credit_cmd c)"
    and "tables_ok w" and "chain_ok (w_uses w) c"
    and "needs_registered c \<subseteq> w_registered w" and "registers_fresh c w"
    and "\<And>a. c = CApi a \<Longrightarrow> api_room a w"
    and "\<And>e. e \<in> release_events w \<Longrightarrow> e < length (w_events w)"
  shows "accounted (release_events w') w' (k + committed w' + todo credit_cmd cs)"
proof -
  have keep: ?thesis if "keeps w (credit_cmd c) w' (todo credit_cmd cs)"
    using keeps_committed [OF that assms(2)] .
  show ?thesis
  proof (cases c)
    case (CDecrement e)
    with assms(1-3) decrement_committed show ?thesis by (simp add: step_def)
  next
    case (CAction a)
    with assms(1-3) run_action_accounted [of E me a w cs w'] show ?thesis by (simp add: step_def)
  next
    case (CApi a)
    with assms run_api_accounted [of E me a w cs w'] show ?thesis by (simp add: step_def)
  next
    case (CRegisterIn u)
    with assms(1,2) register_in_accounted [of E u w cs w'] show ?thesis by (simp add: step_def)
  next
    case (CRegisterAntiIn u)
    with assms(1,2,5,6) anti_in_accounted [of u w cs w'] show ?thesis by (simp add: step_def)
  next
    case (CRegisterOut u)
    with assms(1,2,5,6) out_accounted [of u w cs w'] show ?thesis by (simp add: step_def)
  next
    case (CRegisterAntiOut u)
    with assms(1,2,4,5,6) anti_out_accounted [of u w cs w'] show ?thesis by (simp add: step_def)
  next
    case (CRelease u)
    with assms(1,2,6) release_use_accounted [of u w cs w'] show ?thesis by (simp add: step_def)
  next
    case (CAliasFlows h e)
    with assms(1) alias_flows_keeps [of me h e w cs w'] keep show ?thesis by (simp add: step_def)
  next
    case (CAddDependency p e)
    with assms(1) add_dependency_keeps [of p e w cs w'] keep show ?thesis by (simp add: step_def)
  next
    case (CTaskDependency p d)
    with assms(1) task_dependency_keeps [of p d w cs w'] keep show ?thesis by (simp add: step_def)
  next
    case (CTaskAntiDependency p d)
    with assms(1) task_anti_dependency_keeps [of p d w cs w'] keep show ?thesis by (simp add: step_def)
  next
    case (CEnqueueOrRun p op i allow)
    with assms(1) enqueue_or_run_keeps [of me p op i allow w cs w'] keep show ?thesis by (simp add: step_def)
  next
    case (CStackRun op)
    with assms(1) stack_run_keeps [of me op w cs w'] keep show ?thesis by (simp add: step_def)
  next
    case CStackExit
    with assms(1) stack_exit_keeps [of me w cs w'] keep show ?thesis by (simp add: step_def)
  next
    case (CRun op)
    with assms(1,2) run_operation_accounted [of me op w] show ?thesis
      by (auto simp: step_def run_ignoring_message_def)
  next
    case (CTaskFinished old)
    with assms(1-3) task_finished_accounted [of me old w cs w'] show ?thesis by (simp add: step_def)
  next
    case (CCreateTasks name ts i)
    with assms(1-3) create_tasks_accounted [of me name ts i w cs w'] show ?thesis by (simp add: step_def)
  next
    case (CAttach e a)
    with assms(1) keeps_attach [of e a w cs w'] keep show ?thesis by (simp add: step_def)
  next
    case (CEraseCollective t tag ip)
    with assms(1,2) erase_collective_accounted [of t tag ip w cs w'] show ?thesis by (simp add: step_def)
  next
    case CSpinUp
    with assms(1) spin_up_keeps [of w cs w'] keep show ?thesis by (simp add: step_def)
  next
    case CLoopStart
    with assms(1) have cs: "cs = [CLoop]" and w': "w' = add_dorment 1 w"
      by (auto simp: step_def work_loop_start_def)
    have "keeps w {#} w' {#}" unfolding w' by (rule keeps_frame) simp_all
    with keep CLoopStart cs show ?thesis by simp
  next
    case CLoop
    with assms(1,2) work_loop_round_accounted [of E me drawn w cs w'] show ?thesis by (simp add: step_def)
  next
    case CDorment
    with assms(1) have cs: "cs = []" and w': "w' = add_dorment 1 w" by (auto simp: step_def)
    have "keeps w {#} w' {#}" unfolding w' by (rule keeps_frame) simp_all
    with keep CDorment cs show ?thesis by simp
  next
    case (CJoin i)
    with assms(1) have "cs = []" "w' = w" by (auto simp: step_def join_worker_def)
    with CJoin assms(2) show ?thesis by simp
  qed
qed

end
