(* ===== verification/Claims.thy ===== *)
theory Claims
  imports CommAccounting
begin

text \<open>
  Who may still touch a use: while a use is being registered, waits to be published, takes part in a
  collective or is about to be released, exactly one place of the machine says so. This is what
  keeps the accounts of \<open>Accounting\<close> from being upset by a use that is released twice.
\<close>

section \<open>Weights that the plumbing does not have\<close>

locale quiet = tally of_op of_action of_cmd
  for of_op :: "ready_op \<Rightarrow> 'm :: cancel_comm_monoid_add"
    and of_action :: "action \<Rightarrow> 'm" and of_cmd :: "cmd \<Rightarrow> 'm" +
  assumes quiet_op: "of_op op = 0"
    and quiet_actions [simp]:
      "of_action (DecrementAction e) = 0" "of_action (EnqueueAction op) = 0" "of_action (FetchedAction en f) = 0"
      "of_action (CollectiveDecrementAction ip) = 0" "of_action (ContributeAction ip h c n) = 0"
      "of_action (ContributeAfterAntiAction ip h c n) = 0" "of_action (ContributeReduceAction ip h c n) = 0"
      "of_action ShutdownAction = 0" "of_action RegionShutdownAction = 0"
    and quiet_cmds [simp]:
      "of_cmd (CDecrement e) = 0" "of_cmd (CApi x) = 0" "of_cmd (CAliasFlows e e') = 0"
      "of_cmd (CAddDependency e e') = 0" "of_cmd (CTaskDependency e d) = 0" "of_cmd (CTaskAntiDependency e d) = 0"
      "of_cmd (CEnqueueOrRun e op i b) = 0" "of_cmd (CStackRun op) = 0" "of_cmd CStackExit = 0"
      "of_cmd (CRun op) = 0" "of_cmd (CTaskFinished old) = 0" "of_cmd (CCreateTasks tag ts i) = 0"
      "of_cmd (CEraseCollective t tag ip) = 0" "of_cmd CSpinUp = 0" "of_cmd CLoopStart = 0"
      "of_cmd CLoop = 0" "of_cmd CDorment = 0" "of_cmd (CJoin j) = 0"
    and attach_cmd [simp]: "of_cmd (CAttach e a) = of_action a"
    and reduce_actions [simp]:
      "of_action (ReduceAntiReadyAction ui uo k n c) = of_action (ReduceInReadyAction ui uo k n c)"
    and chain_cmds [simp]:
      "of_cmd (CRegisterAntiIn u) = of_cmd (CRegisterIn u)" "of_cmd (CRegisterOut u) = of_cmd (CRegisterIn u)"
      "of_cmd (CRegisterAntiOut u) = of_cmd (CRegisterIn u)"
begin

abbreviation W :: "'d world \<Rightarrow> 'm" where "W w \<equiv> waiting of_op of_action w"

abbreviation C :: "cmd list \<Rightarrow> 'm" where "C cs \<equiv> todo of_cmd cs"

lemma W_eq: "W w = sum_list (map (\<lambda>ev. sum_list (map of_action (ev_actions ev))) (w_events w))"
proof -
  have "of_op = (\<lambda>_. 0)" by (rule ext) (rule quiet_op)
  then show ?thesis by (simp add: waiting_def)
qed

lemma W_attach: "attach_action e a w = Inr (cs, w') \<Longrightarrow> W w' + C cs = W w + of_action a"
  by (rule attach_waiting)

lemma W_attach_decrement: "attach_decrement_of e e' w = Inr (cs, w') \<Longrightarrow> W w' + C cs = W w"
  unfolding attach_decrement_of_def by (drule attach_waiting) simp

lemma W_decrement: "decrement_count e w = Inr (cs, w') \<Longrightarrow> W w' + C cs = W w"
  by (rule decrement_waiting)

lemma W_make_flow: "make_flow c n w = Inr (f, w') \<Longrightarrow> W w' = W w"
proof -
  assume m: "make_flow c n w = Inr (f, w')"
  obtain e w1 where n: "new_event n w = (e, w1)" by (metis surj_pair)
  with m have "w_events w' = w_events w1" by (auto simp: make_flow_def)
  with new_event_waiting [OF n] show ?thesis by (simp add: W_eq)
qed

lemma W_make_anti_flow: "make_anti_flow n w = Inr (f, w') \<Longrightarrow> W w' = W w"
proof -
  assume m: "make_anti_flow n w = Inr (f, w')"
  obtain e w1 where n: "new_event n w = (e, w1)" by (metis surj_pair)
  with m have "w_events w' = w_events w1" by (auto simp: make_anti_flow_def)
  with new_event_waiting [OF n] show ?thesis by (simp add: W_eq)
qed

lemma W_make_cblk: "make_cblk cb w = (c, w') \<Longrightarrow> W w' = W w"
  by (auto simp: make_cblk_def W_eq)

lemma W_update_use [simp]: "W (update_use u f w) = W w"
  by (simp add: W_eq)

lemma W_increment: "increment_count e w = Inr w' \<Longrightarrow> W w' = W w"
  by (rule increment_waiting)

lemma C_zero: "(\<And>x. of_cmd (f x) = 0) \<Longrightarrow> C (map f xs) = 0"
  by (induction xs) simp_all

text \<open>The in flow.\<close>

lemma W_in_flow:
  "in_flow_next rel w = Inr (f, cs, w') \<Longrightarrow> W w' + C cs = W w"
  "in_flow_of_cblk cm w = Inr (f, cs, w') \<Longrightarrow> W w' + C cs = W w"
  "in_flow_indexed_local E rel w = Inr (f, cs, w') \<Longrightarrow> W w' + C cs = W w"
  by (auto simp: in_flow_next_def in_flow_of_cblk_def in_flow_indexed_local_def make_cblk_def Let_def W_eq
      dest!: W_make_flow W_attach_decrement W_decrement split: prod.splits)

lemma W_make_entry: "make_entry w = (en, w') \<Longrightarrow> W w' = W w"
  by (auto simp: make_entry_def new_event_def Let_def W_eq)

lemma W_ensure_entry: "ensure_entry t key w = Inr (en, w') \<Longrightarrow> W w' = W w"
proof (erule ensure_entry_cases)
  fix w1
  assume "make_entry w = (en, w1)" "w' = set_published_entry t key (Some en) w1"
  then show ?thesis using W_make_entry [of w en w1] by (simp add: W_eq)
qed simp

lemma W_in_flow_fetching:
  assumes "in_flow_indexed_fetching us w = Inr (f, cs, w')"
  shows "W w' + C cs = W w"
proof -
  from assms obtain c w1 w2 t key en w3
    where c: "make_cblk (cblk_for_fetch (Some (us_handle us)) None) w = (c, w1)"
      and m: "make_flow (Some c) 1 w1 = Inr (f, w2)"
      and e: "ensure_entry t key w2 = Inr (en, w3)"
      and a: "attach_action (fetching_join_counter en) (FetchedAction en f) w3 = Inr (cs, w')"
    by (auto simp: in_flow_indexed_fetching_def Let_def split: prod.splits)
  from W_attach [OF a] W_ensure_entry [OF e] W_make_flow [OF m] W_make_cblk [OF c] show ?thesis by simp
qed

lemma W_set_in_flow:
  assumes "set_in_flow u r = Inr (cs, w')"
    and "\<And>f cs1 w1. r = Inr (f, cs1, w1) \<Longrightarrow> W w1 + C cs1 = W w"
  shows "W w' + C cs = W w + of_cmd (CRegisterIn u)"
  using assms by (fastforce simp: set_in_flow_def simp flip: add.assoc)

lemma W_register_in:
  assumes "register_in E u w = Inr (cs, w')"
  shows "W w' + C cs = W w + of_cmd (CRegisterIn u)"
proof -
  note set = W_set_in_flow [where w = w and w' = w' and cs = cs and u = u]
  have reuse: "W w' + C cs = W w + of_cmd (CRegisterIn u)" if "reuse_in_flow u r w = Inr (cs, w')" for r
    using that by (auto simp: reuse_in_flow_def)
  from assms obtain us where r: "(let rel = us_in_rel us in
     (case rel_description rel of
        Insignificant \<Rightarrow> reuse_in_flow u (Inr None) w
      | InsignificantCollection \<Rightarrow> reuse_in_flow u (Inr None) w
      | Same \<Rightarrow> reuse_in_flow u (related_flow_ptr rel w) w
      | SameCollection \<Rightarrow> reuse_in_flow u (related_flow_ptr rel w) w
      | Next \<Rightarrow> set_in_flow u (in_flow_next rel w)
      | NextCollection \<Rightarrow> set_in_flow u (in_flow_next rel w)
      | Initial \<Rightarrow> set_in_flow u (in_flow_initial E us w)
      | InitialCollection \<Rightarrow> set_in_flow u (in_flow_initial_collection E us w)
      | IndexedLocal \<Rightarrow> set_in_flow u (in_flow_indexed_local E rel w)
      | IndexedFetching \<Rightarrow> set_in_flow u (in_flow_indexed_fetching us w)
      | Forwarding \<Rightarrow> reuse_in_flow u (related_flow_ptr rel w) w
      | Null \<Rightarrow> Inl UnimplementedRelation
      | NullCollection \<Rightarrow> Inl UnimplementedRelation)) = Inr (cs, w')"
    by (auto simp: register_in_def)
  have ini: "W w1 + C cs1 = W w" if "in_flow_initial E us w = Inr (f, cs1, w1)" for f cs1 w1
    using that by (auto simp: in_flow_initial_def intro: W_in_flow(2))
  have inc: "W w1 + C cs1 = W w" if "in_flow_initial_collection E us w = Inr (f, cs1, w1)" for f cs1 w1
    using that by (auto simp: in_flow_initial_collection_def intro: W_in_flow(2))
  show ?thesis
    using r by (cases "rel_description (us_in_rel us)")
      (auto simp: Let_def intro: reuse set W_in_flow ini inc W_in_flow_fetching)
qed

text \<open>The other flows.\<close>

lemma W_set_anti_in:
  assumes "set_anti_in_flow u f cs1 w1 = Inr (cs, w')" and "W w1 + C cs1 = W w"
  shows "W w' + C cs = W w + of_cmd (CRegisterIn u)"
  using assms by (auto simp: set_anti_in_flow_def simp flip: add.assoc)

lemma W_set_out:
  assumes "set_out_flow u f cs1 w1 = Inr (cs, w')" and "W w1 + C cs1 = W w"
  shows "W w' + C cs = W w + of_cmd (CRegisterIn u)"
  using assms by (auto simp: set_out_flow_def simp flip: add.assoc)

lemma W_anti_in:
  assumes "register_anti_in u w = Inr (cs, w')"
  shows "W w' + C cs = W w + of_cmd (CRegisterIn u)"
proof -
  have insig: ?thesis if "set_anti_in_flow u None [] w = Inr (cs, w')"
    by (rule W_set_anti_in [OF that]) simp
  have same: ?thesis if "anti_in_same u us w = Inr (cs, w')" for us
    using that by (auto simp: anti_in_same_def set_anti_in_flow_def dest!: W_increment
        split: option.splits if_splits)
  have nxt: ?thesis if "anti_in_next u us w = Inr (cs, w')" for us
    using that by (auto simp: anti_in_next_def set_anti_in_flow_def dest!: W_make_anti_flow)
  have fwd: ?thesis if "anti_in_forwarding u us w = Inr (cs, w')" for us
    using that by (auto simp: anti_in_forwarding_def set_anti_in_flow_def dest!: W_make_anti_flow W_decrement
        simp flip: add.assoc)
  have loc: ?thesis if "anti_in_indexed_local u us w = Inr (cs, w')" for us
    using that by (auto simp: anti_in_indexed_local_def set_anti_in_flow_def
        dest!: W_make_anti_flow W_attach_decrement simp flip: add.assoc split: option.splits)
  from assms obtain us where "(case rel_description (us_anti_in_rel us) of
        Insignificant \<Rightarrow> set_anti_in_flow u None [] w
      | InsignificantCollection \<Rightarrow> set_anti_in_flow u None [] w
      | Same \<Rightarrow> anti_in_same u us w
      | SameCollection \<Rightarrow> anti_in_same u us w
      | Next \<Rightarrow> anti_in_next u us w
      | NextCollection \<Rightarrow> anti_in_next u us w
      | Forwarding \<Rightarrow> anti_in_forwarding u us w
      | IndexedLocal \<Rightarrow> anti_in_indexed_local u us w
      | _ \<Rightarrow> Inl UnimplementedRelation) = Inr (cs, w')"
    by (auto simp: register_anti_in_def)
  then show ?thesis
    by (cases "rel_description (us_anti_in_rel us)") (simp_all add: insig same nxt fwd loc)
qed

lemma W_out:
  assumes "register_out u w = Inr (cs, w')"
  shows "W w' + C cs = W w + of_cmd (CRegisterIn u)"
proof -
  have insig: ?thesis if "set_out_flow u None [] w = Inr (cs, w')"
    by (rule W_set_out [OF that]) simp
  have same: ?thesis if "out_same u r w = Inr (cs, w')" for r
    using that by (auto simp: out_same_def set_out_flow_def dest!: W_increment)
  have nxt: ?thesis if "out_next u r w = Inr (cs, w')" for r
    using that by (auto simp: out_next_def set_out_flow_def dest!: W_make_flow)
  have nul: ?thesis if "out_null u us w = Inr (cs, w')" for us
    using that by (auto simp: out_null_def set_out_flow_def dest!: W_make_flow)
  have loc: ?thesis if "out_indexed_local u r w = Inr (cs, w')" for r
    using that by (auto simp: out_indexed_local_def set_out_flow_def make_cblk_def Let_def W_eq
        dest!: W_make_flow W_attach_decrement W_increment simp flip: add.assoc split: prod.splits)
  from assms obtain us related where "(case rel_description (us_out_rel us) of
        Insignificant \<Rightarrow> set_out_flow u None [] w
      | InsignificantCollection \<Rightarrow> set_out_flow u None [] w
      | Same \<Rightarrow> out_same u related w
      | SameCollection \<Rightarrow> out_same u related w
      | Next \<Rightarrow> out_next u related w
      | NextCollection \<Rightarrow> out_next u related w
      | Null \<Rightarrow> out_null u us w
      | NullCollection \<Rightarrow> out_null u us w
      | IndexedLocal \<Rightarrow> out_indexed_local u related w
      | _ \<Rightarrow> Inl UnimplementedRelation) = Inr (cs, w')"
    by (auto simp: register_out_def)
  then show ?thesis
    by (cases "rel_description (us_out_rel us)") (simp_all add: insig same nxt nul loc)
qed

lemma W_anti_out:
  assumes "register_anti_out u w = Inr (cs, w')"
  shows "W w' + C cs = W w"
proof -
  have ini: ?thesis if "anti_out_initial u w = Inr (cs, w')"
    using that by (auto simp: anti_out_initial_def set_anti_out_flow_def dest!: W_make_anti_flow)
  have same: ?thesis if "anti_out_same u us r w = Inr (cs, w')" for us r
    using that by (auto simp: anti_out_same_def set_anti_out_flow_def dest!: W_increment)
  have nxt: ?thesis if "anti_out_next u r w = Inr (cs, w')" for r
    using that ini by (auto simp: anti_out_next_def)
  have loc: ?thesis if "anti_out_indexed_local u r w = Inr (cs, w')" for r
    using that by (auto simp: anti_out_indexed_local_def set_anti_out_flow_def
        dest!: W_make_anti_flow W_attach_decrement W_increment)
  have fet: ?thesis if "anti_out_indexed_fetching u us w = Inr (cs, w')" for us
    using that by (auto simp: anti_out_indexed_fetching_def set_anti_out_flow_def Let_def W_eq
        dest!: W_make_anti_flow W_attach_decrement)
  from assms obtain us related where "(case rel_description (us_anti_out_rel us) of
        Insignificant \<Rightarrow> Inr ([], w)
      | InsignificantCollection \<Rightarrow> Inr ([], w)
      | Initial \<Rightarrow> anti_out_initial u w
      | InitialCollection \<Rightarrow> anti_out_initial u w
      | Same \<Rightarrow> anti_out_same u us related w
      | SameCollection \<Rightarrow> anti_out_same u us related w
      | Next \<Rightarrow> anti_out_next u related w
      | NextCollection \<Rightarrow> anti_out_next u related w
      | IndexedLocal \<Rightarrow> anti_out_indexed_local u related w
      | IndexedFetching \<Rightarrow> anti_out_indexed_fetching u us w
      | _ \<Rightarrow> Inl UnimplementedRelation) = Inr (cs, w')"
    by (auto simp: register_anti_out_def)
  then show ?thesis
    by (cases "rel_description (us_anti_out_rel us)") (auto simp: ini same nxt loc fet)
qed

text \<open>Registration, release and the operations that wait.\<close>

lemma W_register_use:
  assumes "register_use u w = Inr (cs, w')"
  shows "W w' + C cs = W w + of_cmd (CRegisterIn u)"
  using assms by (auto simp: register_use_def assign_key_def W_eq split: if_splits)

lemma W_release_use:
  assumes "release_use u w = Inr (cs, w')"
  shows "W w' + C cs = W w"
proof -
  from assms obtain us al where al: "(if establishes_alias us then handle_aliasing_for_released_use us
        else Inr []) = Inr al"
    and cs: "cs = al @ map CDecrement (released_triggers us)"
    and w': "w' = w\<lparr>w_registered := w_registered w - {u}\<rparr>"
    by (auto simp: release_use_def Let_def)
  have "C al = 0"
    using al by (auto simp: handle_aliasing_for_released_use_def split: if_splits option.splits)
  moreover have "C (map CDecrement (released_triggers us)) = 0" by (rule C_zero) simp
  ultimately show ?thesis by (simp add: cs w' W_eq)
qed

lemma W_add_dependency: "add_dependency_on p e w = Inr (cs, w') \<Longrightarrow> W w' + C cs = W w"
  by (auto simp: add_dependency_on_def dest!: W_attach W_increment)

lemma W_task_dependency: "task_dependency p d w = Inr (cs, w') \<Longrightarrow> W w' + C cs = W w"
  by (auto simp: task_dependency_def then_do_def dest!: W_add_dependency split: if_splits simp flip: add.assoc)

lemma W_task_anti_dependency: "task_anti_dependency p d w = Inr (cs, w') \<Longrightarrow> W w' + C cs = W w"
  by (auto simp: task_anti_dependency_def dest!: W_add_dependency split: if_splits)

lemma W_enqueue_or_run:
  assumes "enqueue_or_run me p op i allow w = Inr (cs, w')"
  shows "W w' + C cs = W w"
proof -
  let ?w1 = "w\<lparr>w_pending_tasks := w_pending_tasks w + 1\<rparr>"
  from assms obtain cs0 where a: "attach_or_do_action p (EnqueueAction op) cs0 ?w1 = Inr (cs, w')"
    and c: "C cs0 = 0"
    by (auto simp: enqueue_or_run_def Let_def attach_action_def of_cmd_action split: if_splits)
  have "W ?w1 = W w" by (simp add: W_eq)
  with attach_or_do_waiting [OF a] c show ?thesis by simp
qed

lemma W_emplace: "emplace_ready i op w = Inr w' \<Longrightarrow> W w' = W w"
  by (auto simp: W_eq dest!: emplace_ready_frame)

lemma W_emplace_all: "emplace_all is op w = Inr w' \<Longrightarrow> W w' = W w"
  by (induction "is" arbitrary: w) (auto dest!: W_emplace)

lemma W_make_pending:
  "make_pending_task t i w = (cs, w') \<Longrightarrow> W w' + C cs = W w"
  "when_ready_do me e c w = (cs, w') \<Longrightarrow> W w' + C cs = W w"
proof -
  have *: "C (map (CTaskDependency p) ds) = 0" for p ds by (rule C_zero) simp
  show "W w' + C cs = W w" if "make_pending_task t i w = (cs, w')"
    using that *
    by (auto simp: make_pending_task_def make_pending_operation_def new_event_def W_eq)
  show "W w' + C cs = W w" if "when_ready_do me e c w = (cs, w')"
    using that
    by (auto simp: when_ready_do_def when_all_ready_do_def make_pending_operation_def new_event_def W_eq)
qed

lemma W_alias: "alias_flows me h e w = Inr (cs, w') \<Longrightarrow> W w' + C cs = W w"
  by (auto simp: alias_flows_def dest!: W_increment W_make_pending(2))

lemma W_create_tasks: "create_tasks me name ts i w = Inr (cs, w') \<Longrightarrow> W w' + C cs = W w"
  by (cases ts) (auto simp: Let_def dest!: W_decrement W_increment W_make_pending(1) simp flip: add.assoc
      split: prod.splits)

lemma W_register_task: "register_task me t w = Inr (cs, w') \<Longrightarrow> W w' + C cs = W w"
  by (auto simp: register_task_def dest!: W_increment W_make_pending(1))

lemma W_register_task_collection: "register_task_collection tc w = Inr (cs, w') \<Longrightarrow> W w' + C cs = W w"
  by (auto simp: register_task_collection_def make_token_def Let_def W_eq
      dest!: W_increment set_parent_tokens_frame split: prod.splits)

lemma W_run_operation: "run_operation me op w = Inr (b, cs, w') \<Longrightarrow> W w' + C cs = W w"
proof -
  assume r: "run_operation me op w = Inr (b, cs, w')"
  have api: "C (map CApi xs) = 0" for xs by (rule C_zero) simp
  have jn: "C (map CJoin xs) = 0" for xs by (rule C_zero) simp
  show ?thesis
  proof (cases op)
    case (SpecialMessage m)
    with r show ?thesis by (auto simp: run_operation_def split: message_kind.splits)
  next
    case (ReadyTaskOperation t)
    with r api show ?thesis
      by (auto simp: run_operation_def run_task_def W_eq update_worker_def dest!: setup_data_frame)
  next
    case (CallableOperation c s)
    with r jn show ?thesis by (cases c) (auto simp: run_operation_def)
  qed
qed

lemma W_task_finished: "task_finished me old w = Inr (cs, w') \<Longrightarrow> W w' + C cs = W w"
  by (auto simp: task_finished_def update_worker_def W_eq dest!: W_decrement [unfolded W_eq])

lemma W_work_loop_round: "work_loop_round E me drawn w = Inr (cs, w') \<Longrightarrow> W w' + C cs = W w"
proof -
  assume r: "work_loop_round E me drawn w = Inr (cs, w')"
  have sr: "W (add_dorment d (set_ready i ops w)) = W w" for d i ops
    by (simp add: W_eq set_ready_def update_worker_def)
  have op: "W w1 + C cs1 = W w"
    if "run_operation me op (add_dorment d (set_ready i ops w)) = Inr (b, cs1, w1)" for op d i ops b cs1 w1
    using W_run_operation [OF that] sr by simp
  from r have me: "me < length (w_workers w)" by (auto simp: work_loop_round_def worker_at_def)
  show ?thesis
  proof (cases "wk_ready (w_workers w ! me)")
    case Nil
    with r me obtain cs1 where s: "try_to_steal_work E me drawn w = Inr (cs1, w')" and cs: "cs = cs1 @ [CLoop]"
      by (auto simp: work_loop_round_def worker_at_def then_do_def)
    have "W w' + C cs1 = W w"
      using s by (cases "wk_ready (w_workers w ! nat (steal_from drawn me (length (w_workers w))))")
        (auto simp: try_to_steal_work_def worker_index_def then_do_def run_ignoring_message_def
          dest!: op split: if_splits)
    then show ?thesis by (simp add: cs)
  next
    case (Cons o1 rest)
    with r me obtain b cs1 w1
      where r1: "run_operation me o1 (add_dorment (- 1) (set_ready me rest w)) = Inr (b, cs1, w1)"
        and e: "if b then cs = [] \<and> w' = add_dorment 1 (update_worker me (\<lambda>wk. wk\<lparr>wk_stopped := True\<rparr>) w1)
               else cs = cs1 @ [CDorment, CLoop] \<and> w' = w1"
      by (auto simp: work_loop_round_def worker_at_def split: if_splits)
    have "b \<Longrightarrow> cs1 = []"
      using r1 by (auto simp: run_operation_def split: ready_op.splits if_splits message_kind.splits)
    moreover have "W (add_dorment 1 (update_worker me (\<lambda>wk. wk\<lparr>wk_stopped := True\<rparr>) w1)) = W w1"
      by (simp add: W_eq update_worker_def)
    ultimately show ?thesis using op [OF r1] e by (auto split: if_splits)
  qed
qed

lemma W_shutdown:
  "run_shutdown_action w = Inr (cs, w') \<Longrightarrow> W w' + C cs = W w"
  "run_region_shutdown_action w = Inr (cs, w') \<Longrightarrow> W w' + C cs = W w"
  by (auto simp: run_shutdown_action_def run_region_shutdown_action_def W_eq
      dest!: W_emplace_all [unfolded W_eq] W_emplace [unfolded W_eq])

text \<open>Publication and the collectives.\<close>

lemma W_publish:
  assumes "publish_use u d w = Inr (cs, w')"
  obtains en source c where "W w' + C cs = W w + of_action (PublishCopyAction en source c u)"
proof -
  from assms obtain t key en w1 where e: "ensure_entry t key w = Inr (en, w1)"
    and p: "publish_at_entry u (n_fetchers d) en w1 = Inr (cs, w')"
    by (auto simp: publish_use_def)
  from p obtain w2 cs1 w3 in_flow c source w4 cs2
    where v: "advance_count (release_event en) (of_nat (n_fetchers d)) w1 = Inr w2"
      and dd: "decrement_count (release_event en) w2 = Inr (cs1, w3)"
      and m: "make_flow None 1 w3 = Inr (source, w4)"
      and a: "attach_action (flow_trigger in_flow) (PublishCopyAction en source c u)
             (set_source_flow en source w4) = Inr (cs2, w')"
      and cs: "cs = cs1 @ cs2"
    by (auto simp: publish_at_entry_def)
  have s: "W (set_source_flow en source w4) = W w4" by (simp add: W_eq set_source_flow_def)
  have "W w' + C cs = W w4 + C cs1 + of_action (PublishCopyAction en source c u)"
    using W_attach [OF a] s by (simp add: cs ac_simps)
  also have "W w4 + C cs1 = W w"
    using W_make_flow [OF m] W_decrement [OF dd] advance_waiting [OF v] W_ensure_entry [OF e] by simp
  finally show ?thesis by (rule that)
qed

lemma W_push [simp]: "W (push_input_use ip u w) = W w"
  by (simp add: W_eq push_input_frame)

lemma W_contribute_more:
  assumes "contribute_more u op ip w = Inr (cs, w')"
  shows "W w' + C cs = W w"
  using assms
  by (auto simp: contribute_more_def then_do_def Let_def dest!: W_attach W_decrement split: option.splits)

lemma W_contribute_first:
  assumes "contribute_first u t tag ip w = Inr (cs, w')"
  shows "W w' + C cs = W w + of_action (AllreduceDoneAction ip t tag)"
proof -
  from assms obtain cs0 w1 and us :: use and f cs1
    where at: "attach_action (invocation_ready_event ip) (AllreduceDoneAction ip t tag) w = Inr (cs0, w1)"
      and d: "(case us_anti_in us of
              Some a \<Rightarrow> attach_action (anti_flow_trigger a) (CollectiveDecrementAction ip) (push_input_use ip u w1)
            | None \<Rightarrow> decrement_count (invocation_ready_event ip) (push_input_use ip u w1)) = Inr (cs1, w')"
      and cs: "cs = cs0 @ cs1 @ [CAttach (flow_trigger f) (CollectiveDecrementAction ip)]"
    by (auto simp: contribute_first_def Let_def)
  have "W w' + C cs1 = W w1"
    using d by (auto dest!: W_attach W_decrement split: option.splits)
  then have "W w' + C cs = W w1 + C cs0" by (simp add: cs ac_simps)
  with W_attach [OF at] show ?thesis by simp
qed

lemma W_allreduce:
  assumes "allreduce_use u d tag w = Inr (cs, w')"
  obtains (more) t ip where "token_of (cd_collection d) w = Inr t" "t < length (w_tokens w)"
      "tk_collectives (w_tokens w ! t) tag = Some ip"
      "contribute_more u (reduce_operation d) ip w = Inr (cs, w')" "W w' + C cs = W w"
    | (first) t ip w1 where "token_of (cd_collection d) w = Inr t" "t < length (w_tokens w)"
      "tk_collectives (w_tokens w ! t) tag = None" "make_invocation (tk_size (w_tokens w ! t)) w = (ip, w1)"
      "contribute_first u t tag ip
         (set_collectives t (\<lambda>_. (tk_collectives (w_tokens w ! t))(tag \<mapsto> ip)) w1) = Inr (cs, w')"
      "W w' + C cs = W w + of_action (AllreduceDoneAction ip t tag)"
proof -
  from assms obtain t where t: "token_of (cd_collection d) w = Inr t" and tl: "t < length (w_tokens w)"
    by (auto simp: allreduce_use_def)
  let ?tk = "w_tokens w ! t"
  obtain ip w1 where m: "make_invocation (tk_size ?tk) w = (ip, w1)" by (metis surj_pair)
  show ?thesis
  proof (cases "tk_collectives ?tk tag")
    case (Some found)
    with assms t m have c: "contribute_more u (reduce_operation d) found w = Inr (cs, w')"
      by (auto simp: allreduce_use_def evaluate_or_evaluate_first_def)
    from more [OF t tl Some c W_contribute_more [OF c]] show ?thesis .
  next
    case None
    let ?w2 = "set_collectives t (\<lambda>_. (tk_collectives ?tk)(tag \<mapsto> ip)) w1"
    from None assms t m have c: "contribute_first u t tag ip ?w2 = Inr (cs, w')"
      by (auto simp: allreduce_use_def evaluate_or_evaluate_first_def)
    have "W ?w2 = W w"
      using m by (auto simp: W_eq make_invocation_def new_event_def Let_def)
    with first [OF t tl None m c] W_contribute_first [OF c] show ?thesis by simp
  qed
qed

lemma W_reduce_collection:
  "reduce_collection_use ui uo d w = Inr (cs, w') \<Longrightarrow>
     \<exists>op n c. W w' + C cs = W w + of_action (ReduceInReadyAction ui uo op n c)"
  by (auto simp: reduce_collection_use_def dest!: W_attach)

lemma W_releases: "C (map CRelease us) = sum_list (map (\<lambda>u. of_cmd (CRelease u)) us)"
  by (induction us) simp_all

lemma W_contribute:
  "run_contribute ip h c n w = Inr (cs, w') \<Longrightarrow> W w' + C cs = W w"
  "run_contribute_after_anti ip h c n w = Inr (cs, w') \<Longrightarrow> W w' + C cs = W w"
  "run_contribute_reduce E ip h c n w = Inr (cs, w') \<Longrightarrow> W w' + C cs = W w"
  "run_collective_decrement ip w = Inr (cs, w') \<Longrightarrow> W w' + C cs = W w"
  by (auto simp: run_contribute_def run_contribute_after_anti_def run_contribute_reduce_def
      run_collective_decrement_def W_eq [of "w\<lparr>w_mem := m\<rparr>" for m] dest!: W_attach split: option.splits)
    (simp add: W_eq)

lemma W_reduce_ready:
  "run_reduce_in_ready ui uo n k c w = Inr (cs, w') \<Longrightarrow> W w' + C cs = W w + of_action (ReduceInReadyAction ui uo n k c)"
  "run_reduce_anti_ready E ui uo n k c w = Inr (cs, w') \<Longrightarrow> W w' + C cs = W w + of_cmd (CRelease ui) + of_cmd (CRelease uo)"
  by (auto simp: run_reduce_in_ready_def run_reduce_anti_ready_def ac_simps dest!: W_attach) (simp add: W_eq)

lemma W_allreduce_done:
  assumes "run_allreduce_done E ip t tag w = Inr (cs, w')"
  shows "W w' + C cs = W w + sum_list (map (\<lambda>u. of_cmd (CRelease u)) (iv_input_uses (snd (w_invocations w ! invocation_id ip))))"
proof -
  have "lock_invocation ip w = Inr iv \<Longrightarrow> iv = snd (w_invocations w ! invocation_id ip)" for iv
    by (auto simp: lock_invocation_def invocation_at_def)
  with assms obtain m where cs: "cs = map CRelease (iv_input_uses (snd (w_invocations w ! invocation_id ip)))
      @ [CEraseCollective t tag ip]"
    and w': "w' = w\<lparr>w_mem := m\<rparr>"
    by (auto simp: run_allreduce_done_def Let_def)
  then show ?thesis by (simp add: W_releases W_eq del: map_map)
qed

lemma W_publish_copy: "run_publish_copy E en source c u w = Inr (cs, w') \<Longrightarrow> W w' + C cs = W w + of_cmd (CRelease u)"
  by (auto simp: run_publish_copy_def make_cblk_def Let_def W_eq)

lemma W_fetched: "run_fetched en f w = Inr (cs, w') \<Longrightarrow> W w' + C cs = W w"
  by (auto simp: run_fetched_def W_eq)

lemma W_erase: "erase_collective t tag ip w = Inr (cs, w') \<Longrightarrow> W w' + C cs = W w"
  by (auto simp: erase_collective_def update_invocation_def Let_def W_eq)

end

end
