(* ===== verification/Ledger.thy ===== *)
theory Ledger
  imports Claims
begin

text \<open>
  What the commands leave alone: the set of registered uses, the invocations, the tables of the
  tokens, the publication entries and the flows of the uses. Only a few commands change one of these.
\<close>

definition use_flows ::
  "use \<Rightarrow> flow_ptr option \<times> anti_flow_ptr option \<times> flow_ptr option \<times> anti_flow_ptr option" where
  "use_flows us = (us_in us, us_anti_in us, us_out us, us_anti_out us)"

lemma use_flows_simps [simp]:
  "use_flows (us\<lparr>us_data := p\<rparr>) = use_flows us"
  by (simp add: use_flows_def)

text \<open>Events stay where they are; one that has not triggered yet keeps the actions that wait for it.\<close>

definition events_kept :: "event list \<Rightarrow> event list \<Rightarrow> bool" where
  "events_kept evs evs' \<longleftrightarrow> length evs \<le> length evs'
     \<and> (\<forall>e<length evs. ev_triggered (evs' ! e) \<or>
          \<not> ev_triggered (evs ! e) \<and> (\<exists>as. ev_actions (evs' ! e) = ev_actions (evs ! e) @ as))"

lemma events_kept_refl [simp]: "events_kept evs evs"
  by (simp add: events_kept_def)

lemma events_kept_trans: "events_kept xs ys \<Longrightarrow> events_kept ys zs \<Longrightarrow> events_kept xs zs"
  unfolding events_kept_def by (metis append.assoc order.strict_trans2 order.trans)

lemma events_kept_append [simp]: "events_kept evs (evs @ xs)"
  by (auto simp: events_kept_def nth_append)

lemma events_kept_update:
  assumes "ev_triggered ev \<or> \<not> ev_triggered (evs ! e) \<and> (\<exists>as. ev_actions ev = ev_actions (evs ! e) @ as)"
  shows "events_kept evs (evs[e := ev])"
  unfolding events_kept_def
proof (intro conjI allI impI)
  fix e'
  assume "e' < length evs"
  with assms show "ev_triggered (evs[e := ev] ! e') \<or>
      \<not> ev_triggered (evs ! e') \<and> (\<exists>as. ev_actions (evs[e := ev] ! e') = ev_actions (evs ! e') @ as)"
    by (cases "e' = e") auto
qed simp

definition calm :: "'d world \<Rightarrow> 'd world \<Rightarrow> bool" where
  "calm w w' \<longleftrightarrow> w_registered w' = w_registered w \<and> w_invocations w' = w_invocations w
     \<and> w_tokens w' = w_tokens w \<and> w_entries w' = w_entries w
     \<and> map use_flows (w_uses w') = map use_flows (w_uses w)
     \<and> events_kept (w_events w) (w_events w')"

lemma calm_refl [simp]: "calm w w"
  by (simp add: calm_def)

lemma calm_trans [trans]: "calm w w1 \<Longrightarrow> calm w1 w2 \<Longrightarrow> calm w w2"
  unfolding calm_def by (metis events_kept_trans)

lemma calm_length: "calm w w' \<Longrightarrow> length (w_events w) \<le> length (w_events w')"
  by (simp add: calm_def events_kept_def)

named_theorems calm_intros

lemma calm_primitives [calm_intros]:
  "new_event n w = (e, w') \<Longrightarrow> calm w w'"
  "advance_count e n w = Inr w' \<Longrightarrow> calm w w'"
  "increment_count e w = Inr w' \<Longrightarrow> calm w w'"
  "decrement_count e w = Inr (cs, w') \<Longrightarrow> calm w w'"
  "attach_or_do_action e a cs0 w = Inr (cs, w') \<Longrightarrow> calm w w'"
  "attach_action e a w = Inr (cs, w') \<Longrightarrow> calm w w'"
  "emplace_ready i op w = Inr w' \<Longrightarrow> calm w w'"
  by (drule frame, auto simp: calm_def intro!: events_kept_update split: if_splits)+

lemma calm_attach_decrement [calm_intros]: "attach_decrement_of e e' w = Inr (cs, w') \<Longrightarrow> calm w w'"
  unfolding attach_decrement_of_def by (rule calm_primitives)

lemma calm_fields [simp]:
  "calm v (w\<lparr>w_mem := m\<rparr>) = calm v w" "calm (w\<lparr>w_mem := m\<rparr>) v = calm w v"
  "calm v (w\<lparr>w_cblks := cb\<rparr>) = calm v w"
  "calm v (w\<lparr>w_flows := fl\<rparr>) = calm v w"
  "calm v (w\<lparr>w_aflows := af\<rparr>) = calm v w"
  "calm v (w\<lparr>w_pending_tasks := n\<rparr>) = calm v w" "calm (w\<lparr>w_pending_tasks := n\<rparr>) v = calm w v"
  "calm v (w\<lparr>w_called := l\<rparr>) = calm v w"
  "calm v (w\<lparr>w_workers := ws\<rparr>) = calm v w"
  "calm v (w\<lparr>w_collection_token := t\<rparr>) = calm v w"
  "calm v (w\<lparr>w_handles := h, w_next_key := n'\<rparr>) = calm v w"
  "calm v (add_dorment d w) = calm v w" "calm (add_dorment d w) v = calm w v"
  "calm v (update_worker i f w) = calm v w" "calm (update_worker i f w) v = calm w v"
  "calm v (set_ready i ops w) = calm v w" "calm (set_ready i ops w) v = calm w v"
  by (simp_all add: calm_def add_dorment_def update_worker_def set_ready_def)

lemma map_use_flows_update:
  "(\<And>us. use_flows (f us) = use_flows us) \<Longrightarrow> map use_flows (xs[u := f (xs ! u)]) = map use_flows xs"
  by (cases "u < length xs") (auto simp: map_update list_update_same_conv list_update_beyond)

lemma calm_update_use:
  assumes "\<And>us. use_flows (f us) = use_flows us"
  shows "calm v (update_use u f w) = calm v w" and "calm (update_use u f w) v = calm w v"
  by (simp_all add: calm_def update_use_def map_use_flows_update [OF assms])

lemma calm_make_flow [calm_intros]: "make_flow c n w = Inr (f, w') \<Longrightarrow> calm w w'"
  by (auto simp: make_flow_def calm_def new_event_def)

lemma calm_make_anti_flow [calm_intros]: "make_anti_flow n w = Inr (f, w') \<Longrightarrow> calm w w'"
  by (auto simp: make_anti_flow_def calm_def new_event_def)

lemma calm_make_cblk [calm_intros]: "make_cblk cb w = (c, w') \<Longrightarrow> calm w w'"
  by (auto simp: make_cblk_def)

lemma calm_add_dependency [calm_intros]: "add_dependency_on p e w = Inr (cs, w') \<Longrightarrow> calm w w'"
  by (auto simp: add_dependency_on_def intro: calm_trans calm_intros)

lemma calm_task_dependency [calm_intros]:
  "task_dependency p d w = Inr (cs, w') \<Longrightarrow> calm w w'"
  "task_anti_dependency p d w = Inr (cs, w') \<Longrightarrow> calm w w'"
  by (auto simp: task_dependency_def task_anti_dependency_def then_do_def intro: calm_intros split: if_splits)

lemma calm_enqueue_or_run [calm_intros]: "enqueue_or_run me p op i allow w = Inr (cs, w') \<Longrightarrow> calm w w'"
  by (auto simp: enqueue_or_run_def Let_def split: if_splits dest!: calm_primitives(5,6))

lemma calm_run_enqueue [calm_intros]: "run_enqueue_action me op w = Inr (cs, w') \<Longrightarrow> calm w w'"
  by (auto simp: run_enqueue_action_def intro: calm_intros)

lemma calm_stack [calm_intros]:
  "stack_run me op w = Inr (cs, w') \<Longrightarrow> calm w w'"
  "stack_exit me w = Inr (cs, w') \<Longrightarrow> calm w w'"
  by (auto simp: stack_run_def stack_exit_def Let_def)

lemma calm_make_pending [calm_intros]:
  "make_pending_task t i w = (cs, w') \<Longrightarrow> calm w w'"
  "when_ready_do me e c w = (cs, w') \<Longrightarrow> calm w w'"
  by (auto simp: make_pending_task_def when_ready_do_def when_all_ready_do_def make_pending_operation_def
      intro: calm_intros split: prod.splits)

lemma calm_alias [calm_intros]: "alias_flows me h e w = Inr (cs, w') \<Longrightarrow> calm w w'"
  by (auto simp: alias_flows_def intro: calm_trans calm_intros)

lemma calm_create_tasks [calm_intros]: "create_tasks me name ts i w = Inr (cs, w') \<Longrightarrow> calm w w'"
  by (cases ts) (auto simp: Let_def dest!: calm_primitives(3,4) calm_make_pending(1) intro: calm_trans
      split: prod.splits)

lemma calm_register_task [calm_intros]: "register_task me t w = Inr (cs, w') \<Longrightarrow> calm w w'"
  by (auto simp: register_task_def intro: calm_trans calm_intros)

lemma calm_setup_data [calm_intros]: "setup_data ds w = Inr w' \<Longrightarrow> calm w w'"
  by (induction ds arbitrary: w)
    (fastforce split: if_splits simp: calm_update_use)+

lemma calm_run_operation [calm_intros]: "run_operation me op w = Inr (b, cs, w') \<Longrightarrow> calm w w'"
  by (auto simp: run_operation_def run_task_def split: if_splits ready_op.splits message_kind.splits
      intro: calm_intros)

lemma calm_task_finished [calm_intros]: "task_finished me old w = Inr (cs, w') \<Longrightarrow> calm w w'"
  by (auto simp: task_finished_def dest!: calm_primitives(4))

lemma calm_take_and_run:
  "run_operation me op (add_dorment d (set_ready i ops w)) = Inr (b, cs, w') \<Longrightarrow> calm w w'"
  by (drule calm_run_operation) simp

lemma calm_steal [calm_intros]: "try_to_steal_work E me drawn w = Inr (cs, w') \<Longrightarrow> calm w w'"
  by (cases "wk_ready (w_workers w ! nat (steal_from drawn me (length (w_workers w))))")
    (auto simp: try_to_steal_work_def worker_index_def then_do_def run_ignoring_message_def
      dest: calm_take_and_run split: if_splits)

lemma calm_work_loop_round [calm_intros]:
  assumes "work_loop_round E me drawn w = Inr (cs, w')"
  shows "calm w w'"
proof (cases "wk_ready (w_workers w ! me)")
  case Nil
  with assms show ?thesis
    by (auto simp: work_loop_round_def worker_at_def then_do_def intro: calm_intros)
next
  case (Cons o1 rest)
  with assms show ?thesis
    by (auto simp: work_loop_round_def worker_at_def dest!: calm_take_and_run split: if_splits)
qed

lemma calm_emplace_all [calm_intros]: "emplace_all is op w = Inr w' \<Longrightarrow> calm w w'"
  by (induction "is" arbitrary: w) (auto intro: calm_trans calm_intros)

lemma calm_shutdown [calm_intros]:
  "run_shutdown_action w = Inr (cs, w') \<Longrightarrow> calm w w'"
  "run_region_shutdown_action w = Inr (cs, w') \<Longrightarrow> calm w w'"
proof -
  show "calm w w'" if "run_shutdown_action w = Inr (cs, w')"
    using that by (auto simp: run_shutdown_action_def intro: calm_intros)
  assume "run_region_shutdown_action w = Inr (cs, w')"
  then obtain w1 w2 where "emplace_ready 0 (CallableOperation JoinWorkers False) w = Inr w1"
    and "emplace_all [0..<length (w_workers w1)] (SpecialMessage AllTasksDone) w1 = Inr w2"
    and w': "w' = w2\<lparr>w_called := w_called w2 @ w_callbacks w2\<rparr>"
    by (auto simp: run_region_shutdown_action_def)
  then have "calm w w1" "calm w1 w2" by (auto intro: calm_intros)
  then have "calm w w2" by (rule calm_trans)
  then show "calm w w'" by (simp add: w')
qed

lemma calm_spin_up [calm_intros]: "spin_up_worker_threads w = Inr (cs, w') \<Longrightarrow> calm w w'"
  by (auto simp: spin_up_worker_threads_def)

lemma calm_join [calm_intros]: "join_worker i w = Inr (cs, w') \<Longrightarrow> calm w w'"
  by (auto simp: join_worker_def)

lemma calm_user_code [calm_intros]: "user_code E u code w = Inr (cs, w') \<Longrightarrow> calm w w'"
  by (auto simp: user_code_def)

lemma calm_fetched [calm_intros]:
  "run_fetched en f w = Inr (cs, w') \<Longrightarrow> calm w w'"
  "run_publish_copy E en source c u w = Inr (cs, w') \<Longrightarrow> calm w w'"
  by (auto simp: run_fetched_def run_publish_copy_def make_cblk_def Let_def calm_def)

lemma calm_contribute [calm_intros]:
  "run_contribute ip h c n w = Inr (cs, w') \<Longrightarrow> calm w w'"
  "run_contribute_after_anti ip h c n w = Inr (cs, w') \<Longrightarrow> calm w w'"
  "run_contribute_reduce E ip h c n w = Inr (cs, w') \<Longrightarrow> calm w w'"
  "run_collective_decrement ip w = Inr (cs, w') \<Longrightarrow> calm w w'"
  "run_allreduce_done E ip t tag w = Inr (cs, w') \<Longrightarrow> calm w w'"
  "reduce_collection_use ui uo d w = Inr (cs, w') \<Longrightarrow> calm w w'"
  "run_reduce_in_ready ui uo n k c w = Inr (cs, w') \<Longrightarrow> calm w w'"
  "run_reduce_anti_ready E ui uo n k c w = Inr (cs, w') \<Longrightarrow> calm w w'"
  by (auto simp: run_contribute_def run_contribute_after_anti_def run_contribute_reduce_def
      run_collective_decrement_def run_allreduce_done_def reduce_collection_use_def run_reduce_in_ready_def
      run_reduce_anti_ready_def Let_def dest!: calm_primitives(6) split: option.splits)

lemma calm_run_action: "run_action E me a w = Inr (cs, w') \<Longrightarrow> calm w w'"
  by (cases a) (auto simp: run_action_def intro: calm_intros)

end
