(* ===== verification/Invariant.thy ===== *)
theory Invariant
  imports Ledger
begin

text \<open>
  The invariant of the running backend and the discipline that the frontend keeps: it registers a
  use once, releases or hands over only what is registered and still its own, publishes a version
  once, and contributes to a collective no more often than the collective has room for.
\<close>

section \<open>Claims\<close>

fun claim_action :: "action \<Rightarrow> nat multiset" where
  "claim_action (PublishCopyAction en source c u) = {#u#}"
| "claim_action (ReduceInReadyAction ui uo op n c) = {#ui, uo#}"
| "claim_action (ReduceAntiReadyAction ui uo op n c) = {#ui, uo#}"
| "claim_action _ = {#}"

fun claim_cmd :: "cmd \<Rightarrow> nat multiset" where
  "claim_cmd (CAction a) = claim_action a"
| "claim_cmd (CAttach e a) = claim_action a"
| "claim_cmd (CRegisterIn u) = {#u#}"
| "claim_cmd (CRegisterAntiIn u) = {#u#}"
| "claim_cmd (CRegisterOut u) = {#u#}"
| "claim_cmd (CRegisterAntiOut u) = {#u#}"
| "claim_cmd (CRelease u) = {#u#}"
| "claim_cmd _ = {#}"

text \<open>The collectives whose completion is still to run.\<close>

fun done_action :: "action \<Rightarrow> nat multiset" where
  "done_action (AllreduceDoneAction ip t tag) = {#invocation_id ip#}"
| "done_action _ = {#}"

fun done_cmd :: "cmd \<Rightarrow> nat multiset" where
  "done_cmd (CAction a) = done_action a"
| "done_cmd (CAttach e a) = done_action a"
| "done_cmd _ = {#}"

interpretation claims: quiet "\<lambda>_. {#}" claim_action claim_cmd
  by unfold_locales simp_all

interpretation dones: quiet "\<lambda>_. {#}" done_action done_cmd
  by unfold_locales simp_all

definition input_claims :: "'d world \<Rightarrow> nat multiset \<Rightarrow> nat multiset" where
  "input_claims w d =
     (\<Sum>i<length (w_invocations w). if i \<in># d then mset (iv_input_uses (snd (w_invocations w ! i))) else {#})"

definition open_dones :: "'d world \<Rightarrow> nat multiset \<Rightarrow> nat multiset" where
  "open_dones w kd = waiting (\<lambda>_. {#}) done_action w + kd"

definition all_claims :: "'d world \<Rightarrow> nat multiset \<Rightarrow> nat multiset \<Rightarrow> nat multiset" where
  "all_claims w kc kd = waiting (\<lambda>_. {#}) claim_action w + kc + input_claims w (open_dones w kd)"

definition claimed :: "'d world \<Rightarrow> nat multiset \<Rightarrow> nat multiset \<Rightarrow> bool" where
  "claimed w kc kd \<longleftrightarrow>
     (\<forall>u. count (all_claims w kc kd) u \<le> (if u \<in> w_registered w then 1 else 0))
     \<and> (\<forall>i. count (open_dones w kd) i \<le> (if i < length (w_invocations w) then 1 else 0))"

section \<open>Discipline and invariant\<close>

definition stack_claims :: "'d config \<Rightarrow> nat multiset" where
  "stack_claims g = all_claims (cf_world g) (all_todo claim_cmd (cf_stacks g)) (all_todo done_cmd (cf_stacks g))"

definition stack_credits :: "'d config \<Rightarrow> nat multiset" where
  "stack_credits g = all_todo credit_cmd (cf_stacks g) + committed (cf_world g)"

text \<open>The use is registered and nothing in the backend is about to release it.\<close>

definition owns :: "'d config \<Rightarrow> nat \<Rightarrow> bool" where
  "owns g u \<longleftrightarrow> u \<in> w_registered (cf_world g) \<and> u \<notin># stack_claims g"

fun owns_for :: "'d config \<Rightarrow> api \<Rightarrow> bool" where
  "owns_for g (RegisterUse u) \<longleftrightarrow> registers_fresh (CApi (RegisterUse u)) (cf_world g)"
| "owns_for g (ReleaseUse u) \<longleftrightarrow> owns g u"
| "owns_for g (PublishUse u d) \<longleftrightarrow> owns g u"
| "owns_for g (AllreduceUse u d tag) \<longleftrightarrow> owns g u"
| "owns_for g (ReduceCollectionUse ui uo d) \<longleftrightarrow> owns g ui \<and> owns g uo \<and> ui \<noteq> uo"
| "owns_for g _ \<longleftrightarrow> True"

fun frontend_ok :: "'d config \<Rightarrow> cmd \<Rightarrow> bool" where
  "frontend_ok g (CApi a) \<longleftrightarrow> owns_for g a \<and> api_room a (cf_world g)"
| "frontend_ok g _ \<longleftrightarrow> True"

text \<open>A step of the machine in which the frontend is disciplined and no counter is about to wrap.\<close>

inductive disciplined :: "'d env \<Rightarrow> 'd config \<Rightarrow> 'd config \<Rightarrow> bool" for E where
  disciplined: "i < length (cf_stacks g) \<Longrightarrow> cf_stacks g ! i = c # cs \<Longrightarrow> may_run (cf_world g) i c
    \<Longrightarrow> 0 \<le> drawn \<Longrightarrow> drawn < 2 ^ 31 \<Longrightarrow> frontend_ok g c \<Longrightarrow> fits (cf_world g) (stack_credits g)
    \<Longrightarrow> step E i drawn c (cf_world g) = Inr (cs', w')
    \<Longrightarrow> disciplined E g \<lparr>cf_stacks = (cf_stacks g)[i := cs' @ cs], cf_world = w'\<rparr>"

inductive_cases disciplinedE: "disciplined E g g'"

lemma disciplined_sched: "disciplined E g g' \<Longrightarrow> sched E g g'"
  by (auto elim!: disciplinedE intro: sched.sched)

definition wf_world :: "'d world \<Rightarrow> bool" where
  "wf_world w \<longleftrightarrow> tables_ok w \<and> (\<forall>e\<in>release_events w. e < length (w_events w))"

definition backend_inv :: "'d config \<Rightarrow> bool" where
  "backend_inv g \<longleftrightarrow>
     accounted (release_events (cf_world g)) (cf_world g) (stack_credits g)
     \<and> claimed (cf_world g) (all_todo claim_cmd (cf_stacks g)) (all_todo done_cmd (cf_stacks g))
     \<and> (\<forall>cs\<in>set (cf_stacks g). \<forall>c\<in>set cs. chain_ok (w_uses (cf_world g)) c)
     \<and> wf_world (cf_world g)"

section \<open>Frames of the other commands\<close>

lemma calm_input_claims: "calm w w' \<Longrightarrow> input_claims w' d = input_claims w d"
  by (simp add: calm_def input_claims_def cong: if_cong)

lemma calm_wf: "calm w w' \<Longrightarrow> wf_world w \<Longrightarrow> wf_world w'"
  using calm_length [of w w']
  unfolding calm_def wf_world_def tables_ok_def release_events_def by (auto intro: less_le_trans)

text \<open>The parts of the state that the claims are about.\<close>

lemma claimed_transfer:
  assumes "claimed w (kc + x) (kd + y)"
    and "waiting (\<lambda>_. {#}) claim_action w' + xc = waiting (\<lambda>_. {#}) claim_action w + x"
    and "waiting (\<lambda>_. {#}) done_action w' + yd = waiting (\<lambda>_. {#}) done_action w + y"
    and "w_registered w' = w_registered w"
    and "\<And>d. input_claims w' d = input_claims w d" and "length (w_invocations w') = length (w_invocations w)"
  shows "claimed w' (kc + xc) (kd + yd)"
proof -
  have d: "open_dones w' (kd + yd) = open_dones w (kd + y)"
    using add_frame(2) [OF assms(3), of kd] by (simp add: open_dones_def ac_simps)
  have "all_claims w' (kc + xc) (kd + yd) = all_claims w (kc + x) (kd + y)"
    using add_frame(2) [OF assms(2), of kc] assms(5) d by (simp add: all_claims_def ac_simps)
  with assms(1,4,6) d show ?thesis by (simp add: claimed_def)
qed

lemma claimed_calm:
  assumes "claimed w (kc + x) (kd + y)"
    and "waiting (\<lambda>_. {#}) claim_action w' + todo claim_cmd cs = waiting (\<lambda>_. {#}) claim_action w + x"
    and "waiting (\<lambda>_. {#}) done_action w' + todo done_cmd cs = waiting (\<lambda>_. {#}) done_action w + y"
    and "calm w w'"
  shows "claimed w' (kc + todo claim_cmd cs) (kd + todo done_cmd cs)"
  using claimed_transfer [OF assms(1-3)] assms(4) calm_input_claims [OF assms(4)] by (simp add: calm_def)

lemma wf_same:
  "w_tokens w' = w_tokens w \<Longrightarrow> w_entries w' = w_entries w \<Longrightarrow> w_invocations w' = w_invocations w
    \<Longrightarrow> length (w_events w) \<le> length (w_events w') \<Longrightarrow> wf_world w \<Longrightarrow> wf_world w'"
  unfolding wf_world_def tables_ok_def release_events_def by (auto intro: less_le_trans)

text \<open>Steps that may add to the tables, but keep the registered uses, the invocations and the flows.\<close>

definition mild :: "'d world \<Rightarrow> 'd world \<Rightarrow> bool" where
  "mild w w' \<longleftrightarrow> w_registered w' = w_registered w \<and> w_invocations w' = w_invocations w
     \<and> map use_flows (w_uses w') = map use_flows (w_uses w)
     \<and> (wf_world w \<longrightarrow> wf_world w')"

lemma mild_refl [simp]: "mild w w"
  by (simp add: mild_def)

lemma mild_trans [trans]: "mild w w1 \<Longrightarrow> mild w1 w2 \<Longrightarrow> mild w w2"
  by (simp add: mild_def)

lemma calm_mild: "calm w w' \<Longrightarrow> mild w w'"
  using calm_wf by (auto simp: mild_def calm_def)

lemma tables_okD:
  assumes "tables_ok w" and "tk \<in> set (w_tokens w)"
  shows "tk_published tk key = Some (Some en) \<Longrightarrow>
      entry_id en < length (w_entries w) \<and> fst (w_entries w ! entry_id en) = en"
    and "tk_collectives tk tag = Some ip \<Longrightarrow>
      invocation_id ip < length (w_invocations w) \<and> fst (w_invocations w ! invocation_id ip) = ip"
  using assms unfolding tables_ok_def by blast+

lemma ensure_entry_mild:
  assumes "ensure_entry t key w = Inr (en, w')"
  shows "mild w w'"
  using assms
proof (cases rule: ensure_entry_cases)
  case old
  then show ?thesis by simp
next
  case (new w1)
  have e: "w_entries w1 = w_entries w @ [(en, None)]" "entry_id en = length (w_entries w)"
    "w_tokens w1 = w_tokens w" "w_invocations w1 = w_invocations w" "w_registered w1 = w_registered w"
    "w_uses w1 = w_uses w" "length (w_events w) \<le> length (w_events w1)" "release_event en < length (w_events w1)"
    using new(2) by (auto simp: make_entry_def new_event_def Let_def)
  have w': "w_entries w' = w_entries w1" "w_invocations w' = w_invocations w1"
    "w_registered w' = w_registered w1" "w_uses w' = w_uses w1" "w_events w' = w_events w1"
    by (simp_all add: new(3) set_published_entry_def Let_def)
  have t: "t < length (w_tokens w)"
    using new(1) by (auto simp: published_entry_def)
  have "wf_world w'" if wf: "wf_world w"
  proof -
    let ?tk = "w_tokens w ! t"
    let ?tk' = "?tk\<lparr>tk_published := (tk_published ?tk)(key \<mapsto> Some en)\<rparr>"
    have toks: "w_tokens w' = (w_tokens w)[t := ?tk']"
      by (auto simp: new(3) set_published_entry_def Let_def e evaluate_at_def split: option.splits)
    have old: "tables_ok w" using wf by (simp add: wf_world_def)
    have grow: "entry_id x < length (w_entries w') \<and> fst (w_entries w' ! entry_id x) = x"
      if "entry_id x < length (w_entries w) \<and> fst (w_entries w ! entry_id x) = x" for x
      using that by (simp add: w' e nth_append)
    have "tables_ok w'"
      unfolding tables_ok_def
    proof (intro ballI conjI allI impI)
      fix tk key' en'
      assume tk: "tk \<in> set (w_tokens w')" and p: "tk_published tk key' = Some (Some en')"
      from tk consider "tk = ?tk'" | "tk \<in> set (w_tokens w)"
        unfolding toks by (meson insertE set_update_subset_insert subsetD)
      then have "entry_id en' < length (w_entries w') \<and> fst (w_entries w' ! entry_id en') = en'"
      proof cases
        case 1
        show ?thesis
        proof (cases "key' = key")
          case True
          with 1 p have "en' = en" by simp
          then show ?thesis by (simp add: w' e)
        next
          case False
          with 1 p have "tk_published ?tk key' = Some (Some en')" by simp
          with tables_okD(1) [OF old nth_mem [OF t]] grow show ?thesis by blast
        qed
      next
        case 2
        with tables_okD(1) [OF old 2 p] grow show ?thesis by blast
      qed
      then show "entry_id en' < length (w_entries w')" "fst (w_entries w' ! entry_id en') = en'" by simp_all
    next
      fix tk tag ip
      assume tk: "tk \<in> set (w_tokens w')" and p: "tk_collectives tk tag = Some ip"
      from tk consider "tk = ?tk'" | "tk \<in> set (w_tokens w)"
        unfolding toks by (meson insertE set_update_subset_insert subsetD)
      then have "invocation_id ip < length (w_invocations w) \<and> fst (w_invocations w ! invocation_id ip) = ip"
      proof cases
        case 1
        with p have "tk_collectives ?tk tag = Some ip" by simp
        with tables_okD(2) [OF old nth_mem [OF t]] show ?thesis by blast
      next
        case 2
        with tables_okD(2) [OF old 2 p] show ?thesis by blast
      qed
      then show "invocation_id ip < length (w_invocations w')" "fst (w_invocations w' ! invocation_id ip) = ip"
        by (simp_all add: w' e)
    qed
    moreover have "release_events w' = insert (release_event en) (release_events w)"
      by (auto simp: release_events_def w' e)
    ultimately show ?thesis
      using wf e(7,8) by (auto simp: wf_world_def w' intro: less_le_trans)
  qed
  then show ?thesis by (simp add: mild_def w' e)
qed

lemma in_flow_calm:
  "in_flow_next rel w = Inr (f, cs, w') \<Longrightarrow> calm w w'"
  "in_flow_initial E us w = Inr (f, cs, w') \<Longrightarrow> calm w w'"
  "in_flow_initial_collection E us w = Inr (f, cs, w') \<Longrightarrow> calm w w'"
  "in_flow_indexed_local E rel w = Inr (f, cs, w') \<Longrightarrow> calm w w'"
proof -
  have of: "calm w w'" if "in_flow_of_cblk cm w = Inr (f, cs, w')" for cm
  proof -
    from that obtain c w1 w2 where c: "make_cblk (fst cm) (w\<lparr>w_mem := snd cm\<rparr>) = (c, w1)"
      and m: "make_flow (Some c) 1 w1 = Inr (f, w2)" and d: "decrement_count (flow_trigger f) w2 = Inr (cs, w')"
      by (auto simp: in_flow_of_cblk_def split: prod.splits)
    have "calm (w\<lparr>w_mem := snd cm\<rparr>) w1" using c by (rule calm_make_cblk)
    also have "calm w1 w2" using m by (rule calm_make_flow)
    also have "calm w2 w'" using d by (rule calm_primitives(4))
    finally show ?thesis by simp
  qed
  show "calm w w'" if "in_flow_initial E us w = Inr (f, cs, w')"
    using that by (auto simp: in_flow_initial_def intro: of)
  show "calm w w'" if "in_flow_initial_collection E us w = Inr (f, cs, w')"
    using that by (auto simp: in_flow_initial_collection_def intro: of)
  show "calm w w'" if "in_flow_next rel w = Inr (f, cs, w')"
    using that by (auto simp: in_flow_next_def dest!: calm_make_flow calm_attach_decrement elim: calm_trans)
  show "calm w w'" if "in_flow_indexed_local E rel w = Inr (f, cs, w')"
  proof -
    from that obtain r coll cb p c w1 w2
      where c: "make_cblk (cblk_for_index (Some p) coll (rel_index rel)) w = (c, w1)"
        and m: "make_flow (Some c) 1 w1 = Inr (f, w2)"
        and a: "attach_decrement_of (flow_trigger r) (flow_trigger f) w2 = Inr (cs, w')"
      by (auto simp: in_flow_indexed_local_def split: prod.splits)
    have "calm w w1" using c by (rule calm_make_cblk)
    also have "calm w1 w2" using m by (rule calm_make_flow)
    also have "calm w2 w'" using a by (rule calm_attach_decrement)
    finally show ?thesis .
  qed
qed

end
