(* ===== verification/ChainShape.thy ===== *)
theory ChainShape
  imports Invariant
begin

text \<open>
  The shape of the commands that do change the flows of a use, the tables or the invocations.
\<close>

section \<open>Registration\<close>

fun chain_cmd :: "cmd \<Rightarrow> nat multiset" where
  "chain_cmd (CRegisterIn u) = {#u#}"
| "chain_cmd (CRegisterAntiIn u) = {#u#}"
| "chain_cmd (CRegisterOut u) = {#u#}"
| "chain_cmd (CRegisterAntiOut u) = {#u#}"
| "chain_cmd _ = {#}"

definition chain_action :: "action \<Rightarrow> nat multiset" where
  "chain_action a = {#}"

interpretation chains: quiet "\<lambda>_. {#}" chain_action chain_cmd
  by unfold_locales (simp_all add: chain_action_def)

lemma no_chain_actions [simp]: "sum_list (map chain_action as) = {#}"
  by (induction as) (simp_all add: chain_action_def)

lemma no_chain_waiting: "waiting (\<lambda>_. {#}) chain_action w = {#}"
  by (simp add: waiting_def)

lemma chain_free_ok: "todo chain_cmd cs = {#} \<Longrightarrow> c \<in> set cs \<Longrightarrow> chain_ok uses c"
proof -
  assume "todo chain_cmd cs = {#}" "c \<in> set cs"
  then have "chain_cmd c = {#}" by (induction cs) auto
  then show ?thesis by (cases c) simp_all
qed

lemma in_flow_fetching_mild:
  assumes "in_flow_indexed_fetching us w = Inr (f, cs, w')"
  shows "mild w w'"
proof -
  from assms obtain c w2 w3 t key en w4
    where c: "make_cblk (cblk_for_fetch (Some (us_handle us)) None) w = (c, w2)"
      and m: "make_flow (Some c) 1 w2 = Inr (f, w3)"
      and e: "ensure_entry t key w3 = Inr (en, w4)"
      and a: "attach_action (fetching_join_counter en) (FetchedAction en f) w4 = Inr (cs, w')"
    by (auto simp: in_flow_indexed_fetching_def Let_def split: prod.splits)
  have "mild w w2" using c by (intro calm_mild calm_make_cblk)
  also have "mild w2 w3" using m by (intro calm_mild calm_make_flow)
  also have "mild w3 w4" using e by (rule ensure_entry_mild)
  also have "mild w4 w'" using a by (intro calm_mild calm_primitives(6))
  finally show ?thesis .
qed

lemma register_in_shape:
  assumes "register_in E u w = Inr (cs, w')"
  shows "\<exists>f w1 cs1. mild w w1 \<and> w' = update_use u (\<lambda>us. us\<lparr>us_in := f\<rparr>) w1 \<and> cs = cs1 @ [CRegisterAntiIn u]"
proof -
  define good where "good \<longleftrightarrow> (\<exists>f w1 cs1. mild w w1 \<and> w' = update_use u (\<lambda>us. us\<lparr>us_in := f\<rparr>) w1
    \<and> cs = cs1 @ [CRegisterAntiIn u])"
  have reuse: good if "reuse_in_flow u r w = Inr (cs, w')" for r
    using that unfolding good_def by (auto simp: reuse_in_flow_def intro!: exI [where x = w])
  have set: good if "set_in_flow u r = Inr (cs, w')" and "\<And>f cs1 w1. r = Inr (f, cs1, w1) \<Longrightarrow> mild w w1" for r
    using that unfolding good_def by (auto simp: set_in_flow_def) blast
  note fet = in_flow_fetching_mild
  from assms obtain us where r: "(let rel = us_in_rel us in
     (case rel_description rel of
        Insignificant \<Rightarrow> reuse_in_flow u (Inr None) w
      | InsignificantCollection \<Rightarrow> reuse_in_flow u (Inr None) w
      | Same \<Rightarrow> reuse_in_flow u (related_flow_ptr rel w) w
      | SameCollection \<Rightarrow> reuse_in_flow u (related_flow_ptr rel w) w
      | Next \<Rightarrow> set_in_flow u (in_flow_next rel w)
      | NextCollection \<Rightarrow> set_in_flow u (in_flow_next rel w)
      | Initial \<Rightarrow> set_in_flow u (in_flow_initial E us w)
      | InitialCollection \<Rightarrow> set_in_flow u (in_flow_initial_collection E us w)
      | IndexedLocal \<Rightarrow> set_in_flow u (in_flow_indexed_local E rel w)
      | IndexedFetching \<Rightarrow> set_in_flow u (in_flow_indexed_fetching us w)
      | Forwarding \<Rightarrow> reuse_in_flow u (related_flow_ptr rel w) w
      | Null \<Rightarrow> Inl UnimplementedRelation
      | NullCollection \<Rightarrow> Inl UnimplementedRelation)) = Inr (cs, w')"
    by (auto simp: register_in_def)
  have calmI: "mild w w1" if "calm w w1" for w1 :: "'a world" using that by (rule calm_mild)
  have good
  proof (cases "rel_description (us_in_rel us)")
    case Next
    with r have "set_in_flow u (in_flow_next (us_in_rel us) w) = Inr (cs, w')" by simp
    then show ?thesis by (rule set) (rule calmI, rule in_flow_calm(1))
  next
    case NextCollection
    with r have "set_in_flow u (in_flow_next (us_in_rel us) w) = Inr (cs, w')" by simp
    then show ?thesis by (rule set) (rule calmI, rule in_flow_calm(1))
  next
    case Initial
    with r have "set_in_flow u (in_flow_initial E us w) = Inr (cs, w')" by simp
    then show ?thesis by (rule set) (rule calmI, rule in_flow_calm(2))
  next
    case InitialCollection
    with r have "set_in_flow u (in_flow_initial_collection E us w) = Inr (cs, w')" by simp
    then show ?thesis by (rule set) (rule calmI, rule in_flow_calm(3))
  next
    case IndexedLocal
    with r have "set_in_flow u (in_flow_indexed_local E (us_in_rel us) w) = Inr (cs, w')" by simp
    then show ?thesis by (rule set) (rule calmI, rule in_flow_calm(4))
  next
    case IndexedFetching
    with r have "set_in_flow u (in_flow_indexed_fetching us w) = Inr (cs, w')" by simp
    then show ?thesis by (rule set) (rule fet)
  qed (use r in \<open>simp_all add: reuse\<close>)
  then show ?thesis by (simp only: good_def)
qed

lemma anti_in_shape:
  assumes "register_anti_in u w = Inr (cs, w')"
  shows "\<exists>f w1 cs1. calm w w1 \<and> w' = update_use u (\<lambda>us. us\<lparr>us_anti_in := f\<rparr>) w1
    \<and> cs = cs1 @ [CRegisterOut u]"
proof -
  define good where "good \<longleftrightarrow> (\<exists>f w1 cs1. calm w w1 \<and> w' = update_use u (\<lambda>us. us\<lparr>us_anti_in := f\<rparr>) w1
    \<and> cs = cs1 @ [CRegisterOut u])"
  have set: good if "set_anti_in_flow u f cs1 w1 = Inr (cs, w')" "calm w w1" for f cs1 w1
    using that by (auto simp: good_def set_anti_in_flow_def)
  have same: good if "anti_in_same u us w = Inr (cs, w')" for us
    using that by (auto simp: anti_in_same_def dest!: calm_primitives(3)
        split: option.splits if_splits) (use set calm_refl in blast)+
  have nxt: good if "anti_in_next u us w = Inr (cs, w')" for us
    using that by (auto simp: anti_in_next_def dest!: calm_make_anti_flow) (use set in blast)
  have fwd: good if "anti_in_forwarding u us w = Inr (cs, w')" for us
    using that by (auto simp: anti_in_forwarding_def dest!: calm_make_anti_flow calm_primitives(4))
        (use set calm_trans in blast)
  have loc: good if "anti_in_indexed_local u us w = Inr (cs, w')" for us
    using that by (auto simp: anti_in_indexed_local_def dest!: calm_make_anti_flow calm_attach_decrement
        split: option.splits) (use set calm_trans calm_refl in blast)+
  from assms obtain us where "(case rel_description (us_anti_in_rel us) of
        Insignificant \<Rightarrow> set_anti_in_flow u None [] w
      | InsignificantCollection \<Rightarrow> set_anti_in_flow u None [] w
      | Same \<Rightarrow> anti_in_same u us w
      | SameCollection \<Rightarrow> anti_in_same u us w
      | Next \<Rightarrow> anti_in_next u us w
      | NextCollection \<Rightarrow> anti_in_next u us w
      | Forwarding \<Rightarrow> anti_in_forwarding u us w
      | IndexedLocal \<Rightarrow> anti_in_indexed_local u us w
      | _ \<Rightarrow> Inl UnimplementedRelation) = Inr (cs, w')"
    by (auto simp: register_anti_in_def)
  moreover have insig: good if "set_anti_in_flow u None [] w = Inr (cs, w')"
    by (rule set [OF that]) simp
  ultimately have good
    by (cases "rel_description (us_anti_in_rel us)") (simp_all add: insig same nxt fwd loc)
  then show ?thesis by (simp only: good_def)
qed

lemma out_shape:
  assumes "register_out u w = Inr (cs, w')"
  shows "\<exists>f w1 cs1. calm w w1 \<and> w' = update_use u (\<lambda>us. us\<lparr>us_out := f\<rparr>) w1
    \<and> cs = cs1 @ [CRegisterAntiOut u]"
proof -
  define good where "good \<longleftrightarrow> (\<exists>f w1 cs1. calm w w1 \<and> w' = update_use u (\<lambda>us. us\<lparr>us_out := f\<rparr>) w1
    \<and> cs = cs1 @ [CRegisterAntiOut u])"
  have set: good if "set_out_flow u f cs1 w1 = Inr (cs, w')" "calm w w1" for f cs1 w1
    using that by (auto simp: good_def set_out_flow_def)
  have same: good if "out_same u r w = Inr (cs, w')" for r
    using that by (auto simp: out_same_def dest!: calm_primitives(3)) (use set in blast)
  have nxt: good if "out_next u r w = Inr (cs, w')" for r
    using that by (auto simp: out_next_def dest!: calm_make_flow) (use set in blast)
  have nul: good if "out_null u us w = Inr (cs, w')" for us
    using that by (auto simp: out_null_def dest!: calm_make_flow) (use set in blast)
  have loc: good if l: "out_indexed_local u r w = Inr (cs, w')" for r
  proof -
    from l obtain g w1 c w2 f w3 cs1 w4 where i: "increment_count (flow_trigger g) w = Inr w1"
      and c: "make_cblk cblk_default w1 = (c, w2)"
      and m: "make_flow (Some c) 1 w2 = Inr (f, w3)"
      and d: "attach_decrement_of (flow_trigger f) (flow_trigger g) w3 = Inr (cs1, w4)"
      and s: "set_out_flow u (Some f) cs1 w4 = Inr (cs, w')"
      by (auto simp: out_indexed_local_def split: prod.splits)
    have "calm w w1" using i by (rule calm_primitives(3))
    also have "calm w1 w2" using c by (rule calm_make_cblk)
    also have "calm w2 w3" using m by (rule calm_make_flow)
    also have "calm w3 w4" using d by (rule calm_attach_decrement)
    finally show good by (rule set [OF s])
  qed
  from assms obtain us related where "(case rel_description (us_out_rel us) of
        Insignificant \<Rightarrow> set_out_flow u None [] w
      | InsignificantCollection \<Rightarrow> set_out_flow u None [] w
      | Same \<Rightarrow> out_same u related w
      | SameCollection \<Rightarrow> out_same u related w
      | Next \<Rightarrow> out_next u related w
      | NextCollection \<Rightarrow> out_next u related w
      | Null \<Rightarrow> out_null u us w
      | NullCollection \<Rightarrow> out_null u us w
      | IndexedLocal \<Rightarrow> out_indexed_local u related w
      | _ \<Rightarrow> Inl UnimplementedRelation) = Inr (cs, w')"
    by (auto simp: register_out_def)
  moreover have insig: good if "set_out_flow u None [] w = Inr (cs, w')"
    by (rule set [OF that]) simp
  ultimately have good
    by (cases "rel_description (us_out_rel us)") (simp_all add: insig same nxt nul loc)
  then show ?thesis by (simp only: good_def)
qed

lemma anti_out_shape:
  assumes "register_anti_out u w = Inr (cs, w')"
  shows "\<exists>f w1. calm w w1 \<and> (w' = w1 \<or> w' = update_use u (\<lambda>us. us\<lparr>us_anti_out := f\<rparr>) w1)"
proof -
  define good where "good \<longleftrightarrow> (\<exists>f w1. calm w w1 \<and> (w' = w1 \<or> w' = update_use u (\<lambda>us. us\<lparr>us_anti_out := f\<rparr>) w1))"
  have set: good if "set_anti_out_flow u f cs1 w1 = Inr (cs, w')" "calm w w1" for f cs1 w1
    using that by (auto simp: good_def set_anti_out_flow_def)
  have ini: good if "anti_out_initial u w = Inr (cs, w')"
    using that by (auto simp: anti_out_initial_def dest!: calm_make_anti_flow) (use set in blast)
  have same: good if "anti_out_same u us r w = Inr (cs, w')" for us r
    using that by (auto simp: anti_out_same_def dest!: calm_primitives(3)) (use set calm_refl in blast)+
  have nxt: good if "anti_out_next u r w = Inr (cs, w')" for r
    using that ini by (auto simp: anti_out_next_def)
  have loc: good if l: "anti_out_indexed_local u r w = Inr (cs, w')" for r
  proof -
    from l obtain g w1 f w2 cs1 w3 where i: "increment_count (anti_flow_trigger g) w = Inr w1"
      and m: "make_anti_flow 1 w1 = Inr (f, w2)"
      and d: "attach_decrement_of (anti_flow_trigger f) (anti_flow_trigger g) w2 = Inr (cs1, w3)"
      and s: "set_anti_out_flow u f cs1 w3 = Inr (cs, w')"
      by (auto simp: anti_out_indexed_local_def)
    have "calm w w1" using i by (rule calm_primitives(3))
    also have "calm w1 w2" using m by (rule calm_make_anti_flow)
    also have "calm w2 w3" using d by (rule calm_attach_decrement)
    finally show good by (rule set [OF s])
  qed
  have fet: good if l: "anti_out_indexed_fetching u us w = Inr (cs, w')" for us
  proof -
    let ?set = "\<lambda>f w1. w1\<lparr>w_aflows := (w_aflows w1)[anti_flow_id f := True]\<rparr>"
    from l obtain f w1 en cs1 w3 where m: "make_anti_flow 1 w = Inr (f, w1)"
      and d: "attach_decrement_of (anti_flow_trigger f) (release_event en) (?set f w1) = Inr (cs1, w3)"
      and s: "set_anti_out_flow u f cs1 w3 = Inr (cs, w')"
      by (auto simp: anti_out_indexed_fetching_def Let_def)
    have "calm w (?set f w1)" using calm_make_anti_flow [OF m] by simp
    also have "calm (?set f w1) w3" using d by (rule calm_attach_decrement)
    finally show good by (rule set [OF s])
  qed
  from assms obtain us related where "(case rel_description (us_anti_out_rel us) of
        Insignificant \<Rightarrow> Inr ([], w)
      | InsignificantCollection \<Rightarrow> Inr ([], w)
      | Initial \<Rightarrow> anti_out_initial u w
      | InitialCollection \<Rightarrow> anti_out_initial u w
      | Same \<Rightarrow> anti_out_same u us related w
      | SameCollection \<Rightarrow> anti_out_same u us related w
      | Next \<Rightarrow> anti_out_next u related w
      | NextCollection \<Rightarrow> anti_out_next u related w
      | IndexedLocal \<Rightarrow> anti_out_indexed_local u related w
      | IndexedFetching \<Rightarrow> anti_out_indexed_fetching u us w
      | _ \<Rightarrow> Inl UnimplementedRelation) = Inr (cs, w')"
    by (auto simp: register_anti_out_def)
  moreover have insig: good if "w' = w" using that calm_refl unfolding good_def by blast
  ultimately have good
    by (cases "rel_description (us_anti_out_rel us)") (auto simp: same nxt loc fet ini intro: insig)
  then show ?thesis by (simp only: good_def)
qed

end
