(* ===== verification/ClaimSteps.thy ===== *)
theory ClaimSteps
  imports ChainShape
begin

text \<open>
  A step of a disciplined backend keeps the claims apart: no use is in two hands at once, and none
  is in any hand that is not registered.
\<close>

section \<open>Change of the claims\<close>

lemma all_claims_add: "all_claims w (kc + x) kd = all_claims w kc kd + x"
  by (simp add: all_claims_def ac_simps)

lemma claimed_bound:
  assumes "claimed w (kc + x) kd"
  shows "count (all_claims w kc kd) u + count x u \<le> (if u \<in> w_registered w then 1 else 0)"
  using assms unfolding claimed_def all_claims_add by simp

text \<open>
  The gain \<open>g\<close> of the claims, where the invocations may have changed: \<open>claimed_step\<close> is the form
  for all the commands below.
\<close>

lemma claimed_step:
  assumes old: "claimed w (kc + x) (kd + y)"
    and c: "waiting (\<lambda>_. {#}) claim_action w' + xc = waiting (\<lambda>_. {#}) claim_action w + g"
    and d: "waiting (\<lambda>_. {#}) done_action w' + yc = waiting (\<lambda>_. {#}) done_action w + y"
    and inputs: "\<And>d. input_claims w' d \<subseteq># input_claims w d + h" and len: "length (w_invocations w) = length (w_invocations w')"
    and bound: "\<And>u. count (all_claims w kc (kd + y)) u + count g u + count h u \<le> (if u \<in> w_registered w' then 1 else 0)"
  shows "claimed w' (kc + xc) (kd + yc)"
proof -
  have od: "open_dones w' (kd + yc) = open_dones w (kd + y)"
    using add_frame(2) [OF d, of kd] by (simp add: open_dones_def ac_simps)
  have all: "all_claims w' (kc + xc) (kd + yc)
      = waiting (\<lambda>_. {#}) claim_action w + kc + g + input_claims w' (open_dones w (kd + y))"
    using add_frame(2) [OF c, of kc] od by (simp add: all_claims_def ac_simps)
  have "count (all_claims w' (kc + xc) (kd + yc)) u \<le> (if u \<in> w_registered w' then 1 else 0)" for u
  proof -
    have "count (input_claims w' (open_dones w (kd + y))) u \<le> count (input_claims w (open_dones w (kd + y))) u + count h u"
      using mset_subset_eq_count [OF inputs [of "open_dones w (kd + y)"], of u] by simp
    then have "count (all_claims w' (kc + xc) (kd + yc)) u \<le> count (all_claims w kc (kd + y)) u + count g u + count h u"
      unfolding all by (simp add: all_claims_def)
    also note bound [of u]
    finally show ?thesis .
  qed
  moreover have "count (open_dones w' (kd + yc)) i \<le> (if i < length (w_invocations w') then 1 else 0)" for i
    using old od len unfolding claimed_def by metis
  ultimately show ?thesis by (simp add: claimed_def)
qed

text \<open>Nothing but the place of the claims changes.\<close>

lemma claimed_move:
  assumes "claimed w (kc + x) (kd + y)"
    and "waiting (\<lambda>_. {#}) claim_action w' + xc = waiting (\<lambda>_. {#}) claim_action w + g" and "g \<subseteq># x"
    and "waiting (\<lambda>_. {#}) done_action w' + yc = waiting (\<lambda>_. {#}) done_action w + y"
    and "w_registered w' = w_registered w" and "\<And>d. input_claims w' d = input_claims w d"
    and "length (w_invocations w') = length (w_invocations w)"
  shows "claimed w' (kc + xc) (kd + yc)"
proof (rule claimed_step [where h = "{#}", OF assms(1,2,4)])
  fix u
  have "count g u \<le> count x u" using assms(3) by (rule mset_subset_eq_count)
  with claimed_bound [OF assms(1), of u] assms(5)
  show "count (all_claims w kc (kd + y)) u + count g u + count {#} u \<le> (if u \<in> w_registered w' then 1 else 0)"
    by (simp split: if_splits)
qed (simp_all add: assms(6,7))

text \<open>The frontend hands over uses of its own.\<close>

lemma claimed_gain:
  assumes "claimed w kc kd" and "waiting (\<lambda>_. {#}) claim_action w' + xc = waiting (\<lambda>_. {#}) claim_action w + g"
    and "waiting (\<lambda>_. {#}) done_action w' + yc = waiting (\<lambda>_. {#}) done_action w"
    and "w_registered w' = w_registered w" and "\<And>d. input_claims w' d \<subseteq># input_claims w d + h"
    and "length (w_invocations w') = length (w_invocations w)"
    and "\<And>u. count (g + h) u \<le> 1" and "\<And>u. u \<in># g + h \<Longrightarrow> u \<in> w_registered w \<and> u \<notin># all_claims w kc kd"
  shows "claimed w' (kc + xc) (kd + yc)"
proof (rule claimed_step [of w kc "{#}" kd "{#}" w' xc g yc h])
  fix u
  show "count (all_claims w kc (kd + {#})) u + count g u + count h u \<le> (if u \<in> w_registered w' then 1 else 0)"
  proof (cases "u \<in># g + h")
    case True
    from assms(8) [OF this] assms(4) assms(7) [of u] show ?thesis by (simp add: not_in_iff)
  next
    case False
    then have "count g u = 0" "count h u = 0" by (simp_all add: not_in_iff)
    with claimed_bound [of w kc "{#}" "kd" u] assms(1,4) show ?thesis by simp
  qed
qed (use assms in simp_all)

lemma mild_input_claims: "mild w w' \<Longrightarrow> input_claims w' d = input_claims w d"
  by (simp add: mild_def input_claims_def cong: if_cong)

lemma claimed_mild:
  assumes "claimed w (kc + x) (kd + y)" and "mild w w'"
    and "waiting (\<lambda>_. {#}) claim_action w' + todo claim_cmd cs = waiting (\<lambda>_. {#}) claim_action w + x"
    and "waiting (\<lambda>_. {#}) done_action w' + todo done_cmd cs = waiting (\<lambda>_. {#}) done_action w + y"
  shows "claimed w' (kc + todo claim_cmd cs) (kd + todo done_cmd cs)"
  using assms by (intro claimed_move [OF assms(1,3) _ assms(4)]) (simp_all add: mild_input_claims, simp_all add: mild_def)

end
