(* ===== verification/StepClaims.thy ===== *)
theory StepClaims
  imports ClaimSteps
begin

text \<open>
  Every step of a disciplined backend keeps the claims apart: the actions, the calls of the frontend
  and the commands of a registration and of a release.
\<close>

section \<open>Steps that only move what they weigh\<close>

fun moves_action :: "action \<Rightarrow> bool" where
  "moves_action (AllreduceDoneAction ip t tag) = False"
| "moves_action _ = True"

fun moves_api :: "api \<Rightarrow> bool" where
  "moves_api (RegisterTask t) = True"
| "moves_api (RegisterTaskCollection tc) = True"
| "moves_api (UserCode u code) = True"
| "moves_api _ = False"

fun moves :: "cmd \<Rightarrow> bool" where
  "moves (CAction a) = moves_action a"
| "moves (CApi a) = moves_api a"
| "moves (CRegisterAntiOut u) = False"
| "moves (CRelease u) = False"
| "moves _ = True"

locale releasing = quiet of_op of_action of_cmd
  for of_op :: "ready_op \<Rightarrow> 'm :: cancel_comm_monoid_add"
    and of_action :: "action \<Rightarrow> 'm" and of_cmd :: "cmd \<Rightarrow> 'm" +
  assumes copy_releases: "of_action (PublishCopyAction en source c u) = of_cmd (CRelease u)"
    and reduce_releases: "of_action (ReduceInReadyAction ui uo n k c) = of_cmd (CRelease ui) + of_cmd (CRelease uo)"
begin

lemma W_run_enqueue: "run_enqueue_action me op w = Inr (cs, w') \<Longrightarrow> W w' + C cs = W w"
  by (auto simp: run_enqueue_action_def W_eq dest!: W_emplace [unfolded W_eq])

lemma W_run_action:
  assumes "run_action E me a w = Inr (cs, w')" and "moves_action a"
  shows "W w' + C cs = W w + of_action a"
  using assms
proof (cases a)
  case (PublishCopyAction en source c u)
  with assms W_publish_copy [of E en source c u w cs w'] show ?thesis
    by (simp add: run_action_def copy_releases)
next
  case (ReduceInReadyAction ui uo n k c)
  with assms W_reduce_ready(1) [of ui uo n k c w cs w'] show ?thesis by (simp add: run_action_def)
next
  case (ReduceAntiReadyAction ui uo n k c)
  with assms W_reduce_ready(2) [of E ui uo n k c w cs w'] show ?thesis
    by (simp add: run_action_def reduce_releases ac_simps)
qed (simp_all add: run_action_def W_decrement W_fetched W_contribute W_shutdown W_run_enqueue)

lemma W_run_ignoring: "run_ignoring_message me op w = Inr (cs, w') \<Longrightarrow> W w' + C cs = W w"
  by (auto simp: run_ignoring_message_def dest!: W_run_operation)

lemma W_stack: "stack_run me op w = Inr (cs, w') \<Longrightarrow> W w' + C cs = W w"
    "stack_exit me w = Inr (cs, w') \<Longrightarrow> W w' + C cs = W w"
  by (auto simp: stack_run_def stack_exit_def Let_def W_eq update_worker_def)

lemma W_start: "spin_up_worker_threads w = Inr (cs, w') \<Longrightarrow> W w' + C cs = W w"
    "work_loop_start w = Inr (cs, w') \<Longrightarrow> W w' + C cs = W w"
    "join_worker i w = Inr (cs, w') \<Longrightarrow> W w' + C cs = W w"
    "user_code E u code w = Inr (cs, w') \<Longrightarrow> W w' + C cs = W w"
  by (auto simp: spin_up_worker_threads_def work_loop_start_def join_worker_def user_code_def add_dorment_def W_eq)

lemma W_dorment: "W (add_dorment d w) = W w"
  by (simp add: add_dorment_def W_eq)

lemma W_step:
  assumes "step E me drawn c w = Inr (cs, w')" and "moves c"
  shows "W w' + C cs = W w + of_cmd c"
  using assms
proof (cases c)
  case (CApi a)
  with assms show ?thesis
    by (cases a) (simp_all add: step_def run_api_def W_register_task W_register_task_collection W_start)
qed (auto simp: step_def W_decrement W_run_action of_cmd_action W_register_in W_anti_in W_out W_alias
    W_add_dependency W_task_dependency W_task_anti_dependency W_enqueue_or_run W_stack W_run_ignoring
    W_task_finished W_create_tasks W_attach W_erase W_start W_work_loop_round W_dorment)

end

interpretation claim_moves: releasing "\<lambda>_. {#}" claim_action claim_cmd
  by unfold_locales simp_all

interpretation done_moves: releasing "\<lambda>_. {#}" done_action done_cmd
  by unfold_locales simp_all

section \<open>What these steps leave alone\<close>

definition same_claimants :: "'d world \<Rightarrow> 'd world \<Rightarrow> bool" where
  "same_claimants w w' \<longleftrightarrow> w_registered w' = w_registered w
     \<and> length (w_invocations w') = length (w_invocations w) \<and> (\<forall>d. input_claims w' d = input_claims w d)"

lemma mild_claimants: "mild w w' \<Longrightarrow> same_claimants w w'"
  by (simp add: same_claimants_def mild_input_claims) (simp add: mild_def)

lemma calm_claimants: "calm w w' \<Longrightarrow> same_claimants w w'"
  by (intro mild_claimants calm_mild)

lemma flow_change_claimants: "mild w w1 \<Longrightarrow> same_claimants w (update_use u f w1)"
  by (simp add: same_claimants_def mild_def update_use_def input_claims_def cong: if_cong)

lemma input_claims_cong:
  assumes "map (\<lambda>p. iv_input_uses (snd p)) (w_invocations w') = map (\<lambda>p. iv_input_uses (snd p)) (w_invocations w)"
  shows "input_claims w' d = input_claims w d" and "length (w_invocations w') = length (w_invocations w)"
proof -
  show len: "length (w_invocations w') = length (w_invocations w)"
    using assms by (metis length_map)
  have "iv_input_uses (snd (w_invocations w' ! i)) = iv_input_uses (snd (w_invocations w ! i))"
    if "i < length (w_invocations w)" for i
    using that assms len by (metis (mono_tags, lifting) nth_map)
  with len show "input_claims w' d = input_claims w d" by (auto simp: input_claims_def intro!: sum.cong)
qed

lemma map_inputs_update:
  assumes "\<And>iv. iv_input_uses (f iv) = iv_input_uses iv"
  shows "map (\<lambda>p. iv_input_uses (snd p)) (xs[i := (fst (xs ! i), f (snd (xs ! i)))]) = map (\<lambda>p. iv_input_uses (snd p)) xs"
  using assms by (cases "i < length xs") (auto simp: map_update list_update_same_conv list_update_beyond)

lemma erase_claimants:
  assumes "erase_collective t tag ip w = Inr (cs, w')"
  shows "same_claimants w w'"
proof -
  have "map (\<lambda>p. iv_input_uses (snd p)) (w_invocations w') = map (\<lambda>p. iv_input_uses (snd p)) (w_invocations w)"
    using assms by (auto simp: erase_collective_def update_invocation_def set_collectives_def Let_def map_inputs_update)
  moreover have "w_registered w' = w_registered w"
    using assms by (auto simp: erase_collective_def update_invocation_def set_collectives_def Let_def)
  ultimately show ?thesis using input_claims_cong [of w' w] by (simp add: same_claimants_def)
qed

lemma register_task_collection_claimants:
  "register_task_collection tc w = Inr (cs, w') \<Longrightarrow> same_claimants w w'"
  by (auto simp: register_task_collection_def make_token_def Let_def same_claimants_def input_claims_def same_books_def
      dest!: increment_count_frame set_parent_tokens_frame cong: if_cong)

lemma calm_plain:
  "run_ignoring_message me op w = Inr (cs, w') \<Longrightarrow> calm w w'"
  "work_loop_start w = Inr (cs, w') \<Longrightarrow> calm w w'"
  by (auto simp: run_ignoring_message_def work_loop_start_def dest!: calm_run_operation)

lemma step_claimants:
  assumes "step E me drawn c w = Inr (cs, w')" and "moves c"
  shows "same_claimants w w'"
  using assms
proof (cases c)
  case (CApi a)
  with assms show ?thesis
    by (cases a) (auto simp: step_def run_api_def intro: calm_claimants calm_intros register_task_collection_claimants)
next
  case (CRegisterIn u)
  with assms register_in_shape [of E u w cs w'] show ?thesis by (auto simp: step_def flow_change_claimants)
next
  case (CRegisterAntiIn u)
  with assms anti_in_shape [of u w cs w'] show ?thesis by (auto simp: step_def flow_change_claimants calm_mild)
next
  case (CRegisterOut u)
  with assms out_shape [of u w cs w'] show ?thesis by (auto simp: step_def flow_change_claimants calm_mild)
qed (auto simp: step_def intro: calm_claimants calm_intros calm_run_action calm_plain erase_claimants)

section \<open>Uses that come and go\<close>

fun hands_over :: "api \<Rightarrow> nat multiset" where
  "hands_over (ReleaseUse u) = {#u#}"
| "hands_over (PublishUse u d) = {#u#}"
| "hands_over (AllreduceUse u d tag) = {#u#}"
| "hands_over (ReduceCollectionUse ui uo d) = {#ui, uo#}"
| "hands_over _ = {#}"

lemma same_invocations: "w_invocations w' = w_invocations w \<Longrightarrow> input_claims w' d = input_claims w d"
  by (simp add: input_claims_def cong: if_cong)

lemma release_frame:
  assumes "release_use u w = Inr (cs, w')"
  shows "w' = w\<lparr>w_registered := w_registered w - {u}\<rparr>"
  using assms by (auto simp: release_use_def Let_def)

lemma release_claimed:
  assumes r: "release_use u w = Inr (cs, w')" and old: "claimed w (kc + x) (kd + {#})" and x: "x = {#} \<or> x = {#u#}"
    and own: "x = {#} \<Longrightarrow> u \<notin># all_claims w kc kd"
  shows "claimed w' (kc + todo claim_cmd cs) (kd + todo done_cmd cs)"
proof (rule claimed_step [where h = "{#}" and g = "{#}", OF old])
  show "waiting (\<lambda>_. {#}) claim_action w' + todo claim_cmd cs = waiting (\<lambda>_. {#}) claim_action w + {#}"
    using claims.W_release_use [OF r] by simp
  show "waiting (\<lambda>_. {#}) done_action w' + todo done_cmd cs = waiting (\<lambda>_. {#}) done_action w + {#}"
    using dones.W_release_use [OF r] by simp
  fix v
  have "count (all_claims w kc kd) v + count x v \<le> (if v \<in> w_registered w then 1 else 0)"
    using claimed_bound [OF old, of v] by simp
  moreover have "count (all_claims w kc kd) u = 0"
  proof (cases "x = {#}")
    case True
    with own show ?thesis by (simp add: not_in_iff)
  next
    case False
    with x have "x = {#u#}" by simp
    with claimed_bound [OF old, of u] show ?thesis by (auto split: if_splits)
  qed
  ultimately show "count (all_claims w kc (kd + {#})) v + count {#} v + count {#} v
      \<le> (if v \<in> w_registered w' then 1 else 0)"
    by (cases "v = u") (auto simp: release_frame [OF r] split: if_splits)
qed (simp_all add: release_frame [OF r] same_invocations [of "w\<lparr>w_registered := R\<rparr>" w for R])

lemma register_frame:
  assumes "register_use u w = Inr (cs, w')"
  shows "w_registered w' = insert u (w_registered w)" and "w_invocations w' = w_invocations w"
    and "w_uses w' = w_uses w"
  using assms by (auto simp: register_use_def assign_key_def split: if_splits)

lemma register_claimed:
  assumes r: "register_use u w = Inr (cs, w')" and old: "claimed w kc kd" and new: "u \<notin> w_registered w"
  shows "claimed w' (kc + todo claim_cmd cs) (kd + todo done_cmd cs)"
proof (rule claimed_step [where h = "{#}" and g = "{#u#}" and x = "{#}" and y = "{#}" and w = w])
  show "waiting (\<lambda>_. {#}) claim_action w' + todo claim_cmd cs = waiting (\<lambda>_. {#}) claim_action w + {#u#}"
    using claims.W_register_use [OF r] by simp
  show "waiting (\<lambda>_. {#}) done_action w' + todo done_cmd cs = waiting (\<lambda>_. {#}) done_action w + {#}"
    using dones.W_register_use [OF r] by simp
  fix v
  have "count (all_claims w kc kd) v \<le> (if v \<in> w_registered w then 1 else 0)"
    using claimed_bound [of w kc "{#}" kd v] old by simp
  with new show "count (all_claims w kc (kd + {#})) v + count {#u#} v + count {#} v
      \<le> (if v \<in> w_registered w' then 1 else 0)"
    by (auto simp: register_frame [OF r] split: if_splits)
qed (use old in \<open>simp_all add: register_frame [OF r] input_claims_def cong: if_cong\<close>)

lemma ensure_entry_names:
  assumes "ensure_entry t key w = Inr (en, w')" and "tables_ok w"
  shows "entry_id en < length (w_entries w') \<and> fst (w_entries w' ! entry_id en) = en"
  using assms(1)
proof (cases rule: ensure_entry_cases)
  case old
  with published_entry_ok [OF old(1) assms(2)] show ?thesis by simp
next
  case (new w1)
  then have "w_entries w' = w_entries w @ [(en, None)]" "entry_id en = length (w_entries w)"
    by (auto simp: make_entry_def new_event_def Let_def set_published_entry_def)
  then show ?thesis by simp
qed

lemma set_source_mild:
  assumes "wf_world w \<Longrightarrow> fst (w_entries w ! entry_id en) = en"
  shows "mild w (set_source_flow en source w)"
proof -
  let ?w = "set_source_flow en source w"
  have "wf_world ?w" if wf: "wf_world w"
  proof -
    have fst: "map fst (w_entries ?w) = map fst (w_entries w)"
      using assms [OF wf]
      by (cases "entry_id en < length (w_entries w)")
        (auto simp: set_source_flow_def map_update list_update_same_conv list_update_beyond)
    then have len: "length (w_entries ?w) = length (w_entries w)" by (metis length_map)
    with fst have nth: "i < length (w_entries w) \<Longrightarrow> fst (w_entries ?w ! i) = fst (w_entries w ! i)" for i
      by (metis nth_map)
    have re: "release_events v = release_event ` set (map fst (w_entries v))" for v :: "'a world"
      by (force simp: release_events_def image_iff)
    have "release_events ?w = release_events w" by (simp only: re fst)
    moreover have "tables_ok ?w"
      using wf nth len unfolding wf_world_def tables_ok_def set_source_flow_def by auto
    ultimately show ?thesis using wf by (simp add: wf_world_def) (simp add: set_source_flow_def)
  qed
  then show ?thesis by (simp add: mild_def) (simp add: set_source_flow_def)
qed

lemma hand_over_claimed:
  assumes old: "claimed w kc kd"
    and c: "waiting (\<lambda>_. {#}) claim_action w' + xc = waiting (\<lambda>_. {#}) claim_action w + g"
    and d: "waiting (\<lambda>_. {#}) done_action w' + yc = waiting (\<lambda>_. {#}) done_action w"
    and mild: "same_claimants w w'"
    and g: "\<And>u. count g u \<le> 1" "\<And>u. u \<in># g \<Longrightarrow> u \<in> w_registered w \<and> u \<notin># all_claims w kc kd"
  shows "claimed w' (kc + xc) (kd + yc)"
  using claimed_gain [where h = "{#}", OF old c d] mild g by (simp add: same_claimants_def)

lemma publish_mild:
  assumes "publish_use u d w = Inr (cs, w')"
  shows "mild w w'"
proof -
  from assms obtain t key en w1 where e: "ensure_entry t key w = Inr (en, w1)"
    and p: "publish_at_entry u (n_fetchers d) en w1 = Inr (cs, w')"
    by (auto simp: publish_use_def)
  from p obtain w2 cs1 w3 in_flow c source w4 cs2
    where v: "advance_count (release_event en) (of_nat (n_fetchers d)) w1 = Inr w2"
      and dd: "decrement_count (release_event en) w2 = Inr (cs1, w3)"
      and m: "make_flow None 1 w3 = Inr (source, w4)"
      and a: "attach_action (flow_trigger in_flow) (PublishCopyAction en source c u)
             (set_source_flow en source w4) = Inr (cs2, w')"
    by (auto simp: publish_at_entry_def)
  have w1: "mild w w1" using e by (rule ensure_entry_mild)
  have calm: "calm w1 w4"
    using calm_primitives(2) [OF v] calm_primitives(4) [OF dd] calm_make_flow [OF m] calm_trans by blast
  show ?thesis
  proof (cases "wf_world w")
    case True
    then have "fst (w_entries w4 ! entry_id en) = en"
      using ensure_entry_names [OF e] calm by (simp add: wf_world_def calm_def)
    then have "mild w4 (set_source_flow en source w4)" by (rule set_source_mild)
    with calm_mild [OF calm] w1 calm_mild [OF calm_primitives(6) [OF a]] show ?thesis
      using mild_trans by blast
  next
    case False
    then have "w_registered w1 = w_registered w \<and> w_invocations w1 = w_invocations w
        \<and> map use_flows (w_uses w1) = map use_flows (w_uses w)"
      using w1 by (simp add: mild_def)
    with False calm calm_primitives(6) [OF a] show ?thesis
      by (simp add: mild_def calm_def) (simp add: set_source_flow_def)
  qed
qed

lemma publish_claimed:
  assumes r: "publish_use u d w = Inr (cs, w')" and old: "claimed w kc kd"
    and own: "u \<in> w_registered w" "u \<notin># all_claims w kc kd"
  shows "claimed w' (kc + todo claim_cmd cs) (kd + todo done_cmd cs)"
proof (rule hand_over_claimed [OF old, where g = "{#u#}"])
  show "waiting (\<lambda>_. {#}) claim_action w' + todo claim_cmd cs = waiting (\<lambda>_. {#}) claim_action w + {#u#}"
    by (rule claims.W_publish [OF r]) simp
  show "waiting (\<lambda>_. {#}) done_action w' + todo done_cmd cs = waiting (\<lambda>_. {#}) done_action w"
    by (rule dones.W_publish [OF r]) simp
qed (use mild_claimants [OF publish_mild [OF r]] own in \<open>auto split: if_splits\<close>)

lemma reduce_claimed:
  assumes r: "reduce_collection_use ui uo d w = Inr (cs, w')" and old: "claimed w kc kd"
    and own: "ui \<in> w_registered w" "ui \<notin># all_claims w kc kd" "uo \<in> w_registered w" "uo \<notin># all_claims w kc kd"
      "ui \<noteq> uo"
  shows "claimed w' (kc + todo claim_cmd cs) (kd + todo done_cmd cs)"
proof (rule hand_over_claimed [OF old, where g = "{#ui, uo#}"])
  show "waiting (\<lambda>_. {#}) claim_action w' + todo claim_cmd cs = waiting (\<lambda>_. {#}) claim_action w + {#ui, uo#}"
    using claims.W_reduce_collection [OF r] by simp
  show "waiting (\<lambda>_. {#}) done_action w' + todo done_cmd cs = waiting (\<lambda>_. {#}) done_action w"
    using dones.W_reduce_collection [OF r] by simp
  show "same_claimants w w'" using calm_contribute(6) [OF r] by (rule calm_claimants)
qed (use own in \<open>auto split: if_splits\<close>)

text \<open>Collectives: the claims move into the invocation and, when it is done, out of it.\<close>

lemma input_claims_push:
  fixes w w' :: "'d world"
  assumes "i < length (w_invocations w)"
    and "w_invocations w' = (w_invocations w)[i := (p, iv)]"
    and "iv_input_uses iv = iv_input_uses (snd (w_invocations w ! i)) @ [u]"
  shows "input_claims w' d \<subseteq># input_claims w d + {#u#}"
proof -
  let ?f = "\<lambda>v j. if j \<in># d then mset (iv_input_uses (snd (w_invocations v ! j))) else {#}"
  have split: "input_claims v d = ?f v i + (\<Sum>j\<in>{..<length (w_invocations w)} - {i}. ?f v j)"
    if "length (w_invocations v) = length (w_invocations w)" for v :: "'d world"
    using that assms(1) by (simp add: input_claims_def sum.remove)
  have "(\<Sum>j\<in>{..<length (w_invocations w)} - {i}. ?f w' j) = (\<Sum>j\<in>{..<length (w_invocations w)} - {i}. ?f w j)"
    by (rule sum.cong) (auto simp: assms(2))
  moreover have "?f w' i \<subseteq># ?f w i + {#u#}"
    using assms by simp
  ultimately show ?thesis using split [of w] split [of w'] assms(2) by simp
qed

lemma contribute_more_inputs:
  assumes c: "contribute_more u op ip w = Inr (cs, w')" and len: "invocation_id ip < length (w_invocations w)"
  shows "input_claims w' d \<subseteq># input_claims w d + {#u#}" and "w_registered w' = w_registered w"
    and "length (w_invocations w') = length (w_invocations w)"
proof -
  let ?w1 = "push_input_use ip u w"
  from c have calm: "calm ?w1 w'"
    by (auto simp: contribute_more_def then_do_def Let_def dest!: calm_primitives split: option.splits)
  have "w_invocations ?w1 = (w_invocations w)[invocation_id ip := (fst (w_invocations w ! invocation_id ip),
      (snd (w_invocations w ! invocation_id ip))\<lparr>iv_input_uses := iv_input_uses (snd (w_invocations w ! invocation_id ip)) @ [u]\<rparr>)]"
    by (simp add: push_input_use_def update_invocation_def Let_def)
  from input_claims_push [OF len this] show "input_claims w' d \<subseteq># input_claims w d + {#u#}"
    by (simp add: calm_input_claims [OF calm])
  show "w_registered w' = w_registered w" "length (w_invocations w') = length (w_invocations w)"
    using calm by (auto simp: calm_def push_input_use_def update_invocation_def Let_def)
qed

lemma contribute_more_claimed:
  assumes c: "contribute_more u op ip w = Inr (cs, w')" and old: "claimed w kc kd"
    and len: "invocation_id ip < length (w_invocations w)"
    and own: "u \<in> w_registered w" "u \<notin># all_claims w kc kd"
  shows "claimed w' (kc + todo claim_cmd cs) (kd + todo done_cmd cs)"
proof (rule claimed_gain [where h = "{#u#}" and g = "{#}", OF old])
  show "waiting (\<lambda>_. {#}) claim_action w' + todo claim_cmd cs = waiting (\<lambda>_. {#}) claim_action w + {#}"
    using claims.W_contribute_more [OF c] by simp
  show "waiting (\<lambda>_. {#}) done_action w' + todo done_cmd cs = waiting (\<lambda>_. {#}) done_action w"
    using dones.W_contribute_more [OF c] by simp
qed (use contribute_more_inputs [OF c len] own in \<open>auto split: if_splits\<close>)

text \<open>A new invocation is the last one; its completion is open from now on.\<close>

lemma contribute_first_inputs:
  assumes m: "make_invocation n w = (ip, w1)"
    and c: "contribute_first u t tag ip (set_collectives t f w1) = Inr (cs, w')"
  shows "w_registered w' = w_registered w" and "length (w_invocations w') = Suc (length (w_invocations w))"
    and "waiting (\<lambda>_. {#}) claim_action w' + todo claim_cmd cs = waiting (\<lambda>_. {#}) claim_action w"
    and "open_dones w' (kd + todo done_cmd cs) = open_dones w kd + {#length (w_invocations w)#}"
    and "input_claims w' (open_dones w kd + {#length (w_invocations w)#}) \<subseteq># input_claims w (open_dones w kd) + {#u#}"
proof -
  let ?n = "length (w_invocations w)"
  let ?w2 = "set_collectives t f w1"
  have w2: "w_invocations ?w2 = w_invocations w @ [(ip, \<lparr>iv_input_uses = [], iv_size = n, iv_owned = True\<rparr>)]"
    "w_registered ?w2 = w_registered w" "invocation_id ip = ?n"
    using m by (auto simp: make_invocation_def new_event_def set_collectives_def Let_def)
  have W: "waiting (\<lambda>_. {#}) claim_action ?w2 = waiting (\<lambda>_. {#}) claim_action w"
    "waiting (\<lambda>_. {#}) done_action ?w2 = waiting (\<lambda>_. {#}) done_action w"
    using m by (auto simp: claims.W_eq dones.W_eq make_invocation_def new_event_def set_collectives_def Let_def)
  from c obtain w3 where at: "calm ?w2 w3" and calm: "calm (push_input_use ip u w3) w'"
    by (auto simp: contribute_first_def Let_def dest!: calm_primitives split: option.splits)
  have w3: "w_invocations w3 = w_invocations ?w2" "w_registered w3 = w_registered ?w2"
    using at by (simp_all add: calm_def)
  have inv': "w_invocations w' = w_invocations w @ [(ip, \<lparr>iv_input_uses = [u], iv_size = n, iv_owned = True\<rparr>)]"
    using calm w3 w2 by (simp add: calm_def push_input_use_def update_invocation_def Let_def)
  show "w_registered w' = w_registered w" "length (w_invocations w') = Suc ?n"
    using calm w3 w2 by (simp_all add: calm_def push_input_use_def update_invocation_def Let_def)
  have fin: "waiting (\<lambda>_. {#}) done_action w' + todo done_cmd cs = waiting (\<lambda>_. {#}) done_action w + {#?n#}"
    using dones.W_contribute_first [OF c] W w2 by simp
  show "waiting (\<lambda>_. {#}) claim_action w' + todo claim_cmd cs = waiting (\<lambda>_. {#}) claim_action w"
    using claims.W_contribute_first [OF c] W by simp
  show "open_dones w' (kd + todo done_cmd cs) = open_dones w kd + {#?n#}"
    using add_frame(2) [OF fin, of kd] by (simp add: open_dones_def ac_simps)
  have "input_claims w (open_dones w kd + {#?n#}) = input_claims w (open_dones w kd)"
    by (auto simp: input_claims_def intro!: sum.cong)
  moreover have "input_claims w' d \<subseteq># input_claims w d + {#u#}" for d
    by (simp add: input_claims_def inv' nth_append lessThan_Suc cong: if_cong)
  ultimately show "input_claims w' (open_dones w kd + {#?n#}) \<subseteq># input_claims w (open_dones w kd) + {#u#}" by metis
qed

lemma contribute_first_claimed:
  assumes m: "make_invocation n w = (ip, w1)"
    and c: "contribute_first u t tag ip (set_collectives t f w1) = Inr (cs, w')" and old: "claimed w kc kd"
    and own: "u \<in> w_registered w" "u \<notin># all_claims w kc kd"
  shows "claimed w' (kc + todo claim_cmd cs) (kd + todo done_cmd cs)"
proof -
  let ?n = "length (w_invocations w)"
  note w' = contribute_first_inputs [OF m c]
  have claim: "waiting (\<lambda>_. {#}) claim_action w' + todo claim_cmd cs = waiting (\<lambda>_. {#}) claim_action w + {#}"
    using w'(3) by simp
  have new: "?n \<notin># open_dones w kd"
    using old unfolding claimed_def by (metis le_zero_eq less_irrefl not_in_iff)
  have "all_claims w' (kc + todo claim_cmd cs) (kd + todo done_cmd cs) \<subseteq># all_claims w kc kd + {#u#}"
    using add_frame(2) [OF claim, of kc] w'(4,5) [of kd] by (simp add: all_claims_def ac_simps)
  then have "count (all_claims w' (kc + todo claim_cmd cs) (kd + todo done_cmd cs)) v \<le> count (all_claims w kc kd + {#u#}) v" for v
    by (rule mset_subset_eq_count)
  moreover have "count (all_claims w kc kd + {#u#}) v \<le> (if v \<in> w_registered w' then 1 else 0)" for v
    using claimed_bound [of w kc "{#}" kd v] old own by (cases "v = u") (simp_all add: w'(1) not_in_iff)
  ultimately have "count (all_claims w' (kc + todo claim_cmd cs) (kd + todo done_cmd cs)) v
      \<le> (if v \<in> w_registered w' then 1 else 0)" for v
    by (meson order_trans)
  moreover have "count (open_dones w' (kd + todo done_cmd cs)) j \<le> (if j < length (w_invocations w') then 1 else 0)" for j
  proof -
    have "count (open_dones w kd) j \<le> (if j < ?n then 1 else 0)" using old by (simp add: claimed_def)
    with new show ?thesis by (auto simp: w'(2,4) not_in_iff split: if_splits)
  qed
  ultimately show ?thesis by (simp add: claimed_def)
qed

lemma allreduce_claimed:
  assumes r: "allreduce_use u d tag w = Inr (cs, w')" and old: "claimed w kc kd" and t: "tables_ok w"
    and own: "u \<in> w_registered w" "u \<notin># all_claims w kc kd"
  shows "claimed w' (kc + todo claim_cmd cs) (kd + todo done_cmd cs)"
  using r
proof (cases rule: claims.W_allreduce)
  case (more t ip)
  with tables_okD(2) [OF assms(3) nth_mem] have "invocation_id ip < length (w_invocations w)" by blast
  with contribute_more_claimed [OF more(4) old] own show ?thesis by simp
next
  case (first t ip w1)
  with contribute_first_claimed [OF first(4,5) old] own show ?thesis by simp
qed

text \<open>What the completion of a collective takes out of the claims.\<close>

lemma allreduce_done_inputs:
  assumes r: "run_allreduce_done E ip t tag w = Inr (cs, w')" and old: "claimed w kc (kd + {#invocation_id ip#})"
  shows "open_dones w' (kd + todo done_cmd cs) = open_dones w kd"
    and "input_claims w (open_dones w (kd + {#invocation_id ip#}))
      = input_claims w (open_dones w kd) + mset (iv_input_uses (snd (w_invocations w ! invocation_id ip)))"
    and "count (open_dones w kd) j \<le> (if j < length (w_invocations w) then 1 else 0)"
proof -
  let ?i = "invocation_id ip"
  let ?D = "open_dones w kd"
  have od: "open_dones w (kd + {#?i#}) = ?D + {#?i#}" by (simp add: open_dones_def)
  have bound: "count (?D + {#?i#}) j \<le> (if j < length (w_invocations w) then 1 else 0)" for j
    using old unfolding claimed_def od by blast
  from bound [of ?i] have i: "?i < length (w_invocations w)" and new: "?i \<notin># ?D"
    by (simp_all add: not_in_iff split: if_splits)
  let ?f = "\<lambda>d j. if j \<in># d then mset (iv_input_uses (snd (w_invocations w ! j))) else {#}"
  have "input_claims w d = ?f d ?i + (\<Sum>j\<in>{..<length (w_invocations w)} - {?i}. ?f d j)" for d
    using i by (simp add: input_claims_def sum.remove)
  moreover have "(\<Sum>j\<in>{..<length (w_invocations w)} - {?i}. ?f (?D + {#?i#}) j)
      = (\<Sum>j\<in>{..<length (w_invocations w)} - {?i}. ?f ?D j)"
    by (rule sum.cong) auto
  ultimately show "input_claims w (open_dones w (kd + {#?i#}))
      = input_claims w ?D + mset (iv_input_uses (snd (w_invocations w ! ?i)))"
    unfolding od using new by (simp add: ac_simps)
  have fin: "waiting (\<lambda>_. {#}) done_action w' + todo done_cmd cs = waiting (\<lambda>_. {#}) done_action w + {#}"
    using dones.W_allreduce_done [OF r] by simp
  show "open_dones w' (kd + todo done_cmd cs) = ?D"
    using add_frame(2) [OF fin, of kd] by (simp add: open_dones_def ac_simps)
  show "count ?D j \<le> (if j < length (w_invocations w) then 1 else 0)"
    using bound [of j] by (auto split: if_splits)
qed

lemma allreduce_done_claimed:
  assumes r: "run_allreduce_done E ip t tag w = Inr (cs, w')" and old: "claimed w kc (kd + {#invocation_id ip#})"
  shows "claimed w' (kc + todo claim_cmd cs) (kd + todo done_cmd cs)"
proof -
  let ?in = "mset (iv_input_uses (snd (w_invocations w ! invocation_id ip)))"
  have calm: "calm w w'" using r by (rule calm_contribute(5))
  note inputs = allreduce_done_inputs [OF r old]
  have claim: "waiting (\<lambda>_. {#}) claim_action w' + todo claim_cmd cs = waiting (\<lambda>_. {#}) claim_action w + ?in"
    using claims.W_allreduce_done [OF r] by simp
  have "all_claims w' (kc + todo claim_cmd cs) (kd + todo done_cmd cs) = all_claims w kc (kd + {#invocation_id ip#})"
    using add_frame(2) [OF claim, of kc] inputs(1,2) calm_input_claims [OF calm]
    by (simp add: all_claims_def ac_simps)
  then show ?thesis using old calm inputs(3) by (simp add: claimed_def inputs(1) calm_def)
qed

section \<open>Every step\<close>

text \<open>What the discipline asks of a command: fresh uses are registered, and the own ones handed over.\<close>

definition hands_own :: "'d world \<Rightarrow> nat multiset \<Rightarrow> nat multiset \<Rightarrow> cmd \<Rightarrow> bool" where
  "hands_own w kc kd c \<longleftrightarrow>
     (\<forall>a. c = CApi a \<longrightarrow>
        (\<forall>u. count (hands_over a) u \<le> 1)
        \<and> (\<forall>u\<in>#hands_over a. u \<in> w_registered w \<and> u \<notin># all_claims w kc kd))"

lemma moved_claimed:
  assumes "step E me drawn c w = Inr (cs, w')" and "claimed w (kc + claim_cmd c) (kd + done_cmd c)" and "moves c"
  shows "claimed w' (kc + todo claim_cmd cs) (kd + todo done_cmd cs)"
  using claimed_move [OF assms(2) claim_moves.W_step [OF assms(1,3)] _ done_moves.W_step [OF assms(1,3)]]
    step_claimants [OF assms(1,3)]
  by (simp add: same_claimants_def)

lemma anti_out_claimed:
  assumes "register_anti_out u w = Inr (cs, w')" and "claimed w (kc + {#u#}) kd"
  shows "claimed w' (kc + todo claim_cmd cs) (kd + todo done_cmd cs)"
proof -
  have "same_claimants w w'"
    using anti_out_shape [OF assms(1)] by (auto simp: calm_claimants flow_change_claimants calm_mild)
  then show ?thesis
    using claimed_move [of w kc "{#u#}" kd "{#}" w' "todo claim_cmd cs" "{#}" "todo done_cmd cs"] assms(2)
      claims.W_anti_out [OF assms(1)] dones.W_anti_out [OF assms(1)]
    by (simp add: same_claimants_def)
qed

lemma step_claimed:
  assumes "step E me drawn c w = Inr (cs, w')"
    and "claimed w (kc + claim_cmd c) (kd + done_cmd c)" and "tables_ok w"
    and "hands_own w kc kd c" and "registers_fresh c w"
  shows "claimed w' (kc + todo claim_cmd cs) (kd + todo done_cmd cs)"
proof (cases "moves c")
  case True
  with moved_claimed [OF assms(1,2)] show ?thesis .
next
  case False
  then show ?thesis
  proof (cases c)
    case (CAction a)
    with False obtain ip t tag where "a = AllreduceDoneAction ip t tag" by (cases a) simp_all
    with CAction assms(1,2) allreduce_done_claimed [of E ip t tag w cs w' kc kd] show ?thesis
      by (simp add: step_def run_action_def)
  next
    case (CApi a)
    have own: "u \<in> w_registered w \<and> u \<notin># all_claims w kc kd" if "u \<in># hands_over a" for u
      using assms(4) CApi that by (auto simp: hands_own_def)
    have once: "count (hands_over a) u \<le> 1" for u
      using assms(4) CApi by (auto simp: hands_own_def)
    have run: "run_api E me a w = Inr (cs, w')" and old: "claimed w kc kd"
      using assms(1,2) CApi by (simp_all add: step_def)
    show ?thesis
    proof (cases a)
      case (RegisterUse u)
      with run old assms(5) CApi register_claimed [of u w cs w' kc kd] show ?thesis by (simp add: run_api_def)
    next
      case (ReleaseUse u)
      with run old own [of u] release_claimed [of u w cs w' kc "{#}" kd] show ?thesis by (simp add: run_api_def)
    next
      case (PublishUse u d)
      with run old own [of u] publish_claimed [of u d w cs w' kc kd] show ?thesis by (simp add: run_api_def)
    next
      case (AllreduceUse u d tag)
      with run old own [of u] assms(3) allreduce_claimed [of u d tag w cs w' kc kd] show ?thesis
        by (simp add: run_api_def)
    next
      case (ReduceCollectionUse ui uo d)
      with once [of ui] have "ui \<noteq> uo" by auto
      with run old own [of ui] own [of uo] ReduceCollectionUse reduce_claimed [of ui uo d w cs w' kc kd] show ?thesis
        by (simp add: run_api_def)
    qed (use False CApi in simp_all)
  next
    case (CRegisterAntiOut u)
    with assms(1,2) anti_out_claimed [of u w cs w' kc kd] show ?thesis by (simp add: step_def)
  next
    case (CRelease u)
    with assms(1,2) release_claimed [of u w cs w' kc "{#u#}" kd] show ?thesis by (simp add: step_def)
  qed simp_all
qed

end
