(* ===== verification/StepShape.thy ===== *)
theory StepShape
  imports StepClaims
begin

text \<open>
  Every step keeps the tables of the tokens well-formed and the flows of a use null until the
  command that sets them.
\<close>

section \<open>Tables\<close>

lemma wf_tables:
  assumes wf: "wf_world w" and "w_entries w' = w_entries w" and "length (w_events w) \<le> length (w_events w')"
    and pub: "\<And>tk key en. tk \<in> set (w_tokens w') \<Longrightarrow> tk_published tk key = Some (Some en)
      \<Longrightarrow> \<exists>tk0\<in>set (w_tokens w). tk_published tk0 key = Some (Some en)"
    and coll: "\<And>tk tag ip. tk \<in> set (w_tokens w') \<Longrightarrow> tk_collectives tk tag = Some ip
      \<Longrightarrow> (\<exists>tk0\<in>set (w_tokens w). tk_collectives tk0 tag = Some ip)
        \<or> invocation_id ip < length (w_invocations w') \<and> fst (w_invocations w' ! invocation_id ip) = ip"
    and inv: "\<And>ip. invocation_id ip < length (w_invocations w) \<and> fst (w_invocations w ! invocation_id ip) = ip
      \<Longrightarrow> invocation_id ip < length (w_invocations w') \<and> fst (w_invocations w' ! invocation_id ip) = ip"
  shows "wf_world w'"
proof -
  have old: "tables_ok w" using wf by (simp add: wf_world_def)
  have "tables_ok w'"
    unfolding tables_ok_def
  proof (intro ballI conjI allI impI)
    fix tk key en
    assume "tk \<in> set (w_tokens w')" "tk_published tk key = Some (Some en)"
    from pub [OF this] tables_okD(1) [OF old]
    show "entry_id en < length (w_entries w')" "fst (w_entries w' ! entry_id en) = en"
      unfolding assms(2) by blast+
  next
    fix tk tag ip
    assume "tk \<in> set (w_tokens w')" "tk_collectives tk tag = Some ip"
    from coll [OF this] tables_okD(2) [OF old] inv
    show "invocation_id ip < length (w_invocations w')" "fst (w_invocations w' ! invocation_id ip) = ip"
      by blast+
  qed
  with assms(1-3) show ?thesis by (auto simp: wf_world_def release_events_def)
qed

lemma flow_change_wf: "mild w w1 \<Longrightarrow> wf_world w \<Longrightarrow> wf_world (update_use u f w1)"
  by (rule wf_same [where w = w1]) (simp_all add: mild_def update_use_def)

lemma register_task_collection_wf:
  assumes "register_task_collection tc w = Inr (cs, w')" and "wf_world w"
  shows "wf_world w'"
proof (rule wf_tables [OF assms(2)])
  from assms(1) obtain tk where t: "w_tokens w' = w_tokens w @ [tk]" "tk_published tk = (\<lambda>_. None)"
      "tk_collectives tk = (\<lambda>_. None)"
    and same: "w_entries w' = w_entries w" "w_invocations w' = w_invocations w" "length (w_events w') = length (w_events w)"
    by (auto simp: register_task_collection_def make_token_def Let_def same_books_def
        dest!: increment_count_frame set_parent_tokens_frame)
  show "w_entries w' = w_entries w" "length (w_events w) \<le> length (w_events w')" by (simp_all add: same)
  show "\<exists>tk0\<in>set (w_tokens w). tk_published tk0 key = Some (Some en)"
    if "tk \<in> set (w_tokens w')" "tk_published tk key = Some (Some en)" for tk key en
    using that t by auto
  show "(\<exists>tk0\<in>set (w_tokens w). tk_collectives tk0 tag = Some ip)
        \<or> invocation_id ip < length (w_invocations w') \<and> fst (w_invocations w' ! invocation_id ip) = ip"
    if "tk \<in> set (w_tokens w')" "tk_collectives tk tag = Some ip" for tk tag ip
    using that t by auto
qed (use assms in \<open>auto simp: register_task_collection_def make_token_def Let_def same_books_def
        dest!: increment_count_frame set_parent_tokens_frame\<close>)

lemma map_fst_update: "map fst (xs[i := (fst (xs ! i), y)]) = map fst xs"
  by (cases "i < length xs") (auto simp: map_update list_update_same_conv list_update_beyond)

lemma named_invocations:
  assumes "map fst (w_invocations w') = map fst (w_invocations w) @ ys"
    and "invocation_id ip < length (w_invocations w) \<and> fst (w_invocations w ! invocation_id ip) = ip"
  shows "invocation_id ip < length (w_invocations w') \<and> fst (w_invocations w' ! invocation_id ip) = ip"
proof -
  have len: "length (w_invocations w') = length (w_invocations w) + length ys"
    using arg_cong [OF assms(1), of length] by simp
  have "map fst (w_invocations w') ! invocation_id ip = ip"
    using assms(2) by (simp add: assms(1) nth_append)
  with len assms(2) show ?thesis by simp
qed

lemma erase_wf:
  assumes "erase_collective t tag ip w = Inr (cs, w')" and "wf_world w"
  shows "wf_world w'"
proof (rule wf_tables [OF assms(2)])
  let ?tk = "w_tokens w ! t"
  from assms(1) have t: "t < length (w_tokens w)"
      "w_tokens w' = (w_tokens w)[t := ?tk\<lparr>tk_collectives := erase tag (tk_collectives ?tk)\<rparr>]"
    and same: "w_entries w' = w_entries w" "w_events w' = w_events w"
    and inv: "map fst (w_invocations w') = map fst (w_invocations w) @ []"
    by (auto simp: erase_collective_def update_invocation_def set_collectives_def Let_def map_fst_update)
  show "w_entries w' = w_entries w" "length (w_events w) \<le> length (w_events w')" by (simp_all add: same)
  have tk: "tk \<in> set (w_tokens w) \<or> tk = ?tk\<lparr>tk_collectives := erase tag (tk_collectives ?tk)\<rparr>"
    if "tk \<in> set (w_tokens w')" for tk
    using that set_update_subset_insert unfolding t(2) by fastforce
  have mem: "?tk \<in> set (w_tokens w)" using t(1) by simp
  show "\<exists>tk0\<in>set (w_tokens w). tk_published tk0 key = Some (Some en)"
    if "tk \<in> set (w_tokens w')" "tk_published tk key = Some (Some en)" for tk key en
    using tk [OF that(1)] that(2) mem by auto
  show "(\<exists>tk0\<in>set (w_tokens w). tk_collectives tk0 tag' = Some ip')
        \<or> invocation_id ip' < length (w_invocations w') \<and> fst (w_invocations w' ! invocation_id ip') = ip'"
    if "tk \<in> set (w_tokens w')" "tk_collectives tk tag' = Some ip'" for tk tag' ip'
    using tk [OF that(1)] that(2) mem by (auto simp: erase_def split: if_splits)
  show "invocation_id ip' < length (w_invocations w') \<and> fst (w_invocations w' ! invocation_id ip') = ip'"
    if "invocation_id ip' < length (w_invocations w) \<and> fst (w_invocations w ! invocation_id ip') = ip'" for ip'
    using named_invocations [OF inv that] .
qed

lemma push_wf: "wf_world w \<Longrightarrow> wf_world (push_input_use ip u w)"
proof (rule wf_tables [of w])
  have inv: "map fst (w_invocations (push_input_use ip u w)) = map fst (w_invocations w) @ []"
    by (simp add: push_input_use_def update_invocation_def Let_def map_fst_update)
  show "invocation_id ip' < length (w_invocations (push_input_use ip u w))
      \<and> fst (w_invocations (push_input_use ip u w) ! invocation_id ip') = ip'"
    if "invocation_id ip' < length (w_invocations w) \<and> fst (w_invocations w ! invocation_id ip') = ip'" for ip'
    using named_invocations [OF inv that] .
qed (auto simp: push_input_use_def update_invocation_def Let_def)

lemma first_wf:
  assumes m: "make_invocation n w = (ip, w1)" and wf: "wf_world w" and t: "t < length (w_tokens w)"
    and f: "\<And>tag' ip'. f (tk_collectives (w_tokens w ! t)) tag' = Some ip'
      \<Longrightarrow> tk_collectives (w_tokens w ! t) tag' = Some ip' \<or> ip' = ip"
  shows "wf_world (set_collectives t f w1)"
proof (rule wf_tables [OF wf])
  let ?w2 = "set_collectives t f w1"
  let ?tk = "w_tokens w ! t"
  have w2: "w_invocations w1 = w_invocations w @ [(ip, \<lparr>iv_input_uses = [], iv_size = n, iv_owned = True\<rparr>)]"
      "w_entries ?w2 = w_entries w" "length (w_events w) \<le> length (w_events ?w2)"
      "invocation_id ip = length (w_invocations w)"
      "w_tokens ?w2 = (w_tokens w)[t := ?tk\<lparr>tk_collectives := f (tk_collectives ?tk)\<rparr>]"
    using m by (auto simp: make_invocation_def new_event_def set_collectives_def Let_def)
  show "w_entries ?w2 = w_entries w" "length (w_events w) \<le> length (w_events ?w2)" by (rule w2)+
  have tk: "tk \<in> set (w_tokens w) \<or> tk = ?tk\<lparr>tk_collectives := f (tk_collectives ?tk)\<rparr>"
    if "tk \<in> set (w_tokens ?w2)" for tk
    using that set_update_subset_insert unfolding w2 by fastforce
  have mem: "?tk \<in> set (w_tokens w)" using t by simp
  show "\<exists>tk0\<in>set (w_tokens w). tk_published tk0 key = Some (Some en)"
    if "tk \<in> set (w_tokens ?w2)" "tk_published tk key = Some (Some en)" for tk key en
    using tk [OF that(1)] that(2) mem by auto
  show "(\<exists>tk0\<in>set (w_tokens w). tk_collectives tk0 tag' = Some ip')
        \<or> invocation_id ip' < length (w_invocations ?w2) \<and> fst (w_invocations ?w2 ! invocation_id ip') = ip'"
    if "tk \<in> set (w_tokens ?w2)" "tk_collectives tk tag' = Some ip'" for tk tag' ip'
    using tk [OF that(1)]
  proof
    assume "tk = ?tk\<lparr>tk_collectives := f (tk_collectives ?tk)\<rparr>"
    with that(2) have "f (tk_collectives ?tk) tag' = Some ip'" by simp
    from f [OF this] show ?thesis
    proof
      assume "tk_collectives ?tk tag' = Some ip'"
      with mem show ?thesis by blast
    next
      assume "ip' = ip"
      then show ?thesis by (simp add: w2)
    qed
  qed (use that in blast)
qed (auto simp: set_collectives_def nth_append, use m in \<open>auto simp: make_invocation_def new_event_def Let_def nth_append\<close>)

lemma contribute_wf:
  "contribute_more u op ip w = Inr (cs, w') \<Longrightarrow> wf_world w \<Longrightarrow> wf_world w'"
  "contribute_first u t tag ip w = Inr (cs, w') \<Longrightarrow> wf_world w \<Longrightarrow> wf_world w'"
proof -
  assume wf: "wf_world w"
  show "wf_world w'" if "contribute_more u op ip w = Inr (cs, w')"
  proof -
    have "calm (push_input_use ip u w) w'"
      using that by (auto simp: contribute_more_def then_do_def Let_def dest!: calm_primitives split: option.splits)
    from calm_wf [OF this push_wf [OF wf]] show ?thesis .
  qed
  show "wf_world w'" if "contribute_first u t tag ip w = Inr (cs, w')"
  proof -
    from that obtain w1 where "calm w w1" "calm (push_input_use ip u w1) w'"
      by (auto simp: contribute_first_def Let_def dest!: calm_primitives split: option.splits)
    with calm_wf push_wf wf show ?thesis by blast
  qed
qed

lemma allreduce_wf:
  assumes "allreduce_use u d tag w = Inr (cs, w')" and "wf_world w"
  shows "wf_world w'"
  using assms(1)
proof (cases rule: claims.W_allreduce)
  case (more t ip)
  with assms(2) contribute_wf(1) show ?thesis by blast
next
  case (first t ip w1)
  have "wf_world (set_collectives t (\<lambda>_. (tk_collectives (w_tokens w ! t))(tag \<mapsto> ip)) w1)"
    by (rule first_wf [OF first(4) assms(2) first(2)]) (simp split: if_splits)
  then show ?thesis using contribute_wf(2) [OF first(5)] by simp
qed

lemma action_wf: "run_action E me a w = Inr (cs, w') \<Longrightarrow> wf_world w \<Longrightarrow> wf_world w'"
  using calm_run_action calm_wf by blast

lemma release_wf: "release_use u w = Inr (cs, w') \<Longrightarrow> wf_world w \<Longrightarrow> wf_world w'"
  by (drule release_frame) (rule wf_same [where w = w], simp_all)

lemma register_wf: "register_use u w = Inr (cs, w') \<Longrightarrow> wf_world w \<Longrightarrow> wf_world w'"
  by (rule wf_same [where w = w]) (auto simp: register_use_def assign_key_def split: if_splits)

lemma api_wf:
  assumes "run_api E me a w = Inr (cs, w')" and "wf_world w"
  shows "wf_world w'"
proof (cases a)
  case (PublishUse u d)
  with assms publish_mild [of u d w cs w'] show ?thesis by (simp add: run_api_def mild_def)
next
  case (ReduceCollectionUse ui uo d)
  with assms calm_wf [OF calm_contribute(6)] show ?thesis by (simp add: run_api_def)
next
  case (RegisterTask t)
  with assms calm_wf [OF calm_register_task] show ?thesis by (simp add: run_api_def)
next
  case (UserCode u code)
  with assms calm_wf [OF calm_user_code] show ?thesis by (simp add: run_api_def)
qed (use assms in \<open>auto simp: run_api_def intro: register_wf release_wf allreduce_wf register_task_collection_wf\<close>)

lemma step_wf:
  assumes "step E me drawn c w = Inr (cs, w')" and "wf_world w"
  shows "wf_world w'"
proof (cases c)
  case (CRegisterIn u)
  with assms register_in_shape [of E u w cs w'] show ?thesis by (auto simp: step_def flow_change_wf)
next
  case (CRegisterAntiIn u)
  with assms anti_in_shape [of u w cs w'] show ?thesis by (auto simp: step_def intro: flow_change_wf calm_mild)
next
  case (CRegisterOut u)
  with assms out_shape [of u w cs w'] show ?thesis by (auto simp: step_def intro: flow_change_wf calm_mild)
next
  case (CRegisterAntiOut u)
  with assms anti_out_shape [of u w cs w'] show ?thesis by (auto simp: step_def intro: flow_change_wf calm_mild calm_wf)
next
  case (CEraseCollective t tag ip)
  with assms erase_wf show ?thesis by (simp add: step_def)
qed (use assms in \<open>auto simp: step_def intro: action_wf api_wf release_wf calm_wf [rotated] calm_intros calm_plain\<close>)

section \<open>The flows of the uses that are being registered\<close>

lemma nth_beyond: "length xs \<le> n \<Longrightarrow> xs ! n = [] ! (n - length xs)"
proof (induction xs arbitrary: n)
  case Nil
  then show ?case by simp
next
  case (Cons x xs)
  then show ?case by (cases n) simp_all
qed

lemma map_nth_eq:
  assumes "map f xs = map f ys"
  shows "f (xs ! n) = f (ys ! n)"
proof (cases "n < length xs")
  case True
  with assms show ?thesis by (metis length_map nth_map)
next
  case False
  moreover from assms have "length xs = length ys" by (metis length_map)
  ultimately show ?thesis by (metis nth_beyond not_le)
qed

lemma chain_ok_cong:
  assumes "\<And>u. u \<in># chain_cmd c \<Longrightarrow> use_flows (uses' ! u) = use_flows (uses ! u)"
  shows "chain_ok uses' c \<longleftrightarrow> chain_ok uses c"
  using assms by (cases c) (simp_all add: use_flows_def)

lemma chain_ok_same: "map use_flows uses' = map use_flows uses \<Longrightarrow> chain_ok uses' c \<longleftrightarrow> chain_ok uses c"
  by (rule chain_ok_cong) (rule map_nth_eq)

lemma chain_ok_update:
  assumes "map use_flows (w_uses w1) = map use_flows (w_uses w)" and "u \<notin># chain_cmd c"
  shows "chain_ok (w_uses (update_use u f w1)) c \<longleftrightarrow> chain_ok (w_uses w) c"
proof (rule chain_ok_cong)
  fix v
  assume "v \<in># chain_cmd c"
  with assms(2) have "v \<noteq> u" by auto
  then have "w_uses (update_use u f w1) ! v = w_uses w1 ! v" by (simp add: update_use_def)
  with map_nth_eq [OF assms(1), of v] show "use_flows (w_uses (update_use u f w1) ! v) = use_flows (w_uses w ! v)"
    by simp
qed

text \<open>Everything but the four commands of a registration leaves the flows alone.\<close>

abbreviation same_flows :: "'d world \<Rightarrow> 'd world \<Rightarrow> bool" where
  "same_flows w w' \<equiv> map use_flows (w_uses w') = map use_flows (w_uses w)"

lemma calm_flows: "calm w w' \<Longrightarrow> same_flows w w'"
  by (simp add: calm_def)

lemma contribute_flows:
  "contribute_more u op ip w = Inr (cs, w') \<Longrightarrow> same_flows w w'"
  "contribute_first u t tag ip w = Inr (cs, w') \<Longrightarrow> same_flows w w'"
proof -
  have push: "w_uses (push_input_use ip u v) = w_uses v" for v :: "'a world"
    by (simp add: push_input_use_def update_invocation_def Let_def)
  show "same_flows w w'" if "contribute_more u op ip w = Inr (cs, w')"
  proof -
    have "calm (push_input_use ip u w) w'"
      using that by (auto simp: contribute_more_def then_do_def Let_def dest!: calm_primitives split: option.splits)
    then show ?thesis by (simp add: calm_def push)
  qed
  show "same_flows w w'" if "contribute_first u t tag ip w = Inr (cs, w')"
  proof -
    from that obtain w1 where "calm w w1" "calm (push_input_use ip u w1) w'"
      by (auto simp: contribute_first_def Let_def dest!: calm_primitives split: option.splits)
    then show ?thesis by (simp add: calm_def push)
  qed
qed

lemma allreduce_flows:
  assumes "allreduce_use u d tag w = Inr (cs, w')"
  shows "same_flows w w'"
  using assms
proof (cases rule: claims.W_allreduce)
  case (more t ip)
  then show ?thesis by (intro contribute_flows)
next
  case (first t ip w1)
  have "w_uses (set_collectives t f w1) = w_uses w" for f
    using first(4) by (auto simp: make_invocation_def new_event_def set_collectives_def Let_def)
  with contribute_flows(2) [OF first(5)] show ?thesis by simp
qed

lemma api_flows:
  assumes "run_api E me a w = Inr (cs, w')"
  shows "same_flows w w'"
proof (cases a)
  case (RegisterTaskCollection tc)
  with assms show ?thesis
    by (auto simp: run_api_def register_task_collection_def make_token_def Let_def same_books_def
        dest!: increment_count_frame set_parent_tokens_frame)
next
  case (RegisterUse u)
  with assms register_frame [of u w cs w'] show ?thesis by (simp add: run_api_def)
next
  case (ReleaseUse u)
  with assms release_frame [of u w cs w'] show ?thesis by (simp add: run_api_def)
next
  case (PublishUse u d)
  with assms publish_mild [of u d w cs w'] show ?thesis by (simp add: run_api_def mild_def)
qed (use assms in \<open>auto simp: run_api_def intro: allreduce_flows calm_flows calm_intros\<close>)

fun sets_flow :: "cmd \<Rightarrow> bool" where
  "sets_flow (CRegisterIn u) = True"
| "sets_flow (CRegisterAntiIn u) = True"
| "sets_flow (CRegisterOut u) = True"
| "sets_flow (CRegisterAntiOut u) = True"
| "sets_flow _ = False"

lemma step_flows:
  assumes "step E me drawn c w = Inr (cs, w')" and "\<not> sets_flow c"
  shows "same_flows w w'"
proof (cases c)
  case (CRelease u)
  with assms release_frame [of u w cs w'] show ?thesis by (simp add: step_def)
next
  case (CEraseCollective t tag ip)
  with assms show ?thesis
    by (auto simp: step_def erase_collective_def update_invocation_def set_collectives_def Let_def)
qed (use assms in \<open>auto simp: step_def intro: calm_run_action [THEN calm_flows] api_flows calm_flows calm_intros calm_plain\<close>)

interpretation chain_moves: releasing "\<lambda>_. {#}" chain_action chain_cmd
  by unfold_locales (simp_all add: chain_action_def)

lemma moved_chains:
  assumes "step E me drawn c w = Inr (cs, w')" and "moves c"
  shows "todo chain_cmd cs = chain_cmd c"
  using chain_moves.W_step [OF assms] by (simp add: no_chain_waiting)

lemma unmoved_chains:
  assumes "step E me drawn c w = Inr (cs, w')" and "\<not> moves c" and "\<And>u. c \<noteq> CApi (RegisterUse u)"
  shows "todo chain_cmd cs = {#}"
proof (cases c)
  case (CAction a)
  with assms(2) obtain ip t tag where "a = AllreduceDoneAction ip t tag" by (cases a) simp_all
  with CAction assms(1) chains.W_allreduce_done [of E ip t tag w cs w'] show ?thesis
    by (simp add: step_def run_action_def no_chain_waiting)
next
  case (CApi a)
  with assms(1) have run: "run_api E me a w = Inr (cs, w')" by (simp add: step_def)
  show ?thesis
  proof (cases a)
    case (RegisterUse u)
    with CApi assms(3) show ?thesis by blast
  next
    case (ReleaseUse u)
    with run chains.W_release_use [of u w cs w'] show ?thesis by (simp add: run_api_def no_chain_waiting)
  next
    case (PublishUse u d)
    with run have "publish_use u d w = Inr (cs, w')" by (simp add: run_api_def)
    then show ?thesis by (rule chains.W_publish) (simp add: no_chain_waiting chain_action_def)
  next
    case (AllreduceUse u d tag)
    with run have "allreduce_use u d tag w = Inr (cs, w')" by (simp add: run_api_def)
    then show ?thesis by (rule chains.W_allreduce) (simp_all add: no_chain_waiting chain_action_def)
  next
    case (ReduceCollectionUse ui uo d)
    with run chains.W_reduce_collection [of ui uo d w cs w'] show ?thesis
      by (auto simp: run_api_def no_chain_waiting chain_action_def)
  qed (use assms CApi in simp_all)
next
  case (CRegisterAntiOut u)
  with assms chains.W_anti_out [of u w cs w'] show ?thesis by (simp add: step_def no_chain_waiting)
next
  case (CRelease u)
  with assms chains.W_release_use [of u w cs w'] show ?thesis by (simp add: step_def no_chain_waiting)
qed (use assms in simp_all)

text \<open>The commands that a step pushes find null what they are about to set.\<close>

lemma chain_ok_append:
  assumes "todo chain_cmd (cs1 @ [d]) = {#u#}" and "chain_cmd d = {#u#}" and "chain_ok uses d"
  shows "\<forall>c\<in>set (cs1 @ [d]). chain_ok uses c"
  using assms chain_free_ok [of cs1] by auto

lemma update_flows:
  assumes "same_flows w w1" and "use_flows (f (w_uses w1 ! u)) = g (use_flows (w_uses w1 ! u))"
    and "\<And>x. P (g x) = P x"
  shows "P (use_flows (w_uses (update_use u f w1) ! u)) = P (use_flows (w_uses w ! u))"
proof (cases "u < length (w_uses w1)")
  case True
  with assms(2,3) map_nth_eq [OF assms(1), of u] show ?thesis by (simp add: update_use_def)
next
  case False
  with map_nth_eq [OF assms(1), of u] show ?thesis by (simp add: update_use_def list_update_beyond)
qed

lemma set_in_null:
  assumes "same_flows w w1"
    and "us_anti_in (w_uses w ! u) = None" "us_out (w_uses w ! u) = None" "us_anti_out (w_uses w ! u) = None"
  shows "chain_ok (w_uses (update_use u (\<lambda>us. us\<lparr>us_in := f\<rparr>) w1)) (CRegisterIn u)"
  using update_flows [OF assms(1), of "\<lambda>us. us\<lparr>us_in := f\<rparr>" u "\<lambda>(i, b). (f, b)" "\<lambda>(i, a, b, c). a = None \<and> b = None \<and> c = None"]
    assms(2-4)
  by (simp add: use_flows_def split_beta)

lemma set_anti_in_out_null:
  assumes "same_flows w w1" and "us_out (w_uses w ! u) = None" "us_anti_out (w_uses w ! u) = None"
  shows "chain_ok (w_uses (update_use u (\<lambda>us. us\<lparr>us_anti_in := f\<rparr>) w1)) (CRegisterOut u)"
  using update_flows [OF assms(1), of "\<lambda>us. us\<lparr>us_anti_in := f\<rparr>" u "\<lambda>(i, a, b). (i, f, b)" "\<lambda>(i, a, b, c). b = None \<and> c = None"] assms(2,3)
  by (simp add: use_flows_def split_beta)

lemma set_out_null:
  assumes "same_flows w w1" and "us_anti_out (w_uses w ! u) = None"
  shows "chain_ok (w_uses (update_use u (\<lambda>us. us\<lparr>us_out := f\<rparr>) w1)) (CRegisterAntiOut u)"
  using update_flows [OF assms(1), of "\<lambda>us. us\<lparr>us_out := f\<rparr>" u "\<lambda>(i, a, b, c). (i, a, f, c)" "\<lambda>(i, a, b, c). c = None"] assms(2)
  by (simp add: use_flows_def split_beta)

lemma step_pushes_chain_ok:
  assumes s: "step E me drawn c w = Inr (cs, w')" and ok: "chain_ok (w_uses w) c" and new: "registers_fresh c w"
  shows "\<forall>c'\<in>set cs. chain_ok (w_uses w') c'"
proof (cases "chain_cmd c = {#} \<and> (\<forall>u. c \<noteq> CApi (RegisterUse u))")
  case True
  then have "todo chain_cmd cs = {#}"
    using moved_chains [OF s] unmoved_chains [OF s] by (cases "moves c") auto
  with chain_free_ok show ?thesis by blast
next
  case False
  then consider u where "c = CApi (RegisterUse u)" | u where "c = CRegisterIn u" | u where "c = CRegisterAntiIn u"
    | u where "c = CRegisterOut u" | u where "c = CRegisterAntiOut u"
    by (cases c) auto
  then show ?thesis
  proof cases
    case (1 u)
    with s have r: "register_use u w = Inr (cs, w')" by (simp add: step_def run_api_def)
    then have "cs = [CRegisterIn u]" by (auto simp: register_use_def)
    with 1 new register_frame(3) [OF r] show ?thesis by simp
  next
    case (2 u)
    with s have r: "register_in E u w = Inr (cs, w')" by (simp add: step_def)
    from register_in_shape [OF r] obtain f w1 cs1 where m: "same_flows w w1"
      and w': "w' = update_use u (\<lambda>us. us\<lparr>us_in := f\<rparr>) w1" and cs: "cs = cs1 @ [CRegisterAntiIn u]"
      by (auto simp: mild_def)
    have "chain_ok (w_uses w') c"
      unfolding w' using ok 2 set_in_null [OF m, of u f] by simp
    with chain_ok_append [of cs1 "CRegisterAntiIn u" u] moved_chains [OF s] 2 cs show ?thesis by simp
  next
    case (3 u)
    with s have r: "register_anti_in u w = Inr (cs, w')" by (simp add: step_def)
    from anti_in_shape [OF r] obtain f w1 cs1 where c1: "calm w w1"
      and w': "w' = update_use u (\<lambda>us. us\<lparr>us_anti_in := f\<rparr>) w1" and cs: "cs = cs1 @ [CRegisterOut u]" by blast
    have "chain_ok (w_uses w') (CRegisterOut u)"
      unfolding w' using ok 3 set_anti_in_out_null [OF calm_flows [OF c1], of u f] by simp
    with chain_ok_append [of cs1 "CRegisterOut u" u] moved_chains [OF s] 3 cs show ?thesis by simp
  next
    case (4 u)
    with s have r: "register_out u w = Inr (cs, w')" by (simp add: step_def)
    from out_shape [OF r] obtain f w1 cs1 where c1: "calm w w1"
      and w': "w' = update_use u (\<lambda>us. us\<lparr>us_out := f\<rparr>) w1" and cs: "cs = cs1 @ [CRegisterAntiOut u]" by blast
    have "chain_ok (w_uses w') (CRegisterAntiOut u)"
      unfolding w' using ok 4 set_out_null [OF calm_flows [OF c1], of u f] by simp
    with chain_ok_append [of cs1 "CRegisterAntiOut u" u] moved_chains [OF s] 4 cs show ?thesis by simp
  next
    case (5 u)
    with s have "todo chain_cmd cs = {#}" by (intro unmoved_chains [OF s]) simp_all
    with chain_free_ok show ?thesis by blast
  qed
qed

lemma step_keeps_chain_ok:
  assumes s: "step E me drawn c w = Inr (cs, w')" and ok: "chain_ok (w_uses w) d"
    and other: "\<And>u. u \<in># chain_cmd c \<Longrightarrow> u \<notin># chain_cmd d"
  shows "chain_ok (w_uses w') d"
proof (cases "sets_flow c")
  case False
  with step_flows [OF s] chain_ok_same ok show ?thesis by blast
next
  case True
  then consider u where "c = CRegisterAntiIn u" | u where "c = CRegisterOut u" | u where "c = CRegisterAntiOut u"
    | u where "c = CRegisterIn u"
    by (cases c) auto
  then obtain u f w1 where "u \<in># chain_cmd c" "mild w w1" "w' = w1 \<or> w' = update_use u f w1"
  proof cases
    case (4 u)
    with s register_in_shape [of E u w cs w'] that [of u] show ?thesis by (auto simp: step_def)
  next
    case (1 u)
    with s anti_in_shape [of u w cs w'] that [of u] show ?thesis by (auto simp: step_def dest: calm_mild)
  next
    case (2 u)
    with s out_shape [of u w cs w'] that [of u] show ?thesis by (auto simp: step_def dest: calm_mild)
  next
    case (3 u)
    with s anti_out_shape [of u w cs w'] that [of u] show ?thesis by (auto simp: step_def dest: calm_mild)
  qed
  with other ok chain_ok_update [of w1 w u d f] chain_ok_same [of "w_uses w1" "w_uses w" d] show ?thesis
    by (auto simp: mild_def)
qed

end
