(* ===== verification/Discipline.thy ===== *)
theory Discipline
  imports StepShape
begin

text \<open>
  The invariant of the backend holds in every configuration that a disciplined run reaches from the
  start of a program or of a region.
\<close>

section \<open>The stacks around a step\<close>

lemma all_todo_pop:
  fixes f :: "cmd \<Rightarrow> 'm :: cancel_comm_monoid_add"
  assumes "i < length css" and "css ! i = c # cs"
  shows "all_todo f css = all_todo f (css[i := cs]) + f c"
proof -
  have "all_todo f (take i css @ css ! i # drop (Suc i) css) = all_todo f (css[i := cs]) + f c"
    using assms by (simp add: upd_conv_take_nth_drop ac_simps)
  then show ?thesis using id_take_nth_drop [OF assms(1)] by simp
qed

lemma all_todo_push:
  fixes f :: "cmd \<Rightarrow> 'm :: cancel_comm_monoid_add"
  assumes "i < length css"
  shows "all_todo f (css[i := cs' @ cs]) = all_todo f (css[i := cs]) + todo f cs'"
  using assms by (simp add: upd_conv_take_nth_drop ac_simps)

lemma todo_member: "c \<in> set cs \<Longrightarrow> (f c :: nat multiset) \<subseteq># todo f cs"
  by (induction cs) (auto intro: subset_mset.add_increasing subset_mset.add_increasing2)

lemma all_todo_member:
  assumes "c \<in> set cs" and "cs \<in> set css"
  shows "(f c :: nat multiset) \<subseteq># all_todo f css"
proof -
  have "todo f cs \<subseteq># all_todo f css"
    using assms(2) by (induction css) (auto intro: subset_mset.add_increasing subset_mset.add_increasing2)
  with todo_member [OF assms(1)] show ?thesis by (rule subset_mset.order_trans)
qed

lemma chain_claim: "chain_cmd c \<subseteq># claim_cmd c"
  by (cases c) simp_all

section \<open>One step\<close>

lemma claimed_registered:
  assumes "claimed w (kc + x) kd" and "u \<in># x"
  shows "u \<in> w_registered w" and "u \<notin># kc"
proof -
  have "1 \<le> count x u" using assms(2) by (simp flip: count_greater_zero_iff)
  with claimed_bound [OF assms(1), of u] have "u \<in> w_registered w \<and> count (all_claims w kc kd) u = 0"
    using not_in_iff by (cases "u \<in> w_registered w") fastforce+
  then show "u \<in> w_registered w" "u \<notin># kc" by (auto simp: all_claims_def not_in_iff)
qed

lemma frontend_ok_own:
  assumes "frontend_ok g c" and "stack_claims g = all_claims (cf_world g) (kc + claim_cmd c) (kd + done_cmd c)"
  shows "hands_own (cf_world g) kc kd c"
  unfolding hands_own_def
proof (intro allI impI)
  fix a
  assume "c = CApi a"
  with assms show "(\<forall>u. count (hands_over a) u \<le> 1)
      \<and> (\<forall>u\<in>#hands_over a. u \<in> w_registered (cf_world g) \<and> u \<notin># all_claims (cf_world g) kc kd)"
    by (cases a) (auto simp: owns_def)
qed

lemma frontend_ok_fresh: "frontend_ok g c \<Longrightarrow> registers_fresh c (cf_world g)"
  by (cases c; simp) (rename_tac a, case_tac a; simp)

lemma needs_registered_owned:
  assumes "frontend_ok g c" and "claimed (cf_world g) (kc + claim_cmd c) kd"
  shows "needs_registered c \<subseteq> w_registered (cf_world g)"
proof (cases c)
  case (CApi a)
  with assms(1) show ?thesis by (cases a) (auto simp: owns_def)
qed (use claimed_registered [OF assms(2)] in simp_all)

lemma disciplined_keeps_inv:
  assumes "disciplined E g g'" and inv: "backend_inv g"
  shows "backend_inv g'"
proof -
  from assms(1) obtain i c cs drawn cs' w'
    where g': "g' = \<lparr>cf_stacks = (cf_stacks g)[i := cs' @ cs], cf_world = w'\<rparr>"
      and i: "i < length (cf_stacks g)" and top: "cf_stacks g ! i = c # cs"
      and front: "frontend_ok g c" and room_left: "fits (cf_world g) (stack_credits g)"
      and s: "step E i drawn c (cf_world g) = Inr (cs', w')"
    by (elim disciplinedE) blast
  let ?w = "cf_world g" and ?S = "(cf_stacks g)[i := cs]"
  let ?kc = "all_todo claim_cmd ?S" and ?kd = "all_todo done_cmd ?S" and ?k = "all_todo credit_cmd ?S"
  note pop = all_todo_pop [OF i top] and push = all_todo_push [OF i, of _ cs' cs]
  have acc: "accounted (release_events ?w) ?w (?k + committed ?w + credit_cmd c)"
    and cl: "claimed ?w (?kc + claim_cmd c) (?kd + done_cmd c)" and wf: "wf_world ?w"
    and ok: "\<And>cs c. cs \<in> set (cf_stacks g) \<Longrightarrow> c \<in> set cs \<Longrightarrow> chain_ok (w_uses ?w) c"
    using inv by (auto simp: backend_inv_def stack_credits_def pop ac_simps)
  have fits: "fits ?w (?k + committed ?w + credit_cmd c)"
    using room_left by (simp add: stack_credits_def pop ac_simps)
  have mem: "c # cs \<in> set (cf_stacks g)" using i top nth_mem by metis
  have tables: "tables_ok ?w" and rel: "\<And>e. e \<in> release_events ?w \<Longrightarrow> e < length (w_events ?w)"
    using wf by (simp_all add: wf_world_def)
  have fresh: "registers_fresh c ?w" using front by (rule frontend_ok_fresh)
  have room: "api_room a ?w" if "c = CApi a" for a using front that by simp
  have own: "hands_own ?w ?kc ?kd c"
    by (rule frontend_ok_own [OF front]) (simp add: stack_claims_def pop)
  have okc: "chain_ok (w_uses ?w) c" using ok [OF mem] by simp
  have "accounted (release_events w') w' (?k + committed w' + todo credit_cmd cs')"
    using step_accounted [OF s acc fits tables okc needs_registered_owned [OF front cl] fresh room rel] .
  moreover have "claimed w' (?kc + todo claim_cmd cs') (?kd + todo done_cmd cs')"
    using step_claimed [OF s cl tables own fresh] .
  moreover have "wf_world w'" using step_wf [OF s wf] .
  moreover have "chain_ok (w_uses w') d" if st: "st \<in> set ((cf_stacks g)[i := cs' @ cs])" and d: "d \<in> set st" for st d
  proof (cases "d \<in> set cs'")
    case True
    with step_pushes_chain_ok [OF s okc fresh] show ?thesis by blast
  next
    case False
    with st d have "\<exists>st'\<in>set ?S. d \<in> set st'"
      using i by (auto simp: upd_conv_take_nth_drop)
    then obtain st' where st': "st' \<in> set ?S" "d \<in> set st'" ..
    then have "st' \<in> set (cf_stacks g) \<or> st' = cs"
      using set_update_subset_insert [of "cf_stacks g" i cs] by blast
    then have "chain_ok (w_uses ?w) d"
      using ok [of st' d] ok [OF mem, of d] st'(2) by auto
    moreover have "u \<notin># chain_cmd d" if "u \<in># chain_cmd c" for u
    proof -
      from that chain_claim [of c] have "u \<in># claim_cmd c" by (rule mset_subset_eqD [rotated])
      from claimed_registered(2) [OF cl this] all_todo_member [OF st'(2,1), of claim_cmd] chain_claim [of d]
      show ?thesis by (meson mset_subset_eqD)
    qed
    ultimately show ?thesis by (rule step_keeps_chain_ok [OF s])
  qed
  ultimately show ?thesis
    using g' by (simp add: backend_inv_def stack_credits_def push ac_simps)
qed

end
