(* ===== verification/Reachable.thy ===== *)
theory Reachable
  imports Discipline
begin

text \<open>
  The configurations from which a program or a region starts, and those that disciplined runs reach.
\<close>

section \<open>The starts\<close>

text \<open>A use that has not been registered points at no flow.\<close>

definition without_flows :: "use \<Rightarrow> bool" where
  "without_flows us \<longleftrightarrow> us_in us = None \<and> us_anti_in us = None \<and> us_out us = None \<and> us_anti_out us = None"

definition starts :: "'d config \<Rightarrow> bool" where
  "starts g \<longleftrightarrow> list_all without_flows (w_uses (cf_world g)) \<and>
     ((\<exists>n uses handles t. top_level_config n uses handles t = Inr g)
      \<or> (\<exists>n uses handles callbacks body. region_config n uses handles callbacks body = Inr g))"

definition reaches :: "'d env \<Rightarrow> 'd config \<Rightarrow> bool" where
  "reaches E g \<longleftrightarrow> (\<exists>g0. starts g0 \<and> (disciplined E)\<^sup>*\<^sup>* g0 g)"

lemma starts_reaches: "starts g \<Longrightarrow> reaches E g"
  by (auto simp: reaches_def)

lemma reaches_step: "reaches E g \<Longrightarrow> disciplined E g g' \<Longrightarrow> reaches E g'"
  unfolding reaches_def by (meson rtranclp.rtrancl_into_rtrancl)

lemma reaches_invariant [consumes 1, case_names start step]:
  assumes "reaches E g" and "\<And>g. starts g \<Longrightarrow> P g"
    and "\<And>g g'. reaches E g \<Longrightarrow> P g \<Longrightarrow> disciplined E g g' \<Longrightarrow> P g'"
  shows "P g"
proof -
  from assms(1) obtain g0 where "starts g0" and "(disciplined E)\<^sup>*\<^sup>* g0 g" by (auto simp: reaches_def)
  from this(2,1) have "P g \<and> reaches E g"
  proof (induction rule: rtranclp_induct)
    case base
    with assms(2) starts_reaches show ?case by blast
  next
    case (step g1 g2)
    with assms(3) reaches_step show ?case by blast
  qed
  then show ?thesis ..
qed

text \<open>What both starts have in common.\<close>

lemma todo_zero: "(\<And>c. c \<in> set cs \<Longrightarrow> f c = 0) \<Longrightarrow> todo f cs = (0 :: 'm :: comm_monoid_add)"
  by (induction cs) auto

lemma all_todo_zero:
  "(\<And>cs c. cs \<in> set css \<Longrightarrow> c \<in> set cs \<Longrightarrow> f c = 0) \<Longrightarrow> all_todo f css = (0 :: 'm :: comm_monoid_add)"
proof (induction css)
  case (Cons cs css)
  from Cons.prems have "todo f cs = 0" by (metis todo_zero list.set_intros(1))
  moreover have "all_todo f css = 0" by (rule Cons.IH) (metis Cons.prems list.set_intros(2))
  ultimately show ?case by simp
qed simp

lemma fresh_world_inv:
  assumes ev: "w_events w = [\<lparr>ev_count = 1, ev_triggered = False, ev_actions = as\<rparr>]"
    and fresh: "w_registered w = {}" "w_entries w = []" "w_invocations w = []" "w_tokens w = []"
    and as: "\<And>a. a \<in> set as \<Longrightarrow> credit_action a = {#} \<and> claim_action a = {#} \<and> done_action a = {#}"
    and credit: "sum_list (map (\<lambda>wk. sum_list (map credit_op (wk_ready wk))) (w_workers w))
      + all_todo credit_cmd css = {#shutdown_counter#}"
    and none: "\<And>cs c. cs \<in> set css \<Longrightarrow> c \<in> set cs \<Longrightarrow> claim_cmd c = {#} \<and> done_cmd c = {#}"
  shows "backend_inv \<lparr>cf_stacks = css, cf_world = w\<rparr>"
proof -
  have sums: "sum_list (map credit_action as) = {#}" "sum_list (map claim_action as) = {#}"
      "sum_list (map done_action as) = {#}"
    using as by (induction as) auto
  have todo: "all_todo claim_cmd css = {#}" "all_todo done_cmd css = {#}"
    using none by (auto intro!: all_todo_zero)
  have committed: "committed w = {#}"
    using fresh by (simp add: committed_def held_def unpublished_def reserved_counts_def)
  have "owed w (all_todo credit_cmd css + committed w) = {#shutdown_counter#}"
    using credit sums by (simp add: owed_def waiting_def ev committed)
  then have "accounted (release_events w) w (all_todo credit_cmd css + committed w)"
    by (simp add: accounted_def balanced_event_def ev shutdown_counter_def)
  moreover have "claimed w (all_todo claim_cmd css) (all_todo done_cmd css)"
    using fresh sums todo
    by (simp add: claimed_def all_claims_def open_dones_def input_claims_def claims.W_eq dones.W_eq ev)
  moreover have "chain_ok (w_uses w) c" if "cs \<in> set css" "c \<in> set cs" for cs c
    using none [OF that] by (cases c) simp_all
  moreover have "wf_world w"
    using fresh by (simp add: wf_world_def tables_ok_def release_events_def)
  ultimately show ?thesis by (simp add: backend_inv_def stack_credits_def)
qed

lemma create_workers_replicate: "create_workers n = replicate n new_worker"
  by (simp add: create_workers_def map_replicate_const)

lemma create_workers_credit:
  "sum_list (map (\<lambda>wk. sum_list (map f (wk_ready wk))) (create_workers n)) = (0 :: 'm :: comm_monoid_add)"
  by (induction n) (simp_all add: create_workers_replicate new_worker_def)

lemma top_level_start:
  assumes "top_level_config n uses handles t = Inr g"
  shows "backend_inv g"
proof -
  let ?w0 = "init_shutdown_counter (region_runtime n uses handles) :: 'a world"
  from assms obtain w where w: "emplace_ready 0 (ReadyTaskOperation t) ?w0 = Inr w"
    and g: "g = \<lparr>cf_stacks = (CSpinUp # wait_for_top_level_instance_to_shut_down w) # map (\<lambda>_. [CLoopStart]) [1..<n],
      cf_world = w\<rparr>"
    by (auto simp: top_level_config_def top_level_runtime_def)
  from w have n: "0 < n" and w': "w = update_worker 0 (\<lambda>wk. wk\<lparr>wk_ready := wk_ready wk @ [ReadyTaskOperation t]\<rparr>) ?w0"
    by (auto simp: emplace_ready_def worker_at_def init_shutdown_counter_def region_runtime_def create_workers_def)
  obtain m where m: "n = Suc m" using n by (cases n) auto
  have workers: "w_workers w = new_worker\<lparr>wk_ready := [ReadyTaskOperation t]\<rparr> # create_workers m"
    by (simp add: w' m update_worker_def init_shutdown_counter_def region_runtime_def create_workers_replicate new_worker_def)
  have joins: "todo credit_cmd (map CJoin xs) = {#}" for xs by (rule todo_zero) auto
  have loops: "all_todo credit_cmd (map (\<lambda>_. [CLoopStart]) xs) = {#}" for xs :: "nat list"
    by (rule all_todo_zero) auto
  show ?thesis
    unfolding g
  proof (rule fresh_world_inv [where as = "[ShutdownAction]"])
    show "sum_list (map (\<lambda>wk. sum_list (map credit_op (wk_ready wk))) (w_workers w))
        + all_todo credit_cmd ((CSpinUp # wait_for_top_level_instance_to_shut_down w) # map (\<lambda>_. [CLoopStart]) [1..<n])
        = {#shutdown_counter#}"
      using joins [of "[1..<length (w_workers w)]"] loops [of "[1..<n]"]
      by (simp add: workers [simplified] create_workers_credit wait_for_top_level_instance_to_shut_down_def
          del: map_map upt_Suc)
  qed (auto simp: w' update_worker_def init_shutdown_counter_def region_runtime_def shutdown_counter_def
      wait_for_top_level_instance_to_shut_down_def)
qed

lemma region_start:
  assumes "region_config n uses handles callbacks body = Inr g"
  shows "backend_inv g"
proof -
  let ?w0 = "fold register_quiescence_callback callbacks (region_runtime n uses handles) :: 'a world"
  have cb: "w_events ?w0 = [\<lparr>ev_count = 1, ev_triggered = False, ev_actions = []\<rparr>] \<and> w_registered ?w0 = {}
      \<and> w_entries ?w0 = [] \<and> w_invocations ?w0 = [] \<and> w_tokens ?w0 = [] \<and> w_workers ?w0 = create_workers n"
    by (induction callbacks rule: rev_induct)
      (simp_all add: region_runtime_def register_quiescence_callback_def)
  from assms obtain cs w where a: "attach_action shutdown_counter RegionShutdownAction ?w0 = Inr (cs, w)"
    and g: "g = \<lparr>cf_stacks = (cs @ map CApi body @ [CDecrement shutdown_counter, CSpinUp])
        # map (\<lambda>_. [CLoopStart]) [1..<n], cf_world = w\<rparr>"
    by (auto simp: region_config_def with_active_runtime_instance_def then_do_def)
  have w: "cs = []" "w = ?w0\<lparr>w_events := [\<lparr>ev_count = 1, ev_triggered = False, ev_actions = [RegionShutdownAction]\<rparr>]\<rparr>"
    using a by (auto simp: attach_action_def attach_or_do_action_def cb shutdown_counter_def)
  have api: "todo credit_cmd (map CApi body) = {#}" by (rule todo_zero) auto
  have loops: "all_todo credit_cmd (map (\<lambda>_. [CLoopStart]) xs) = {#}" for xs :: "nat list"
    by (rule all_todo_zero) auto
  show ?thesis
    unfolding g
  proof (rule fresh_world_inv [where as = "[RegionShutdownAction]"])
    show "sum_list (map (\<lambda>wk. sum_list (map credit_op (wk_ready wk))) (w_workers w))
        + all_todo credit_cmd ((cs @ map CApi body @ [CDecrement shutdown_counter, CSpinUp]) # map (\<lambda>_. [CLoopStart]) [1..<n])
        = {#shutdown_counter#}"
      using api loops [of "[1..<n]"] by (simp add: w cb create_workers_credit)
  qed (use w cb in auto)
qed

theorem reaches_inv: "reaches E g \<Longrightarrow> backend_inv g"
  by (induction rule: reaches_invariant)
    (auto simp: starts_def intro: top_level_start region_start disciplined_keeps_inv)

text \<open>The parts of a start that never come back.\<close>

lemma starts_world:
  assumes "starts g"
  shows "w_entries (cf_world g) = []" and "length (w_events (cf_world g)) = 1" and "w_max_depth (cf_world g) = 0"
    and "w_registered (cf_world g) = {}" and "w_invocations (cf_world g) = []"
proof -
  have reg: "w_entries (fold register_quiescence_callback callbacks (region_runtime n uses handles) :: 'a world) = []
      \<and> length (w_events (fold register_quiescence_callback callbacks (region_runtime n uses handles) :: 'a world)) = 1
      \<and> w_max_depth (fold register_quiescence_callback callbacks (region_runtime n uses handles) :: 'a world) = 0
      \<and> w_registered (fold register_quiescence_callback callbacks (region_runtime n uses handles) :: 'a world) = {}
      \<and> w_invocations (fold register_quiescence_callback callbacks (region_runtime n uses handles) :: 'a world) = []"
    for callbacks n uses handles
    by (induction callbacks rule: rev_induct) (simp_all add: region_runtime_def register_quiescence_callback_def)
  show "w_entries (cf_world g) = []" "length (w_events (cf_world g)) = 1" "w_max_depth (cf_world g) = 0"
    "w_registered (cf_world g) = {}" "w_invocations (cf_world g) = []"
    using assms unfolding starts_def
  proof (safe del: subset_antisym)
    fix n uses handles t
    assume "top_level_config n uses handles t = Inr g"
    then have "emplace_ready 0 (ReadyTaskOperation t) (init_shutdown_counter (region_runtime n uses handles))
        = Inr (cf_world g)"
      by (auto simp: top_level_config_def top_level_runtime_def)
    then show "w_entries (cf_world g) = []" "length (w_events (cf_world g)) = 1" "w_max_depth (cf_world g) = 0"
      "w_registered (cf_world g) = {}" "w_invocations (cf_world g) = []"
      by (auto dest!: emplace_ready_frame simp: init_shutdown_counter_def region_runtime_def shutdown_counter_def)
  next
    fix n uses handles callbacks body
    assume "region_config n uses handles callbacks body = Inr g"
    then obtain cs and w0 :: "'a world" where "w0 = fold register_quiescence_callback callbacks (region_runtime n uses handles)"
      and "attach_action shutdown_counter RegionShutdownAction w0 = Inr (cs, cf_world g)"
      by (auto simp: region_config_def with_active_runtime_instance_def then_do_def)
    then show "w_entries (cf_world g) = []" "length (w_events (cf_world g)) = 1" "w_max_depth (cf_world g) = 0"
      "w_registered (cf_world g) = {}" "w_invocations (cf_world g) = []"
      using reg by (auto dest!: attach_action_frame split: if_splits)
  qed
qed

end
