(* ===== verification/Growth.thy ===== *)
theory Growth
  imports Reachable
begin

text \<open>
  Events stay where they are: a step may add events and publication entries, and the release event of
  a new entry is a new event. So an event that is not one of a publication never becomes one.
\<close>

definition grows :: "'d world \<Rightarrow> 'd world \<Rightarrow> bool" where
  "grows w w' \<longleftrightarrow> events_kept (w_events w) (w_events w')
     \<and> release_events w' \<subseteq> release_events w \<union> {e. length (w_events w) \<le> e}"

definition plain_event :: "'d world \<Rightarrow> nat \<Rightarrow> bool" where
  "plain_event w e \<longleftrightarrow> e < length (w_events w) \<and> e \<notin> release_events w"

lemma grows_refl [simp]: "grows w w"
  by (simp add: grows_def)

lemma grows_length: "grows w w' \<Longrightarrow> length (w_events w) \<le> length (w_events w')"
  by (simp add: grows_def events_kept_def)

lemma grows_trans [trans]: "grows w w1 \<Longrightarrow> grows w1 w2 \<Longrightarrow> grows w w2"
  using events_kept_trans grows_length [of w w1] unfolding grows_def by fastforce

lemma plain_event_grows: "plain_event w e \<Longrightarrow> grows w w' \<Longrightarrow> plain_event w' e"
  using grows_length [of w w'] unfolding plain_event_def grows_def by fastforce

lemma grows_same:
  "w_entries w' = w_entries w \<Longrightarrow> events_kept (w_events w) (w_events w') \<Longrightarrow> grows w w'"
  by (auto simp: grows_def release_events_def)

lemma calm_grows: "calm w w' \<Longrightarrow> grows w w'"
  by (rule grows_same) (simp_all add: calm_def)

lemma flow_change_grows: "calm w w1 \<Longrightarrow> grows w (update_use u f w1)"
  by (rule grows_same) (simp_all add: calm_def update_use_def)

lemma ensure_entry_grows:
  assumes "ensure_entry t key w = Inr (en, w')"
  shows "grows w w'"
  using assms
proof (cases rule: ensure_entry_cases)
  case old
  then show ?thesis by simp
next
  case (new w1)
  then show ?thesis
    by (auto simp: grows_def release_events_def make_entry_def new_event_def Let_def set_published_entry_def)
qed

lemma in_flow_fetching_grows:
  assumes "in_flow_indexed_fetching us w = Inr (f, cs, w')"
  shows "grows w w'"
proof -
  from assms obtain c w1 w2 t key en w3
    where c: "make_cblk (cblk_for_fetch (Some (us_handle us)) None) w = (c, w1)"
      and m: "make_flow (Some c) 1 w1 = Inr (f, w2)"
      and e: "ensure_entry t key w2 = Inr (en, w3)"
      and a: "attach_action (fetching_join_counter en) (FetchedAction en f) w3 = Inr (cs, w')"
    by (auto simp: in_flow_indexed_fetching_def Let_def split: prod.splits)
  have "grows w w1" using c by (intro calm_grows calm_make_cblk)
  also have "grows w1 w2" using m by (intro calm_grows calm_make_flow)
  also have "grows w2 w3" using e by (rule ensure_entry_grows)
  also have "grows w3 w'" using a by (intro calm_grows calm_primitives)
  finally show ?thesis .
qed

lemma publish_grows:
  assumes "publish_use u d w = Inr (cs, w')" and "wf_world w"
  shows "grows w w'"
proof -
  from assms(1) obtain t key en w1 where e: "ensure_entry t key w = Inr (en, w1)"
    and p: "publish_at_entry u (n_fetchers d) en w1 = Inr (cs, w')"
    by (auto simp: publish_use_def)
  from p obtain w2 cs1 w3 in_flow c source w4 cs2
    where v: "advance_count (release_event en) (of_nat (n_fetchers d)) w1 = Inr w2"
      and dd: "decrement_count (release_event en) w2 = Inr (cs1, w3)"
      and m: "make_flow None 1 w3 = Inr (source, w4)"
      and a: "attach_action (flow_trigger in_flow) (PublishCopyAction en source c u)
             (set_source_flow en source w4) = Inr (cs2, w')"
    by (auto simp: publish_at_entry_def)
  have calm: "calm w1 w4"
    using calm_primitives(2) [OF v] calm_primitives(4) [OF dd] calm_make_flow [OF m] calm_trans by blast
  have named: "entry_id en < length (w_entries w4) \<and> fst (w_entries w4 ! entry_id en) = en"
    using ensure_entry_names [OF e] calm assms(2) by (simp add: wf_world_def calm_def)
  then have "release_event en \<in> release_events w4"
    unfolding release_events_def using nth_mem by (metis (mono_tags, lifting) case_prod_beta image_eqI)
  then have "grows w4 (set_source_flow en source w4)"
    using set_update_subset_insert [of "w_entries w4" "entry_id en" "(en, Some source)"]
    by (fastforce simp: grows_def set_source_flow_def release_events_def)
  with ensure_entry_grows [OF e] calm_grows [OF calm] calm_grows [OF calm_primitives(6) [OF a]]
  show ?thesis using grows_trans by blast
qed

section \<open>The flows of the uses\<close>

text \<open>The events of the flows that a use points at.\<close>

definition flow_events :: "use \<Rightarrow> nat list" where
  "flow_events us =
     (case us_in us of Some f \<Rightarrow> [flow_trigger f] | None \<Rightarrow> [])
     @ (case us_anti_in us of Some f \<Rightarrow> [anti_flow_trigger f] | None \<Rightarrow> [])
     @ (case us_out us of Some f \<Rightarrow> [flow_trigger f] | None \<Rightarrow> [])
     @ (case us_anti_out us of Some f \<Rightarrow> [anti_flow_trigger f] | None \<Rightarrow> [])"

definition flows_plain :: "'d world \<Rightarrow> bool" where
  "flows_plain w \<longleftrightarrow> (\<forall>us\<in>set (w_uses w). \<forall>e\<in>set (flow_events us). plain_event w e)"

lemma released_flow_events: "e \<in> set (released_triggers us) \<Longrightarrow> e \<in> set (flow_events us)"
  by (auto simp: released_triggers_def flow_events_def split: option.splits if_splits)

lemma flows_plain_at:
  assumes "flows_plain w" and "u < length (w_uses w)"
  shows "us_in (w_uses w ! u) = Some f \<Longrightarrow> plain_event w (flow_trigger f)"
    and "us_out (w_uses w ! u) = Some f \<Longrightarrow> plain_event w (flow_trigger f)"
    and "us_anti_in (w_uses w ! u) = Some a \<Longrightarrow> plain_event w (anti_flow_trigger a)"
    and "us_anti_out (w_uses w ! u) = Some a \<Longrightarrow> plain_event w (anti_flow_trigger a)"
  using assms nth_mem unfolding flows_plain_def flow_events_def by fastforce+

lemma flow_events_cong: "use_flows us' = use_flows us \<Longrightarrow> flow_events us' = flow_events us"
  by (simp add: use_flows_def flow_events_def)

lemma flows_plain_grows:
  assumes "flows_plain w" and "grows w w'" and "same_flows w w'"
  shows "flows_plain w'"
  unfolding flows_plain_def
proof (intro ballI)
  fix us e
  assume us: "us \<in> set (w_uses w')" and e: "e \<in> set (flow_events us)"
  have "use_flows us \<in> set (map use_flows (w_uses w'))" using us by simp
  then obtain us0 where "us0 \<in> set (w_uses w)" "use_flows us0 = use_flows us"
    unfolding assms(3) by force
  with assms(1) e flow_events_cong [of us us0] have "plain_event w e" by (auto simp: flows_plain_def)
  then show "plain_event w' e" using assms(2) by (rule plain_event_grows)
qed

lemma flows_plain_set:
  assumes "flows_plain w" and "\<And>us e. e \<in> set (flow_events (f us)) \<Longrightarrow> e \<in> set (flow_events us) \<or> plain_event w e"
  shows "flows_plain (update_use u f w)"
proof -
  have pe: "plain_event (update_use u f w) e = plain_event w e" for e
    by (simp add: plain_event_def update_use_def release_events_def)
  show ?thesis
    unfolding flows_plain_def pe
  proof (intro ballI)
    fix us e
    assume us: "us \<in> set (w_uses (update_use u f w))" and e: "e \<in> set (flow_events us)"
    show "plain_event w e"
    proof (cases "us \<in> set (w_uses w)")
      case True
      with assms(1) e show ?thesis by (auto simp: flows_plain_def)
    next
      case False
      with us have "u < length (w_uses w)"
        by (cases "u < length (w_uses w)") (simp_all add: update_use_def list_update_beyond)
      moreover from us False have "us = f (w_uses w ! u)"
        using set_update_subset_insert [of "w_uses w" u "f (w_uses w ! u)"] by (auto simp: update_use_def)
      ultimately show ?thesis using assms e nth_mem by (fastforce simp: flows_plain_def)
    qed
  qed
qed

lemma flows_plain_setters:
  assumes "flows_plain w"
  shows "(\<And>g. f = Some g \<Longrightarrow> plain_event w (flow_trigger g)) \<Longrightarrow> flows_plain (update_use u (\<lambda>us. us\<lparr>us_in := f\<rparr>) w)"
    and "(\<And>g. f = Some g \<Longrightarrow> plain_event w (flow_trigger g)) \<Longrightarrow> flows_plain (update_use u (\<lambda>us. us\<lparr>us_out := f\<rparr>) w)"
    and "(\<And>b. a = Some b \<Longrightarrow> plain_event w (anti_flow_trigger b)) \<Longrightarrow> flows_plain (update_use u (\<lambda>us. us\<lparr>us_anti_in := a\<rparr>) w)"
    and "(\<And>b. a = Some b \<Longrightarrow> plain_event w (anti_flow_trigger b)) \<Longrightarrow> flows_plain (update_use u (\<lambda>us. us\<lparr>us_anti_out := a\<rparr>) w)"
  by (auto intro!: flows_plain_set [OF assms] simp: flow_events_def split: option.splits)

text \<open>A world in which the flows are plain and the release events are there.\<close>

definition good_flows :: "'d world \<Rightarrow> bool" where
  "good_flows w \<longleftrightarrow> wf_world w \<and> flows_plain w"

lemma good_flows_calm: "good_flows w \<Longrightarrow> calm w w' \<Longrightarrow> good_flows w'"
  using calm_wf flows_plain_grows calm_grows calm_flows unfolding good_flows_def by blast

lemma new_flow_plain: "make_flow c n w = Inr (f, w') \<Longrightarrow> wf_world w \<Longrightarrow> plain_event w' (flow_trigger f)"
  by (auto simp: make_flow_def new_event_def wf_world_def plain_event_def release_events_def)

lemma new_anti_flow_plain: "make_anti_flow n w = Inr (f, w') \<Longrightarrow> wf_world w \<Longrightarrow> plain_event w' (anti_flow_trigger f)"
  by (auto simp: make_anti_flow_def new_event_def wf_world_def plain_event_def release_events_def)

lemma calm_plain_event: "plain_event w e \<Longrightarrow> calm w w' \<Longrightarrow> plain_event w' e"
  using plain_event_grows calm_grows by blast

lemma read_flow_plain:
  assumes "read_flow_slot s w = Inr (Some f)" and "flows_plain w"
  shows "plain_event w (flow_trigger f)"
  using assms by (cases s) (auto simp: read_flow_slot_def use_at_def dest: flows_plain_at [OF assms(2)])

lemma read_anti_flow_plain:
  assumes "read_anti_flow_slot s w = Inr (Some f)" and "flows_plain w"
  shows "plain_event w (anti_flow_trigger f)"
  using assms by (cases s) (auto simp: read_anti_flow_slot_def use_at_def dest: flows_plain_at [OF assms(2)])

end
