(* ===== verification/FlowEvents.thy ===== *)
theory FlowEvents
  imports Growth
begin

text \<open>
  The flows of the uses never wait on an event of a publication entry: registration makes new flows or
  takes those of other uses.
\<close>

section \<open>The in flow\<close>

lemma in_flow_plain:
  "in_flow_next rel w = Inr (f, cs, w') \<Longrightarrow> wf_world w \<Longrightarrow> plain_event w' (flow_trigger f)"
  "in_flow_of_cblk cm w = Inr (f, cs, w') \<Longrightarrow> wf_world w \<Longrightarrow> plain_event w' (flow_trigger f)"
  "in_flow_indexed_local E rel w = Inr (f, cs, w') \<Longrightarrow> wf_world w \<Longrightarrow> plain_event w' (flow_trigger f)"
  "in_flow_indexed_fetching us w = Inr (f, cs, w') \<Longrightarrow> wf_world w \<Longrightarrow> plain_event w' (flow_trigger f)"
proof -
  assume wf: "wf_world w"
  have new: "plain_event w' (flow_trigger f)"
    if "calm w0 w1" "wf_world w0" "make_flow c n w1 = Inr (f, w2)" "grows w2 w'" for w0 w1 w2 :: "'a world" and c n
    using that new_flow_plain calm_wf plain_event_grows by blast
  show "plain_event w' (flow_trigger f)" if "in_flow_next rel w = Inr (f, cs, w')"
    using that new [of w w] wf
    by (auto simp: in_flow_next_def dest!: calm_attach_decrement [THEN calm_grows])
  show "plain_event w' (flow_trigger f)" if r: "in_flow_of_cblk cm w = Inr (f, cs, w')"
  proof -
    from r obtain c w1 w2 where c: "make_cblk (fst cm) (w\<lparr>w_mem := snd cm\<rparr>) = (c, w1)"
      and m: "make_flow (Some c) 1 w1 = Inr (f, w2)" and d: "decrement_count (flow_trigger f) w2 = Inr (cs, w')"
      by (auto simp: in_flow_of_cblk_def split: prod.splits)
    have "calm w w1" using calm_make_cblk [OF c] by simp
    from new [OF this wf m calm_grows [OF calm_primitives(4) [OF d]]] show ?thesis .
  qed
  show "plain_event w' (flow_trigger f)" if r: "in_flow_indexed_local E rel w = Inr (f, cs, w')"
  proof -
    from r obtain r coll cb p c w1 w2
      where c: "make_cblk (cblk_for_index (Some p) coll (rel_index rel)) w = (c, w1)"
        and m: "make_flow (Some c) 1 w1 = Inr (f, w2)"
        and a: "attach_decrement_of (flow_trigger r) (flow_trigger f) w2 = Inr (cs, w')"
      by (auto simp: in_flow_indexed_local_def split: prod.splits)
    from new [OF calm_make_cblk [OF c] wf m calm_grows [OF calm_attach_decrement [OF a]]] show ?thesis .
  qed
  show "plain_event w' (flow_trigger f)" if r: "in_flow_indexed_fetching us w = Inr (f, cs, w')"
  proof -
    from r obtain c w1 w2 t key en w3
      where c: "make_cblk (cblk_for_fetch (Some (us_handle us)) None) w = (c, w1)"
        and m: "make_flow (Some c) 1 w1 = Inr (f, w2)"
        and e: "ensure_entry t key w2 = Inr (en, w3)"
        and a: "attach_action (fetching_join_counter en) (FetchedAction en f) w3 = Inr (cs, w')"
      by (auto simp: in_flow_indexed_fetching_def Let_def split: prod.splits)
    have "grows w2 w'"
      using ensure_entry_grows [OF e] calm_grows [OF calm_primitives(6) [OF a]] by (rule grows_trans)
    from new [OF calm_make_cblk [OF c] wf m this] show ?thesis .
  qed
qed

lemma register_in_parts:
  assumes "register_in E u w = Inr (cs, w')" and good: "good_flows w"
  obtains f w1 where "grows w w1" "same_flows w w1" "w' = update_use u (\<lambda>us. us\<lparr>us_in := f\<rparr>) w1"
    "\<And>g. f = Some g \<Longrightarrow> plain_event w1 (flow_trigger g)"
proof -
  let ?good = "\<exists>f w1. grows w w1 \<and> same_flows w w1 \<and> w' = update_use u (\<lambda>us. us\<lparr>us_in := f\<rparr>) w1
    \<and> (\<forall>g. f = Some g \<longrightarrow> plain_event w1 (flow_trigger g))"
  have reuse: ?good if "reuse_in_flow u r w = Inr (cs, w')" "\<And>f. r = Inr (Some f) \<Longrightarrow> plain_event w (flow_trigger f)" for r
    using that by (auto simp: reuse_in_flow_def intro!: exI [where x = w])
  have set: ?good if "set_in_flow u r = Inr (cs, w')"
    and "\<And>f cs1 w1. r = Inr (f, cs1, w1) \<Longrightarrow> grows w w1 \<and> same_flows w w1 \<and> plain_event w1 (flow_trigger f)" for r
    using that by (fastforce simp: set_in_flow_def)
  have wf: "wf_world w" and plain: "flows_plain w" using good by (simp_all add: good_flows_def)
  have rel: "plain_event w (flow_trigger f)" if "related_flow_ptr rel w = Inr (Some f)" for rel f
    using that read_flow_plain [OF _ plain] by (auto simp: related_flow_ptr_def)
  have calm: "grows w w1 \<and> same_flows w w1" if "calm w w1" for w1 :: "'a world"
    using that calm_grows calm_flows by blast
  have ini: "plain_event w1 (flow_trigger f)" if "in_flow_initial E us w = Inr (f, cs1, w1)" for us f cs1 w1
    using that wf by (auto simp: in_flow_initial_def intro: in_flow_plain(2))
  have inc: "plain_event w1 (flow_trigger f)" if "in_flow_initial_collection E us w = Inr (f, cs1, w1)" for us f cs1 w1
    using that wf by (auto simp: in_flow_initial_collection_def intro: in_flow_plain(2))
  have fet: "grows w w1 \<and> same_flows w w1 \<and> plain_event w1 (flow_trigger f)"
    if "in_flow_indexed_fetching us w = Inr (f, cs1, w1)" for us f cs1 w1
    using in_flow_fetching_mild [OF that] in_flow_fetching_grows [OF that] in_flow_plain(4) [OF that wf]
    by (simp add: mild_def)
  from assms(1) obtain us where r: "(let rel = us_in_rel us in
     (case rel_description rel of
        Insignificant \<Rightarrow> reuse_in_flow u (Inr None) w
      | InsignificantCollection \<Rightarrow> reuse_in_flow u (Inr None) w
      | Same \<Rightarrow> reuse_in_flow u (related_flow_ptr rel w) w
      | SameCollection \<Rightarrow> reuse_in_flow u (related_flow_ptr rel w) w
      | Next \<Rightarrow> set_in_flow u (in_flow_next rel w)
      | NextCollection \<Rightarrow> set_in_flow u (in_flow_next rel w)
      | Initial \<Rightarrow> set_in_flow u (in_flow_initial E us w)
      | InitialCollection \<Rightarrow> set_in_flow u (in_flow_initial_collection E us w)
      | IndexedLocal \<Rightarrow> set_in_flow u (in_flow_indexed_local E rel w)
      | IndexedFetching \<Rightarrow> set_in_flow u (in_flow_indexed_fetching us w)
      | Forwarding \<Rightarrow> reuse_in_flow u (related_flow_ptr rel w) w
      | Null \<Rightarrow> Inl UnimplementedRelation
      | NullCollection \<Rightarrow> Inl UnimplementedRelation)) = Inr (cs, w')"
    by (auto simp: register_in_def)
  have ?good
  proof (cases "rel_description (us_in_rel us)")
    case Next
    with r have "set_in_flow u (in_flow_next (us_in_rel us) w) = Inr (cs, w')" by simp
    then show ?thesis by (rule set) (use calm in_flow_calm(1) in_flow_plain(1) wf in blast)
  next
    case NextCollection
    with r have "set_in_flow u (in_flow_next (us_in_rel us) w) = Inr (cs, w')" by simp
    then show ?thesis by (rule set) (use calm in_flow_calm(1) in_flow_plain(1) wf in blast)
  next
    case Initial
    with r have "set_in_flow u (in_flow_initial E us w) = Inr (cs, w')" by simp
    then show ?thesis by (rule set) (use calm in_flow_calm(2) ini in blast)
  next
    case InitialCollection
    with r have "set_in_flow u (in_flow_initial_collection E us w) = Inr (cs, w')" by simp
    then show ?thesis by (rule set) (use calm in_flow_calm(3) inc in blast)
  next
    case IndexedLocal
    with r have "set_in_flow u (in_flow_indexed_local E (us_in_rel us) w) = Inr (cs, w')" by simp
    then show ?thesis by (rule set) (use calm in_flow_calm(4) in_flow_plain(3) wf in blast)
  next
    case IndexedFetching
    with r have "set_in_flow u (in_flow_indexed_fetching us w) = Inr (cs, w')" by simp
    then show ?thesis by (rule set) (rule fet)
  qed (use r reuse [of "Inr None"] reuse [OF _ rel] in \<open>simp_all\<close>)
  with that show ?thesis by blast
qed

section \<open>The other flows\<close>

lemma anti_in_parts:
  assumes "register_anti_in u w = Inr (cs, w')" and good: "good_flows w"
  obtains f w1 where "calm w w1" "w' = update_use u (\<lambda>us. us\<lparr>us_anti_in := f\<rparr>) w1"
    "\<And>g. f = Some g \<Longrightarrow> plain_event w1 (anti_flow_trigger g)"
proof -
  let ?good = "\<exists>f w1. calm w w1 \<and> w' = update_use u (\<lambda>us. us\<lparr>us_anti_in := f\<rparr>) w1
    \<and> (\<forall>g. f = Some g \<longrightarrow> plain_event w1 (anti_flow_trigger g))"
  have wf: "wf_world w" and plain: "flows_plain w" using good by (simp_all add: good_flows_def)
  have set: ?good if "set_anti_in_flow u f cs1 w1 = Inr (cs, w')" "calm w w1"
      "\<And>g. f = Some g \<Longrightarrow> plain_event w1 (anti_flow_trigger g)" for f cs1 w1
    using that by (auto simp: set_anti_in_flow_def)
  have new: ?good if "make_anti_flow n w = Inr (f, w1)" "calm w1 w2" "set_anti_in_flow u (Some f) cs1 w2 = Inr (cs, w')"
    for n f w1 w2 cs1
    by (rule set [OF that(3) calm_trans [OF calm_make_anti_flow [OF that(1)] that(2)]])
      (use calm_plain_event [OF new_anti_flow_plain [OF that(1) wf] that(2)] in simp)
  have rel: "plain_event w (anti_flow_trigger f)" if "related_anti_flow_ptr rel w = Inr (Some f)" for rel f
    using that read_anti_flow_plain [OF _ plain] by (auto simp: related_anti_flow_ptr_def)
  have insig: ?good if "set_anti_in_flow u None cs1 w = Inr (cs, w')" for cs1
    by (rule set [OF that]) simp_all
  have same: ?good if s: "anti_in_same u us w = Inr (cs, w')" for us
  proof -
    from s obtain f where f: "related_anti_flow_ptr (us_anti_in_rel us) w = Inr f" by (auto simp: anti_in_same_def)
    show ?thesis
    proof (cases f)
      case None
      with s f insig show ?thesis by (simp add: anti_in_same_def)
    next
      case (Some a)
      have "\<exists>w1. calm w w1 \<and> set_anti_in_flow u (Some a) [] w1 = Inr (cs, w')"
      proof (cases "is_anti_dependency us")
        case True
        with s f Some have "set_anti_in_flow u (Some a) [] w = Inr (cs, w')" by (simp add: anti_in_same_def)
        then show ?thesis using calm_refl by blast
      next
        case False
        with s f Some show ?thesis by (auto simp: anti_in_same_def dest: calm_primitives(3))
      qed
      then obtain w1 where c: "calm w w1" and t: "set_anti_in_flow u (Some a) [] w1 = Inr (cs, w')" by blast
      show ?thesis by (rule set [OF t c]) (use calm_plain_event [OF rel c] f Some in simp)
    qed
  qed
  have nxt: ?good if "anti_in_next u us w = Inr (cs, w')" for us
  proof -
    from that obtain f w1 where "make_anti_flow 1 w = Inr (f, w1)" "set_anti_in_flow u (Some f) [] w1 = Inr (cs, w')"
      by (auto simp: anti_in_next_def)
    with new calm_refl show ?thesis by blast
  qed
  have fwd: ?good if "anti_in_forwarding u us w = Inr (cs, w')" for us
  proof -
    from that obtain f w1 cs1 w2 where "make_anti_flow 1 w = Inr (f, w1)"
      "decrement_count (anti_flow_trigger f) w1 = Inr (cs1, w2)" "set_anti_in_flow u (Some f) cs1 w2 = Inr (cs, w')"
      by (auto simp: anti_in_forwarding_def)
    with new calm_primitives(4) show ?thesis by blast
  qed
  have loc: ?good if "anti_in_indexed_local u us w = Inr (cs, w')" for us
    using that insig new by (auto simp: anti_in_indexed_local_def split: option.splits dest!: calm_attach_decrement) (blast+)?
  from assms(1) obtain us where "(case rel_description (us_anti_in_rel us) of
        Insignificant \<Rightarrow> set_anti_in_flow u None [] w
      | InsignificantCollection \<Rightarrow> set_anti_in_flow u None [] w
      | Same \<Rightarrow> anti_in_same u us w
      | SameCollection \<Rightarrow> anti_in_same u us w
      | Next \<Rightarrow> anti_in_next u us w
      | NextCollection \<Rightarrow> anti_in_next u us w
      | Forwarding \<Rightarrow> anti_in_forwarding u us w
      | IndexedLocal \<Rightarrow> anti_in_indexed_local u us w
      | _ \<Rightarrow> Inl UnimplementedRelation) = Inr (cs, w')"
    by (auto simp: register_anti_in_def)
  then have ?good
    using insig same nxt fwd loc by (cases "rel_description (us_anti_in_rel us)") simp_all
  with that show ?thesis by blast
qed

lemma out_parts:
  assumes "register_out u w = Inr (cs, w')" and good: "good_flows w"
  obtains f w1 where "calm w w1" "w' = update_use u (\<lambda>us. us\<lparr>us_out := f\<rparr>) w1"
    "\<And>g. f = Some g \<Longrightarrow> plain_event w1 (flow_trigger g)"
proof -
  let ?good = "\<exists>f w1. calm w w1 \<and> w' = update_use u (\<lambda>us. us\<lparr>us_out := f\<rparr>) w1
    \<and> (\<forall>g. f = Some g \<longrightarrow> plain_event w1 (flow_trigger g))"
  have wf: "wf_world w" and plain: "flows_plain w" using good by (simp_all add: good_flows_def)
  have set: ?good if "set_out_flow u f cs1 w1 = Inr (cs, w')" "calm w w1"
      "\<And>g. f = Some g \<Longrightarrow> plain_event w1 (flow_trigger g)" for f cs1 w1
    using that by (auto simp: set_out_flow_def)
  have new: ?good if "calm w w1" "make_flow c n w1 = Inr (f, w2)" "calm w2 w3" "set_out_flow u (Some f) cs1 w3 = Inr (cs, w')"
    for c n f w1 w2 w3 cs1
    by (rule set [OF that(4) calm_trans [OF calm_trans [OF that(1) calm_make_flow [OF that(2)]] that(3)]])
      (use calm_plain_event [OF new_flow_plain [OF that(2) calm_wf [OF that(1) wf]] that(3)] in simp)
  have insig: ?good if "set_out_flow u None cs1 w = Inr (cs, w')" for cs1
    by (rule set [OF that]) simp_all
  from assms(1) obtain us related where us: "use_at u w = Inr us" and rel: "out_related us w = Inr related"
    and r: "(case rel_description (us_out_rel us) of
        Insignificant \<Rightarrow> set_out_flow u None [] w
      | InsignificantCollection \<Rightarrow> set_out_flow u None [] w
      | Same \<Rightarrow> out_same u related w
      | SameCollection \<Rightarrow> out_same u related w
      | Next \<Rightarrow> out_next u related w
      | NextCollection \<Rightarrow> out_next u related w
      | Null \<Rightarrow> out_null u us w
      | NullCollection \<Rightarrow> out_null u us w
      | IndexedLocal \<Rightarrow> out_indexed_local u related w
      | _ \<Rightarrow> Inl UnimplementedRelation) = Inr (cs, w')"
    by (auto simp: register_out_def)
  have related: "plain_event w (flow_trigger f)" if "related = Some (Some f)" for f
    using rel that us flows_plain_at(1) [OF plain] read_flow_plain [OF _ plain]
    by (auto simp: out_related_def use_at_def split: if_splits option.splits)
  have same: ?good if s: "out_same u related w = Inr (cs, w')"
  proof -
    from s obtain f w1 where "related = Some (Some f)" "increment_count (flow_trigger f) w = Inr w1"
      "set_out_flow u (Some f) [] w1 = Inr (cs, w')" by (auto simp: out_same_def)
    with set [of "Some f" "[]" w1] related calm_primitives(3) calm_plain_event show ?thesis by blast
  qed
  have nxt: ?good if "out_next u related w = Inr (cs, w')"
  proof -
    from that obtain c f w1 where "make_flow c 1 w = Inr (f, w1)" "set_out_flow u (Some f) [] w1 = Inr (cs, w')"
      by (auto simp: out_next_def)
    with new calm_refl show ?thesis by blast
  qed
  have nul: ?good if "out_null u us w = Inr (cs, w')"
  proof -
    from that obtain c f w1 where "make_flow c 1 w = Inr (f, w1)" "set_out_flow u (Some f) [] w1 = Inr (cs, w')"
      by (auto simp: out_null_def)
    with new calm_refl show ?thesis by blast
  qed
  have loc: ?good if l: "out_indexed_local u related w = Inr (cs, w')"
  proof -
    from l obtain g w1 c w2 f w3 cs1 w4 where i: "increment_count (flow_trigger g) w = Inr w1"
      and c: "make_cblk cblk_default w1 = (c, w2)"
      and m: "make_flow (Some c) 1 w2 = Inr (f, w3)"
      and d: "attach_decrement_of (flow_trigger f) (flow_trigger g) w3 = Inr (cs1, w4)"
      and s: "set_out_flow u (Some f) cs1 w4 = Inr (cs, w')"
      by (auto simp: out_indexed_local_def split: prod.splits)
    from new [OF calm_trans [OF calm_primitives(3) [OF i] calm_make_cblk [OF c]] m calm_attach_decrement [OF d] s]
    show ?thesis .
  qed
  from r have ?good
    using insig same nxt nul loc by (cases "rel_description (us_out_rel us)") simp_all
  with that show ?thesis by blast
qed

lemma anti_out_parts:
  assumes "register_anti_out u w = Inr (cs, w')" and good: "good_flows w"
  obtains "calm w w'" | f w1 where "calm w w1" "w' = update_use u (\<lambda>us. us\<lparr>us_anti_out := Some f\<rparr>) w1"
    "plain_event w1 (anti_flow_trigger f)"
proof -
  let ?good = "calm w w' \<or> (\<exists>f w1. calm w w1 \<and> w' = update_use u (\<lambda>us. us\<lparr>us_anti_out := Some f\<rparr>) w1
    \<and> plain_event w1 (anti_flow_trigger f))"
  have wf: "wf_world w" and plain: "flows_plain w" using good by (simp_all add: good_flows_def)
  have set: ?good if "set_anti_out_flow u f cs1 w1 = Inr (cs, w')" "calm w w1" "plain_event w1 (anti_flow_trigger f)"
    for f cs1 w1
    using that by (auto simp: set_anti_out_flow_def)
  have new: ?good if "calm w w1" "make_anti_flow n w1 = Inr (f, w2)" "calm w2 w3" "set_anti_out_flow u f cs1 w3 = Inr (cs, w')"
    for n f w1 w2 w3 cs1
    by (rule set [OF that(4) calm_trans [OF calm_trans [OF that(1) calm_make_anti_flow [OF that(2)]] that(3)]
        calm_plain_event [OF new_anti_flow_plain [OF that(2) calm_wf [OF that(1) wf]] that(3)]])
  from assms(1) obtain us related where us: "use_at u w = Inr us" and rel: "anti_out_related us w = Inr related"
    and r: "(case rel_description (us_anti_out_rel us) of
        Insignificant \<Rightarrow> Inr ([], w)
      | InsignificantCollection \<Rightarrow> Inr ([], w)
      | Initial \<Rightarrow> anti_out_initial u w
      | InitialCollection \<Rightarrow> anti_out_initial u w
      | Same \<Rightarrow> anti_out_same u us related w
      | SameCollection \<Rightarrow> anti_out_same u us related w
      | Next \<Rightarrow> anti_out_next u related w
      | NextCollection \<Rightarrow> anti_out_next u related w
      | IndexedLocal \<Rightarrow> anti_out_indexed_local u related w
      | IndexedFetching \<Rightarrow> anti_out_indexed_fetching u us w
      | _ \<Rightarrow> Inl UnimplementedRelation) = Inr (cs, w')"
    by (auto simp: register_anti_out_def)
  have related: "plain_event w (anti_flow_trigger f)" if "related = Some (Some f)" for f
    using rel that us flows_plain_at(3) [OF plain] read_anti_flow_plain [OF _ plain]
    by (auto simp: anti_out_related_def use_at_def split: if_splits option.splits)
  have ini: ?good if "anti_out_initial u w = Inr (cs, w')"
  proof -
    from that obtain f w1 where "make_anti_flow 1 w = Inr (f, w1)" "set_anti_out_flow u f [] w1 = Inr (cs, w')"
      by (auto simp: anti_out_initial_def)
    with new calm_refl show ?thesis by blast
  qed
  have same: ?good if s: "anti_out_same u us related w = Inr (cs, w')"
  proof -
    from s obtain f w1 where "related = Some (Some f)" "increment_count (anti_flow_trigger f) w = Inr w1"
      "set_anti_out_flow u f [] w1 = Inr (cs, w')" by (auto simp: anti_out_same_def)
    with set [of f "[]" w1] related calm_primitives(3) calm_plain_event show ?thesis by blast
  qed
  have nxt: ?good if "anti_out_next u related w = Inr (cs, w')"
    using that ini by (auto simp: anti_out_next_def)
  have loc: ?good if l: "anti_out_indexed_local u related w = Inr (cs, w')"
  proof -
    from l obtain g w1 f w2 cs1 w3 where i: "increment_count (anti_flow_trigger g) w = Inr w1"
      and m: "make_anti_flow 1 w1 = Inr (f, w2)"
      and d: "attach_decrement_of (anti_flow_trigger f) (anti_flow_trigger g) w2 = Inr (cs1, w3)"
      and s: "set_anti_out_flow u f cs1 w3 = Inr (cs, w')"
      by (auto simp: anti_out_indexed_local_def)
    from new [OF calm_primitives(3) [OF i] m calm_attach_decrement [OF d] s] show ?thesis .
  qed
  have fet: ?good if l: "anti_out_indexed_fetching u us w = Inr (cs, w')"
  proof -
    let ?set = "\<lambda>f w1. w1\<lparr>w_aflows := (w_aflows w1)[anti_flow_id f := True]\<rparr>"
    from l obtain f w1 en cs1 w3 where m: "make_anti_flow 1 w = Inr (f, w1)"
      and d: "attach_decrement_of (anti_flow_trigger f) (release_event en) (?set f w1) = Inr (cs1, w3)"
      and s: "set_anti_out_flow u f cs1 w3 = Inr (cs, w')"
      by (auto simp: anti_out_indexed_fetching_def Let_def)
    have "calm w1 (?set f w1)" by simp
    with calm_attach_decrement [OF d] have "calm w1 w3" using calm_trans by blast
    from new [OF calm_refl m this s] show ?thesis .
  qed
  from r have ?good
    using ini same nxt loc fet calm_refl by (cases "rel_description (us_anti_out_rel us)") simp_all
  with that show ?thesis by blast
qed

section \<open>Every step\<close>

lemma set_flow_grows: "grows w w1 \<Longrightarrow> grows w (update_use u f w1)"
  by (simp add: grows_def update_use_def release_events_def)

lemma contribute_grows:
  "contribute_more u op ip w = Inr (cs, w') \<Longrightarrow> grows w w'"
  "contribute_first u t tag ip w = Inr (cs, w') \<Longrightarrow> grows w w'"
proof -
  have push: "grows v (push_input_use ip u v)" for v :: "'a world"
    by (rule grows_same) (simp_all add: push_input_use_def update_invocation_def Let_def)
  show "grows w w'" if "contribute_more u op ip w = Inr (cs, w')"
  proof -
    have "calm (push_input_use ip u w) w'"
      using that by (auto simp: contribute_more_def then_do_def Let_def dest!: calm_primitives split: option.splits)
    with push calm_grows grows_trans show ?thesis by blast
  qed
  show "grows w w'" if "contribute_first u t tag ip w = Inr (cs, w')"
  proof -
    from that obtain w1 where "calm w w1" "calm (push_input_use ip u w1) w'"
      by (auto simp: contribute_first_def Let_def dest!: calm_primitives split: option.splits)
    with push calm_grows grows_trans show ?thesis by blast
  qed
qed

lemma allreduce_grows:
  assumes "allreduce_use u d tag w = Inr (cs, w')"
  shows "grows w w'"
  using assms
proof (cases rule: claims.W_allreduce)
  case (more t ip)
  then show ?thesis by (intro contribute_grows)
next
  case (first t ip w1)
  have "grows w (set_collectives t f w1)" for f
    using first(4) by (intro grows_same) (auto simp: make_invocation_def new_event_def set_collectives_def Let_def)
  with contribute_grows(2) [OF first(5)] grows_trans show ?thesis by blast
qed

lemma step_grows_plain:
  assumes "step E me drawn c w = Inr (cs, w')" and "wf_world w" and "\<not> sets_flow c"
  shows "grows w w'"
proof (cases c)
  case (CRelease u)
  with assms release_frame [of u w cs w'] show ?thesis by (simp add: step_def grows_same)
next
  case (CEraseCollective t tag ip)
  with assms have "w_entries w' = w_entries w" "w_events w' = w_events w"
    by (auto simp: step_def erase_collective_def update_invocation_def set_collectives_def Let_def)
  then show ?thesis by (simp add: grows_same)
next
  case (CApi a)
  with assms(1) have run: "run_api E me a w = Inr (cs, w')" by (simp add: step_def)
  show ?thesis
  proof (cases a)
    case (RegisterUse u)
    with run have "w_entries w' = w_entries w" "w_events w' = w_events w"
      by (auto simp: run_api_def register_use_def assign_key_def split: if_splits)
    then show ?thesis by (simp add: grows_same)
  next
    case (ReleaseUse u)
    with run release_frame [of u w cs w'] show ?thesis by (simp add: run_api_def grows_same)
  next
    case (RegisterTaskCollection tc)
    with run obtain w1 where "increment_count shutdown_counter w = Inr w1"
      and same: "w_entries w' = w_entries w1" "w_events w' = w_events w1"
      by (auto simp: run_api_def register_task_collection_def make_token_def Let_def same_books_def
          dest!: set_parent_tokens_frame)
    then have "grows w w1" by (intro calm_grows calm_primitives)
    then show ?thesis by (simp add: grows_def release_events_def same)
  next
    case (PublishUse u d)
    with run assms(2) publish_grows show ?thesis by (simp add: run_api_def)
  next
    case (AllreduceUse u d tag)
    with run have "allreduce_use u d tag w = Inr (cs, w')" by (simp add: run_api_def)
    then show ?thesis by (rule allreduce_grows)
  qed (use run in \<open>auto simp: run_api_def intro: calm_grows calm_intros\<close>)
qed (use assms in \<open>auto simp: step_def intro: calm_run_action [THEN calm_grows] calm_grows calm_intros calm_plain\<close>)

lemma step_good_flows:
  assumes s: "step E me drawn c w = Inr (cs, w')" and good: "good_flows w"
  shows "grows w w'" and "good_flows w'"
proof -
  have wf: "wf_world w" and plain: "flows_plain w" using good by (simp_all add: good_flows_def)
  have wf': "wf_world w'" using step_wf [OF s wf] .
  have keep: "grows w w' \<and> flows_plain w'" if "grows w w'" "same_flows w w'"
    using that flows_plain_grows [OF plain] by blast
  have "grows w w' \<and> flows_plain w'"
  proof (cases "sets_flow c")
    case True
    then consider u where "c = CRegisterIn u" | u where "c = CRegisterAntiIn u" | u where "c = CRegisterOut u"
      | u where "c = CRegisterAntiOut u"
      by (cases c) auto
    then show ?thesis
    proof cases
      case (1 u)
      with s have "register_in E u w = Inr (cs, w')" by (simp add: step_def)
      from this good obtain f w1 where p: "grows w w1" "same_flows w w1" "w' = update_use u (\<lambda>us. us\<lparr>us_in := f\<rparr>) w1"
        "\<And>g. f = Some g \<Longrightarrow> plain_event w1 (flow_trigger g)" by (rule register_in_parts) blast
      have "flows_plain w'" unfolding p(3)
        by (rule flows_plain_setters(1) [OF flows_plain_grows [OF plain p(1,2)] p(4)])
      with set_flow_grows [OF p(1)] p(3) show ?thesis by simp
    next
      case (2 u)
      with s have "register_anti_in u w = Inr (cs, w')" by (simp add: step_def)
      from this good obtain f w1 where p: "calm w w1" "w' = update_use u (\<lambda>us. us\<lparr>us_anti_in := f\<rparr>) w1"
        "\<And>g. f = Some g \<Longrightarrow> plain_event w1 (anti_flow_trigger g)" by (rule anti_in_parts) blast
      have "flows_plain w'" unfolding p(2)
        by (rule flows_plain_setters(3) [OF flows_plain_grows [OF plain calm_grows [OF p(1)] calm_flows [OF p(1)]] p(3)])
      with flow_change_grows [OF p(1)] p(2) show ?thesis by simp
    next
      case (3 u)
      with s have "register_out u w = Inr (cs, w')" by (simp add: step_def)
      from this good obtain f w1 where p: "calm w w1" "w' = update_use u (\<lambda>us. us\<lparr>us_out := f\<rparr>) w1"
        "\<And>g. f = Some g \<Longrightarrow> plain_event w1 (flow_trigger g)" by (rule out_parts) blast
      have "flows_plain w'" unfolding p(2)
        by (rule flows_plain_setters(2) [OF flows_plain_grows [OF plain calm_grows [OF p(1)] calm_flows [OF p(1)]] p(3)])
      with flow_change_grows [OF p(1)] p(2) show ?thesis by simp
    next
      case (4 u)
      with s have "register_anti_out u w = Inr (cs, w')" by (simp add: step_def)
      from this good show ?thesis
      proof (rule anti_out_parts)
        assume "calm w w'"
        with keep calm_grows calm_flows show ?thesis by blast
      next
        fix f w1
        assume p: "calm w w1" "w' = update_use u (\<lambda>us. us\<lparr>us_anti_out := Some f\<rparr>) w1"
          "plain_event w1 (anti_flow_trigger f)"
        have "flows_plain w'" unfolding p(2)
          by (rule flows_plain_setters(4) [OF flows_plain_grows [OF plain calm_grows [OF p(1)] calm_flows [OF p(1)]]])
            (use p(3) in simp)
        with flow_change_grows [OF p(1)] p(2) show ?thesis by simp
      qed
    qed
  next
    case False
    have "grows w w'"
      using step_grows_plain [OF s wf False] .
    with keep step_flows [OF s False] show ?thesis by blast
  qed
  then show "grows w w'" "good_flows w'" using wf' by (simp_all add: good_flows_def)
qed

end
