(* ===== verification/Samples.thy ===== *)
theory Samples
  imports FlowEvents
begin

text \<open>
  Runs of the machine that are checked step by step, and a small program on which they are evaluated:
  a region that registers a use of one variable and a task that changes it and releases the use.
\<close>

text \<open>The decrements that are still to come, whoever will make them.\<close>

definition outstanding :: "'d config \<Rightarrow> nat multiset" where
  "outstanding g = owed (cf_world g) (stack_credits g)"

section \<open>Running checked schedules\<close>

text \<open>
  A step of a given thread that also checks the discipline. The bound on the outstanding decrements is
  far below what a 64-bit counter holds.
\<close>

definition check_step :: "'d env \<Rightarrow> nat \<Rightarrow> 'd config \<Rightarrow> 'd config option" where
  "check_step E i g =
     (if i < length (cf_stacks g) then
        (case cf_stacks g ! i of
           [] \<Rightarrow> None
         | c # cs \<Rightarrow>
             if may_run (cf_world g) i c \<and> frontend_ok g c \<and> size (outstanding g) < 64 then
               (case step E i 0 c (cf_world g) of
                  Inl e \<Rightarrow> None
                | Inr (cs', w') \<Rightarrow> Some \<lparr>cf_stacks = (cf_stacks g)[i := cs' @ cs], cf_world = w'\<rparr>)
             else None)
      else None)"

fun check_run :: "'d env \<Rightarrow> nat list \<Rightarrow> 'd config \<Rightarrow> 'd config option" where
  "check_run E [] g = Some g"
| "check_run E (i # is) g = (case check_step E i g of None \<Rightarrow> None | Some g' \<Rightarrow> check_run E is g')"

lemma outstanding_fits:
  assumes "size (outstanding g) < 64"
  shows "fits (cf_world g) (stack_credits g)"
proof -
  have "count (outstanding g) e < 2 ^ 64" for e
    using count_le_size [of "outstanding g" e] assms by simp
  then show ?thesis by (simp add: fits_def outstanding_def)
qed

lemma check_step_disciplined:
  assumes "check_step E i g = Some g'"
  shows "disciplined E g g'"
  using assms outstanding_fits [of g]
  by (auto simp: check_step_def split: if_splits list.splits sum.splits prod.splits
      intro!: disciplined.disciplined [where drawn = 0])

lemma check_run_reaches: "check_run E is g = Some g' \<Longrightarrow> reaches E g \<Longrightarrow> reaches E g'"
  by (induction "is" arbitrary: g)
    (auto split: option.splits dest: reaches_step [OF _ check_step_disciplined])

text \<open>The runs of a region from its start, for the witnesses.\<close>

definition region_run ::
  "'d env \<Rightarrow> nat list \<Rightarrow> nat \<Rightarrow> use list \<Rightarrow> handle list \<Rightarrow> api list \<Rightarrow> 'd config option" where
  "region_run E is n uses handles body =
     (if list_all without_flows uses then
        (case region_config n uses handles [] body of Inl e \<Rightarrow> None | Inr g \<Rightarrow> check_run E is g)
      else None)"

lemma region_run_reaches:
  assumes "region_run E is n uses handles body = Some g"
  shows "reaches E g"
proof -
  from assms obtain g0 where w: "list_all without_flows uses" and g0: "region_config n uses handles [] body = Inr g0"
    and r: "check_run E is g0 = Some g"
    by (auto simp: region_run_def split: if_splits sum.splits)
  have "w_uses (cf_world g0) = uses"
    using g0 by (auto simp: region_config_def with_active_runtime_instance_def then_do_def region_runtime_def
        dest!: attach_action_frame split: if_splits)
  with w g0 have "starts g0" by (auto simp: starts_def)
  with check_run_reaches [OF r starts_reaches] show ?thesis .
qed

section \<open>A small program\<close>

text \<open>Data are numbers, packed as that many bytes; reductions add and user code adds its number.\<close>

definition sample_env :: "nat env" where
  "sample_env =
     \<lparr>en_ser = (\<lambda>_. \<lparr>metadata_size = 8, default_value = 0, pack = (\<lambda>n. replicate n 0), unpack = length\<rparr>),
      en_n_elements = (\<lambda>_ _. 1), en_reduce = (\<lambda>op v acc off n. v + acc), en_user = (\<lambda>code v. v + code),
      en_stealing = True\<rparr>"

definition plain_rel :: "description \<Rightarrow> flow_relationship" where
  "plain_rel d =
     \<lparr>rel_description = d, related_flow = None, related_anti_flow = None,
      use_corresponding_in_flow_as_related = True, use_corresponding_in_flow_as_anti_related = True,
      version_key = None, rel_index = 0\<rparr>"

definition sample_use :: use where
  "sample_use =
     \<lparr>us_handle = 0, us_in_rel = plain_rel Initial, us_anti_in_rel = plain_rel Insignificant,
      us_out_rel = plain_rel Next, us_anti_out_rel = plain_rel Initial, is_dependency = True,
      is_anti_dependency = False, establishes_alias = False, manages_collection = False,
      managed_size = 0, immediate_none = False, us_in = None, us_out = None, us_anti_in = None,
      us_anti_out = None, us_data = None\<rparr>"

definition sample_handle :: handle where
  "sample_handle = \<lparr>has_user_defined_key = False, handle_key = EmptyKey\<rparr>"

definition sample_body :: "api list" where
  "sample_body = [RegisterUse 0, RegisterTask (Task [0] False EmptyKey [UserCode 0 5, ReleaseUse 0])]"

text \<open>A collection of three elements, and a use of the last one.\<close>

definition collection_use :: use where
  "collection_use = sample_use\<lparr>us_in_rel := plain_rel InitialCollection, us_out_rel := plain_rel NextCollection,
     us_anti_out_rel := plain_rel InitialCollection, is_dependency := False, is_anti_dependency := True,
     manages_collection := True, managed_size := 3\<rparr>"

definition element_use :: use where
  "element_use = sample_use\<lparr>
     us_in_rel := (plain_rel IndexedLocal)\<lparr>related_flow := Some (InFlowOf 0), rel_index := 2\<rparr>\<rparr>"

text \<open>A use that is to get what is reduced from the collection, and the region that reduces it.\<close>

definition reduced_use :: use where
  "reduced_use = sample_use\<lparr>
     us_anti_in_rel := (plain_rel Forwarding)\<lparr>related_anti_flow := Some (AntiOutFlowOf 0)\<rparr>,
     is_dependency := False, is_anti_dependency := True\<rparr>"

definition reduce_body :: "api list" where
  "reduce_body = [RegisterUse 0, RegisterUse 1,
     ReduceCollectionUse 0 1 \<lparr>cd_collection = None, reduce_operation = 0, n_contributions = 1\<rparr>]"

text \<open>The first \<open>n\<close> steps with one worker.\<close>

definition sample_run :: "nat \<Rightarrow> nat config option" where
  "sample_run n = region_run sample_env (replicate n 0) 1 [sample_use] [sample_handle] sample_body"

definition holds :: "('a \<Rightarrow> bool) \<Rightarrow> 'a option \<Rightarrow> bool" where
  "holds P r = (case r of None \<Rightarrow> False | Some x \<Rightarrow> P x)"

lemma holdsE:
  assumes "holds P r"
  obtains x where "r = Some x" and "P x"
  using assms by (auto simp: holds_def split: option.splits)

lemma sample_run_reaches:
  assumes "holds P (sample_run n)"
  obtains g where "reaches sample_env g" and "P g"
  using assms by (auto simp: holds_def sample_run_def split: option.splits dest: region_run_reaches)

lemma lessThan_upt [code_unfold]: "{..<n} = set [0..<n]"
  by auto

declare sum.set_conv_list [code]

end
