(* ===== verification/Work.thy ===== *)
theory Work
  imports Samples
begin

text \<open>
  The backend does finitely much work. Every task, call, operation, action and command is given the
  number of steps that it may still cause, and every step that changes anything uses up some of it.
\<close>

section \<open>What everything weighs\<close>

text \<open>A release, with the two operations that an alias enqueues and its three decrements.\<close>

definition release_work :: nat where "release_work = 24"

fun task_work :: "task \<Rightarrow> nat" and api_work :: "api \<Rightarrow> nat" where
  "task_work (Task deps d name body) = 4 * length deps + 8 + sum_list (map api_work body)"
| "api_work (RegisterUse u) = 10"
| "api_work (ReleaseUse u) = release_work"
| "api_work (RegisterTask t) = task_work t"
| "api_work (RegisterTaskCollection (TaskCollection i deps name ts)) = 2 + sum_list (map task_work ts)"
| "api_work (PublishUse u d) = release_work + 4"
| "api_work (AllreduceUse u d tag) = release_work + 9"
| "api_work (ReduceCollectionUse ui uo d) = 2 * release_work + 3"
| "api_work (UserCode u code) = 1"

text \<open>With \<open>n\<close> workers.\<close>

fun op_work :: "nat \<Rightarrow> ready_op \<Rightarrow> nat" where
  "op_work n (SpecialMessage k) = 1"
| "op_work n (ReadyTaskOperation t) = 3 + sum_list (map api_work (task_body t))"
| "op_work n (CallableOperation (DecrementOf e) s) = 3"
| "op_work n (CallableOperation JoinWorkers s) = n + 2"

fun action_work :: "nat \<Rightarrow> action \<Rightarrow> nat" where
  "action_work n (DecrementAction e) = 1"
| "action_work n (EnqueueAction op) = op_work n op + 1"
| "action_work n (FetchedAction en f) = 2"
| "action_work n (PublishCopyAction en source c u) = release_work + 3"
| "action_work n (CollectiveDecrementAction ip) = 2"
| "action_work n (ContributeAction ip h c op) = 4"
| "action_work n (ContributeAfterAntiAction ip h c op) = 3"
| "action_work n (ContributeReduceAction ip h c op) = 2"
| "action_work n (AllreduceDoneAction ip t tag) = 2"
| "action_work n (ReduceInReadyAction ui uo op k c) = 2 * release_work + 2"
| "action_work n (ReduceAntiReadyAction ui uo op k c) = 2 * release_work + 1"
| "action_work n ShutdownAction = n + 1"
| "action_work n RegionShutdownAction = 2 * n + 3"

fun cmd_work :: "nat \<Rightarrow> cmd \<Rightarrow> nat" where
  "cmd_work n (CDecrement e) = 1"
| "cmd_work n (CAction a) = action_work n a"
| "cmd_work n (CApi a) = api_work a"
| "cmd_work n (CRegisterIn u) = 9"
| "cmd_work n (CRegisterAntiIn u) = 6"
| "cmd_work n (CRegisterOut u) = 4"
| "cmd_work n (CRegisterAntiOut u) = 2"
| "cmd_work n (CRelease u) = release_work"
| "cmd_work n (CAliasFlows h e) = 10"
| "cmd_work n (CAddDependency p e) = 2"
| "cmd_work n (CTaskDependency p d) = 4"
| "cmd_work n (CTaskAntiDependency p d) = 2"
| "cmd_work n (CEnqueueOrRun p op i allow) = op_work n op + 3"
| "cmd_work n (CStackRun op) = op_work n op + 2"
| "cmd_work n CStackExit = 1"
| "cmd_work n (CRun op) = op_work n op"
| "cmd_work n (CTaskFinished old) = 1"
| "cmd_work n (CCreateTasks name ts i) = 1 + sum_list (map task_work ts)"
| "cmd_work n (CAttach e a) = action_work n a + 1"
| "cmd_work n (CEraseCollective t tag ip) = 1"
| "cmd_work n CSpinUp = 2"
| "cmd_work n CLoopStart = 1"
| "cmd_work n CLoop = 0"
| "cmd_work n CDorment = 1"
| "cmd_work n (CJoin i) = 1"

interpretation work: tally "op_work n" "action_work n" "cmd_work n" for n
  by unfold_locales simp

abbreviation queued :: "nat \<Rightarrow> 'd world \<Rightarrow> nat" where
  "queued n w \<equiv> waiting (op_work n) (action_work n) w"

abbreviation stacked :: "nat \<Rightarrow> cmd list \<Rightarrow> nat" where
  "stacked n cs \<equiv> todo (cmd_work n) cs"

section \<open>The primitives\<close>

lemma queued_fields [simp]:
  "queued n (w\<lparr>w_flows := x1\<rparr>) = queued n w" "queued n (w\<lparr>w_aflows := x2\<rparr>) = queued n w"
  "queued n (w\<lparr>w_cblks := x3\<rparr>) = queued n w" "queued n (w\<lparr>w_mem := x4\<rparr>) = queued n w"
  "queued n (w\<lparr>w_uses := x5\<rparr>) = queued n w" "queued n (w\<lparr>w_pending_tasks := x6\<rparr>) = queued n w"
  "queued n (w\<lparr>w_registered := x7\<rparr>) = queued n w" "queued n (w\<lparr>w_tokens := x8\<rparr>) = queued n w"
  "queued n (w\<lparr>w_entries := x9\<rparr>) = queued n w" "queued n (w\<lparr>w_invocations := x10\<rparr>) = queued n w"
  "queued n (w\<lparr>w_dorment := x11\<rparr>) = queued n w" "queued n (w\<lparr>w_called := x12\<rparr>) = queued n w"
  "queued n (w\<lparr>w_handles := x13\<rparr>) = queued n w" "queued n (w\<lparr>w_next_key := x14\<rparr>) = queued n w"
  "queued n (w\<lparr>w_collection_token := x15\<rparr>) = queued n w" "queued n (w\<lparr>w_next_sequence := x16\<rparr>) = queued n w"
  by (simp_all add: waiting_def)

lemma queued_update_use [simp]: "queued n (update_use u f w) = queued n w"
  by (simp add: update_use_def)

lemma queued_update_worker:
  assumes "\<And>wk. wk_ready (f wk) = wk_ready wk"
  shows "queued n (update_worker i f w) = queued n w"
proof -
  have "map wk_ready (xs[i := f (xs ! i)]) = map wk_ready xs" for xs
    using assms by (cases "i < length xs") (auto simp: map_update list_update_same_conv list_update_beyond)
  then show ?thesis by (intro work.waiting_cong) (simp_all add: update_worker_def)
qed

named_theorems queued_eqs

lemma queued_new_event [queued_eqs]: "new_event k w = (e, w') \<Longrightarrow> queued n w' = queued n w"
  by (rule work.new_event_waiting)

lemma queued_counts [queued_eqs]:
  "advance_count e k w = Inr w' \<Longrightarrow> queued n w' = queued n w"
  "increment_count e w = Inr w' \<Longrightarrow> queued n w' = queued n w"
  by (rule work.advance_waiting, assumption) (rule work.increment_waiting)

lemma queued_decrement [queued_eqs]:
  "decrement_count e w = Inr (cs, w') \<Longrightarrow> queued n w' + stacked n cs = queued n w"
  by (rule work.decrement_waiting)

lemma queued_attach [queued_eqs]:
  "attach_action e a w = Inr (cs, w') \<Longrightarrow> queued n w' + stacked n cs = queued n w + action_work n a"
  by (rule work.attach_waiting)

lemma queued_attach_decrement [queued_eqs]:
  "attach_decrement_of e e' w = Inr (cs, w') \<Longrightarrow> queued n w' + stacked n cs = queued n w + 1"
  unfolding attach_decrement_of_def by (drule queued_attach [of _ _ _ _ _ n]) simp

lemma queued_emplace [queued_eqs]:
  "emplace_ready i op w = Inr w' \<Longrightarrow> queued n w' = queued n w + op_work n op"
  by (rule work.emplace_waiting)

lemma queued_make_cblk [queued_eqs]: "make_cblk cb w = (c, w') \<Longrightarrow> queued n w' = queued n w"
  by (auto simp: make_cblk_def)

lemma queued_make_flow [queued_eqs]: "make_flow c k w = Inr (f, w') \<Longrightarrow> queued n w' = queued n w"
  by (auto simp: make_flow_def split: prod.splits dest!: queued_new_event [of _ _ _ _ n])

lemma queued_make_anti_flow [queued_eqs]: "make_anti_flow k w = Inr (f, w') \<Longrightarrow> queued n w' = queued n w"
  by (auto simp: make_anti_flow_def split: prod.splits dest!: queued_new_event [of _ _ _ _ n])

lemma queued_make_entry [queued_eqs]: "make_entry w = (en, w') \<Longrightarrow> queued n w' = queued n w"
  by (auto simp: make_entry_def Let_def split: prod.splits dest!: queued_new_event [of _ _ _ _ n])

lemma queued_ensure_entry [queued_eqs]: "ensure_entry t key w = Inr (en, w') \<Longrightarrow> queued n w' = queued n w"
  by (erule ensure_entry_cases)
    (auto simp: set_published_entry_def Let_def dest!: queued_make_entry [of _ _ _ n])

section \<open>Registration and release\<close>

lemma in_flow_work:
  "in_flow_next rel w = Inr (f, cs, w') \<Longrightarrow> queued n w' + stacked n cs \<le> queued n w + 2"
  "in_flow_of_cblk cm w = Inr (f, cs, w') \<Longrightarrow> queued n w' + stacked n cs \<le> queued n w + 2"
  "in_flow_initial E us w = Inr (f, cs, w') \<Longrightarrow> queued n w' + stacked n cs \<le> queued n w + 2"
  "in_flow_initial_collection E us w = Inr (f, cs, w') \<Longrightarrow> queued n w' + stacked n cs \<le> queued n w + 2"
  "in_flow_indexed_local E rel w = Inr (f, cs, w') \<Longrightarrow> queued n w' + stacked n cs \<le> queued n w + 2"
  "in_flow_indexed_fetching us w = Inr (f, cs, w') \<Longrightarrow> queued n w' + stacked n cs \<le> queued n w + 2"
proof -
  have of: "queued n w' + stacked n cs \<le> queued n w + 2" if "in_flow_of_cblk cm w = Inr (f, cs, w')" for cm
    using that by (auto simp: in_flow_of_cblk_def split: prod.splits dest!: queued_eqs [where n = n])
  show "queued n w' + stacked n cs \<le> queued n w + 2" if "in_flow_of_cblk cm w = Inr (f, cs, w')"
    using that by (rule of)
  show "queued n w' + stacked n cs \<le> queued n w + 2" if "in_flow_initial E us w = Inr (f, cs, w')"
    using that by (auto simp: in_flow_initial_def dest!: of)
  show "queued n w' + stacked n cs \<le> queued n w + 2" if "in_flow_initial_collection E us w = Inr (f, cs, w')"
    using that by (auto simp: in_flow_initial_collection_def dest!: of)
qed (auto simp: in_flow_next_def in_flow_indexed_local_def in_flow_indexed_fetching_def Let_def split: prod.splits
    dest!: queued_eqs [where n = n])

lemma register_in_work:
  "register_in E u w = Inr (cs, w') \<Longrightarrow> queued n w' + stacked n cs < queued n w + cmd_work n (CRegisterIn u)"
  by (auto simp: register_in_def set_in_flow_def reuse_in_flow_def Let_def split: description.splits
      dest!: in_flow_work [where n = n])

lemma register_anti_in_work:
  "register_anti_in u w = Inr (cs, w') \<Longrightarrow> queued n w' + stacked n cs < queued n w + cmd_work n (CRegisterAntiIn u)"
  by (auto simp: register_anti_in_def anti_in_same_def anti_in_next_def anti_in_forwarding_def
      anti_in_indexed_local_def set_anti_in_flow_def
      split: description.splits option.splits if_splits dest!: queued_eqs [where n = n])

lemma register_out_work:
  "register_out u w = Inr (cs, w') \<Longrightarrow> queued n w' + stacked n cs < queued n w + cmd_work n (CRegisterOut u)"
  by (auto simp: register_out_def out_same_def out_next_def out_null_def out_indexed_local_def set_out_flow_def
      split: description.splits option.splits if_splits prod.splits dest!: queued_eqs [where n = n])

lemma register_anti_out_work:
  "register_anti_out u w = Inr (cs, w') \<Longrightarrow> queued n w' + stacked n cs < queued n w + cmd_work n (CRegisterAntiOut u)"
  by (auto simp: register_anti_out_def anti_out_initial_def anti_out_same_def anti_out_next_def Let_def
      anti_out_indexed_local_def anti_out_indexed_fetching_def set_anti_out_flow_def
      split: description.splits option.splits if_splits prod.splits dest!: queued_eqs [where n = n])

lemma register_use_work:
  "register_use u w = Inr (cs, w') \<Longrightarrow> queued n w' + stacked n cs < queued n w + api_work (RegisterUse u)"
  by (auto simp: register_use_def assign_key_def split: if_splits)

lemma released_triggers_length: "length (released_triggers us) \<le> 3"
  by (auto simp: released_triggers_def split: option.splits)

lemma stacked_constant: "(\<And>x. cmd_work n (f x) = k) \<Longrightarrow> stacked n (map f xs) = length xs * k"
  by (induction xs) auto

lemma alias_work: "handle_aliasing_for_released_use us = Inr cs \<Longrightarrow> stacked n cs \<le> 20"
  by (auto simp: handle_aliasing_for_released_use_def split: option.splits)

lemma release_use_work:
  assumes "release_use u w = Inr (cs, w')"
  shows "queued n w' + stacked n cs < queued n w + release_work"
proof -
  from assms obtain us :: use and al where a: "(if establishes_alias us then handle_aliasing_for_released_use us else Inr []) = Inr al"
    and cs: "cs = al @ map CDecrement (released_triggers us)" and w': "w' = w\<lparr>w_registered := w_registered w - {u}\<rparr>"
    by (auto simp: release_use_def Let_def)
  have "stacked n al \<le> 20" using a alias_work [of us al n] by (auto split: if_splits)
  moreover have "stacked n (map CDecrement (released_triggers us)) = length (released_triggers us) * 1"
    by (rule stacked_constant) simp
  ultimately show ?thesis
    using released_triggers_length [of us] by (simp add: cs w' release_work_def del: map_map)
qed

section \<open>Pending operations and tasks\<close>

lemma queued_attach_or_do [queued_eqs]:
  assumes "attach_or_do_action e (EnqueueAction op) [CStackRun op] w = Inr (cs, w')"
  shows "queued n w' + stacked n cs \<le> queued n w + op_work n op + 2"
proof (cases "ev_triggered (w_events w ! e)")
  case True
  with attach_or_do_frame [OF assms] show ?thesis by simp
next
  case False
  with assms have "attach_action e (EnqueueAction op) w = Inr (cs, w')"
    by (auto simp: attach_action_def attach_or_do_action_def)
  from queued_attach [OF this, of n] show ?thesis by simp
qed

lemma add_dependency_work:
  "add_dependency_on p e w = Inr (cs, w') \<Longrightarrow> queued n w' + stacked n cs < queued n w + cmd_work n (CAddDependency p e)"
  by (auto simp: add_dependency_on_def dest!: queued_eqs [where n = n])

lemma task_dependency_work:
  "task_dependency p d w = Inr (cs, w') \<Longrightarrow> queued n w' + stacked n cs < queued n w + cmd_work n (CTaskDependency p d)"
  "task_anti_dependency p d w = Inr (cs, w') \<Longrightarrow> queued n w' + stacked n cs < queued n w + cmd_work n (CTaskAntiDependency p d)"
  by (auto simp: task_dependency_def task_anti_dependency_def then_do_def split: if_splits
      dest!: add_dependency_work [where n = n])

lemma enqueue_or_run_work:
  "enqueue_or_run me p op i allow w = Inr (cs, w')
    \<Longrightarrow> queued n w' + stacked n cs < queued n w + cmd_work n (CEnqueueOrRun p op i allow)"
  by (auto simp: enqueue_or_run_def Let_def split: if_splits dest!: queued_eqs [where n = n])

lemma run_enqueue_work:
  "run_enqueue_action me op w = Inr (cs, w') \<Longrightarrow> queued n w' + stacked n cs < queued n w + action_work n (EnqueueAction op)"
  by (auto simp: run_enqueue_action_def dest!: queued_eqs [where n = n])

lemma stack_work:
  "stack_run me op w = Inr (cs, w') \<Longrightarrow> queued n w' + stacked n cs < queued n w + cmd_work n (CStackRun op)"
  "stack_exit me w = Inr (cs, w') \<Longrightarrow> queued n w' + stacked n cs < queued n w + cmd_work n CStackExit"
  by (auto simp: stack_run_def stack_exit_def Let_def queued_update_worker)

lemma alias_flows_work:
  "alias_flows me h e w = Inr (cs, w') \<Longrightarrow> queued n w' + stacked n cs < queued n w + cmd_work n (CAliasFlows h e)"
  by (auto simp: alias_flows_def when_ready_do_def when_all_ready_do_def make_pending_operation_def
      split: prod.splits dest!: queued_eqs [where n = n])

lemma make_pending_task_work:
  assumes "make_pending_task t i w = (cs, w')"
  shows "queued n w' + stacked n cs < queued n w + task_work t"
proof -
  have d: "stacked n (map (CTaskDependency p) ds) = length ds * 4" for p ds by (rule stacked_constant) simp
  obtain ds b nm body where "t = Task ds b nm body" by (cases t)
  with assms d show ?thesis
    by (auto simp: make_pending_task_def make_pending_operation_def split: prod.splits
        dest!: queued_eqs [where n = n])
qed

lemma register_task_work:
  "register_task me t w = Inr (cs, w') \<Longrightarrow> queued n w' + stacked n cs < queued n w + api_work (RegisterTask t)"
  by (auto simp: register_task_def dest!: queued_counts [where n = n] make_pending_task_work [where n = n])

lemma name_task_work [simp]: "task_work (name_task name i t) = task_work t"
  by (cases t) (simp add: name_task_def)

lemma create_tasks_work:
  "create_tasks me name ts i w = Inr (cs, w') \<Longrightarrow> queued n w' + stacked n cs < queued n w + cmd_work n (CCreateTasks name ts i)"
  by (cases ts) (fastforce simp: Let_def split: prod.splits dest!: queued_counts [where n = n] queued_decrement [where n = n]
      make_pending_task_work [where n = n])+

lemma set_parent_tokens_queued: "set_parent_tokens t ds w = Inr w' \<Longrightarrow> queued n w' = queued n w"
  by (induction ds arbitrary: w) (fastforce split: if_splits)+

lemma api_work_collection [simp]:
  "api_work (RegisterTaskCollection tc) = 2 + sum_list (map task_work (tc_tasks tc))"
  by (cases tc) simp

lemma register_task_collection_work:
  "register_task_collection tc w = Inr (cs, w')
    \<Longrightarrow> queued n w' + stacked n cs < queued n w + api_work (RegisterTaskCollection tc)"
  by (auto simp: register_task_collection_def make_token_def Let_def waiting_def
      dest!: queued_counts [where n = n, unfolded waiting_def] set_parent_tokens_queued [where n = n, unfolded waiting_def])

lemma setup_data_queued: "setup_data ds w = Inr w' \<Longrightarrow> queued n w' = queued n w"
  by (induction ds arbitrary: w) (fastforce split: if_splits)+

text \<open>What an operation weighs covers what it runs and the two increments of the loop around it.\<close>

lemma run_operation_work:
  assumes "run_operation me op w = Inr (b, cs, w')" and "n = length (w_workers w)"
  shows "queued n w' + stacked n cs + (if b then 1 else 2) \<le> queued n w + op_work n op"
proof -
  have api: "stacked n (map CApi as) = sum_list (map api_work as)" for as by (induction as) auto
  have join: "stacked n (map CJoin is) = length is * 1" for "is" by (rule stacked_constant) simp
  have task: "queued n w1 + stacked n cs1 + 2 \<le> queued n w + op_work n (ReadyTaskOperation t)"
    if "run_task me t w = Inr (cs1, w1)" for t cs1 w1
    using that by (auto simp: run_task_def api queued_update_worker simp del: map_map dest!: setup_data_queued [where n = n])
  have callable: "stacked n (run_callable c w) + 2 \<le> op_work n (CallableOperation c s)" for c s
    using assms(2) join [of "[1..<n]"] by (cases c) (auto simp del: map_map)
  from assms(1) show ?thesis
  proof (cases op)
    case (ReadyTaskOperation t)
    with assms(1) task [of t] show ?thesis by (auto simp: run_operation_def simp del: op_work.simps)
  next
    case (CallableOperation c s)
    with assms(1) callable [of c s] show ?thesis by (auto simp: run_operation_def simp del: op_work.simps)
  qed (auto simp: run_operation_def split: message_kind.splits)
qed

lemma run_ignoring_work:
  "run_ignoring_message me op w = Inr (cs, w') \<Longrightarrow> n = length (w_workers w)
    \<Longrightarrow> queued n w' + stacked n cs < queued n w + cmd_work n (CRun op)"
  by (auto simp: run_ignoring_message_def dest!: run_operation_work [where n = n] split: if_splits)

lemma task_finished_work:
  "task_finished me old w = Inr (cs, w') \<Longrightarrow> queued n w' + stacked n cs < queued n w + cmd_work n (CTaskFinished old)"
  by (auto simp: task_finished_def queued_update_worker dest!: queued_decrement [where n = n])

section \<open>The work loop and the life of the runtime\<close>

lemma queued_add_dorment [simp]: "queued n (add_dorment d w) = queued n w"
  by (simp add: add_dorment_def)

lemma crew_fields [simp]:
  "length (w_workers (set_ready i ops w)) = length (w_workers w)"
  "w_workers (add_dorment d w) = w_workers w"
  "w_max_depth (set_ready i ops w) = w_max_depth w" "w_max_depth (add_dorment d w) = w_max_depth w"
  "w_callbacks (set_ready i ops w) = w_callbacks w" "w_callbacks (add_dorment d w) = w_callbacks w"
  by (simp_all add: set_ready_def update_worker_def add_dorment_def)

lemma take_and_run_work:
  assumes "run_operation me op (add_dorment d (set_ready i rest w)) = Inr (b, cs, w')"
    and "i < length (w_workers w)" and "wk_ready (w_workers w ! i) = op # rest" and "n = length (w_workers w)"
  shows "queued n w' + stacked n cs + (if b then 1 else 2) \<le> queued n w"
  using run_operation_work [OF assms(1), of n] assms(4) work.set_ready_waiting [OF assms(2,3), of n] by simp

text \<open>A round of the loop uses up an operation, or finds none and changes nothing.\<close>

lemma steal_work:
  assumes "try_to_steal_work E me drawn w = Inr (cs, w')" and "n = length (w_workers w)"
  shows "queued n w' + stacked n cs < queued n w \<or> cs = [] \<and> w' = w"
proof (cases "en_stealing E")
  case True
  with assms(1) obtain v where v: "worker_index (steal_from drawn me (length (w_workers w))) w = Inr v"
    by (auto simp: try_to_steal_work_def)
  then have vl: "v < length (w_workers w)" by (auto simp: worker_index_def split: if_splits)
  show ?thesis
  proof (cases "wk_ready (w_workers w ! v)")
    case Nil
    with assms(1) True v show ?thesis by (auto simp: try_to_steal_work_def)
  next
    case (Cons op rest)
    show ?thesis
    proof (cases "is_stealable op")
      case True
      with assms(1) \<open>en_stealing E\<close> v Cons obtain b cs1
        where r: "run_operation me op (add_dorment (- 1) (set_ready v rest w)) = Inr (b, cs1, w')" and "cs = cs1 @ [CDorment]"
        by (auto simp: try_to_steal_work_def then_do_def run_ignoring_message_def)
      moreover have "\<not> b"
        using r True by (cases op) (auto simp: run_operation_def split: if_splits)
      ultimately show ?thesis using take_and_run_work [OF r vl Cons assms(2)] by simp
    next
      case False
      with assms(1) \<open>en_stealing E\<close> v Cons show ?thesis by (auto simp: try_to_steal_work_def)
    qed
  qed
qed (use assms(1) in \<open>auto simp: try_to_steal_work_def\<close>)

lemma work_loop_round_work:
  assumes "work_loop_round E me drawn w = Inr (cs, w')" and "n = length (w_workers w)"
  shows "queued n w' + stacked n cs < queued n w \<or> cs = [CLoop] \<and> w' = w"
proof -
  from assms(1) have me: "me < length (w_workers w)" by (auto simp: work_loop_round_def worker_at_def)
  show ?thesis
  proof (cases "wk_ready (w_workers w ! me)")
    case Nil
    with assms(1) me obtain cs1 where "try_to_steal_work E me drawn w = Inr (cs1, w')" "cs = cs1 @ [CLoop]"
      by (auto simp: work_loop_round_def worker_at_def then_do_def)
    with steal_work [of E me drawn w cs1 w' n] assms(2) show ?thesis by auto
  next
    case (Cons op rest)
    with assms(1) me obtain b cs1 w1
      where r: "run_operation me op (add_dorment (- 1) (set_ready me rest w)) = Inr (b, cs1, w1)"
        and e: "if b then cs = [] \<and> w' = add_dorment 1 (update_worker me (\<lambda>wk. wk\<lparr>wk_stopped := True\<rparr>) w1)
               else cs = cs1 @ [CDorment, CLoop] \<and> w' = w1"
      by (auto simp: work_loop_round_def worker_at_def split: if_splits)
    from take_and_run_work [OF r me Cons assms(2)] e show ?thesis
      by (auto simp: queued_update_worker split: if_splits)
  qed
qed

lemma emplace_all_work: "emplace_all is op w = Inr w' \<Longrightarrow> queued n w' = queued n w + length is * op_work n op"
  by (induction "is" arbitrary: w) (fastforce dest!: queued_emplace [where n = n])+

lemma shutdown_work:
  "run_shutdown_action w = Inr (cs, w') \<Longrightarrow> n = length (w_workers w)
    \<Longrightarrow> queued n w' + stacked n cs < queued n w + action_work n ShutdownAction"
  "run_region_shutdown_action w = Inr (cs, w') \<Longrightarrow> n = length (w_workers w)
    \<Longrightarrow> queued n w' + stacked n cs < queued n w + action_work n RegionShutdownAction"
proof -
  have crew: "length (w_workers w1) = length (w_workers w) \<and> queued n w1 = queued n w + op_work n op"
    if "emplace_ready i op w = Inr w1" for i op w1
    using queued_emplace [OF that, of n] that by (auto dest!: emplace_ready_frame)
  show "queued n w' + stacked n cs < queued n w + action_work n ShutdownAction"
    if "run_shutdown_action w = Inr (cs, w')" "n = length (w_workers w)"
    using that by (auto simp: run_shutdown_action_def dest!: emplace_all_work [where n = n])
  show "queued n w' + stacked n cs < queued n w + action_work n RegionShutdownAction"
    if "run_region_shutdown_action w = Inr (cs, w')" "n = length (w_workers w)"
    using that by (auto simp: run_region_shutdown_action_def dest!: crew emplace_all_work [where n = n])
qed

lemma spin_up_work:
  assumes "spin_up_worker_threads w = Inr (cs, w')"
  shows "queued n w' + stacked n cs < queued n w + cmd_work n CSpinUp"
proof -
  from assms have cs: "cs = [CLoopStart]" and w': "w' = w\<lparr>w_workers := take 1 (w_workers w)
      @ map (\<lambda>wk. wk\<lparr>wk_thread := True\<rparr>) (drop 1 (w_workers w))\<rparr>"
    by (auto simp: spin_up_worker_threads_def)
  have "map wk_ready (w_workers w') = map wk_ready (take 1 (w_workers w) @ drop 1 (w_workers w))"
    unfolding w' map_append by simp
  then have "queued n w' = queued n w" by (intro work.waiting_cong) (simp_all add: w')
  with cs show ?thesis by simp
qed

lemma plain_cmd_work:
  "work_loop_start w = Inr (cs, w') \<Longrightarrow> queued n w' + stacked n cs < queued n w + cmd_work n CLoopStart"
  "join_worker i w = Inr (cs, w') \<Longrightarrow> queued n w' + stacked n cs < queued n w + cmd_work n (CJoin i)"
  "erase_collective t tag ip w = Inr (cs, w') \<Longrightarrow> queued n w' + stacked n cs < queued n w + cmd_work n (CEraseCollective t tag ip)"
  "user_code E u code w = Inr (cs, w') \<Longrightarrow> queued n w' + stacked n cs < queued n w + api_work (UserCode u code)"
  by (auto simp: work_loop_start_def join_worker_def erase_collective_def user_code_def update_invocation_def
      set_collectives_def Let_def)

section \<open>Publication and the collectives\<close>

lemma publish_work:
  assumes "publish_use u d w = Inr (cs, w')"
  shows "queued n w' + stacked n cs < queued n w + api_work (PublishUse u d)"
  using assms
  by (auto simp: publish_use_def publish_at_entry_def set_source_flow_def dest!: queued_eqs [where n = n])

lemma comm_action_work:
  "run_fetched en f w = Inr (cs, w') \<Longrightarrow> queued n w' + stacked n cs < queued n w + action_work n (FetchedAction en f)"
  "run_publish_copy E en source c u w = Inr (cs, w')
    \<Longrightarrow> queued n w' + stacked n cs < queued n w + action_work n (PublishCopyAction en source c u)"
  "run_collective_decrement ip w = Inr (cs, w')
    \<Longrightarrow> queued n w' + stacked n cs < queued n w + action_work n (CollectiveDecrementAction ip)"
  "run_contribute ip h c op w = Inr (cs, w')
    \<Longrightarrow> queued n w' + stacked n cs < queued n w + action_work n (ContributeAction ip h c op)"
  "run_contribute_after_anti ip h c op w = Inr (cs, w')
    \<Longrightarrow> queued n w' + stacked n cs < queued n w + action_work n (ContributeAfterAntiAction ip h c op)"
  "run_contribute_reduce E ip h c op w = Inr (cs, w')
    \<Longrightarrow> queued n w' + stacked n cs < queued n w + action_work n (ContributeReduceAction ip h c op)"
  "run_reduce_in_ready ui uo op k c w = Inr (cs, w')
    \<Longrightarrow> queued n w' + stacked n cs < queued n w + action_work n (ReduceInReadyAction ui uo op k c)"
  "run_reduce_anti_ready E ui uo op k c w = Inr (cs, w')
    \<Longrightarrow> queued n w' + stacked n cs < queued n w + action_work n (ReduceAntiReadyAction ui uo op k c)"
  by (auto simp: run_fetched_def run_publish_copy_def run_collective_decrement_def run_contribute_def
      run_contribute_after_anti_def run_contribute_reduce_def run_reduce_in_ready_def run_reduce_anti_ready_def
      make_cblk_def Let_def split: option.splits dest!: queued_eqs [where n = n])

lemma reduce_collection_work:
  "reduce_collection_use ui uo d w = Inr (cs, w')
    \<Longrightarrow> queued n w' + stacked n cs < queued n w + api_work (ReduceCollectionUse ui uo d)"
  by (auto simp: reduce_collection_use_def dest!: queued_eqs [where n = n])

section \<open>What never changes\<close>

abbreviation crew :: "'d world \<Rightarrow> nat" where
  "crew w \<equiv> length (w_workers w)"

text \<open>
  What no step changes: the number of the workers, the depth up to which tasks may run on the stack,
  the callbacks, the number of the handles and the handle of each use. Only the registration and the
  release of a use change the set of the registered ones, only the end of its loop stops a worker, and
  only spinning up the workers starts their threads.
\<close>

definition wk_flags :: "worker \<Rightarrow> bool \<times> bool" where
  "wk_flags wk = (wk_stopped wk, wk_thread wk)"

lemma wk_flags_updates [simp]:
  "wk_flags (wk\<lparr>wk_ready := x1\<rparr>) = wk_flags wk" "wk_flags (wk\<lparr>wk_running := x2\<rparr>) = wk_flags wk"
  "wk_flags (wk\<lparr>wk_depth := x3\<rparr>) = wk_flags wk"
  by (simp_all add: wk_flags_def)

lemma flags_split:
  "map wk_flags ws' = map wk_flags ws \<Longrightarrow> map wk_stopped ws' = map wk_stopped ws \<and> map wk_thread ws' = map wk_thread ws"
  by (drule arg_cong [where f = "\<lambda>bs. (map fst bs, map snd bs)"]) (simp add: wk_flags_def comp_def)

abbreviation settings :: "'d world \<Rightarrow> nat \<times> nat \<times> nat list \<times> nat \<times> nat list" where
  "settings w \<equiv> (crew w, w_max_depth w, w_callbacks w, length (w_handles w), map us_handle (w_uses w))"

abbreviation fixtures :: "'d world \<Rightarrow> (nat \<times> nat \<times> nat list \<times> nat \<times> nat list) \<times> nat set \<times> (bool \<times> bool) list" where
  "fixtures w \<equiv> (settings w, w_registered w, map wk_flags (w_workers w))"

named_theorems settings_eqs

text \<open>Equations of sets are not taken apart here.\<close>

declare subset_antisym [rule del]

lemma map_field_update:
  "(\<And>x. field (g x) = field x) \<Longrightarrow> map field (xs[i := g (xs ! i)]) = map field xs"
  by (simp add: map_update) (metis list_update_id list_update_beyond map_update not_le)

lemma flags_emplace [simp]:
  "map wk_flags (ws[i := (ws ! i)\<lparr>wk_ready := ops\<rparr>]) = map wk_flags ws"
  by (rule map_field_update) simp

lemma flags_update_worker [simp]:
  "(\<And>wk. wk_flags (f wk) = wk_flags wk)
    \<Longrightarrow> map wk_flags (w_workers (update_worker i f w)) = map wk_flags (w_workers w)"
  by (simp add: update_worker_def map_field_update)

lemma settings_primitives [settings_eqs]:
  "new_event k w = (e, w') \<Longrightarrow> fixtures w' = fixtures w"
  "advance_count e k w = Inr w' \<Longrightarrow> fixtures w' = fixtures w"
  "increment_count e w = Inr w' \<Longrightarrow> fixtures w' = fixtures w"
  "decrement_count e w = Inr (cs, w') \<Longrightarrow> fixtures w' = fixtures w"
  "attach_or_do_action e a cs0 w = Inr (cs, w') \<Longrightarrow> fixtures w' = fixtures w"
  "attach_action e a w = Inr (cs, w') \<Longrightarrow> fixtures w' = fixtures w"
  "emplace_ready i op w = Inr w' \<Longrightarrow> fixtures w' = fixtures w"
  by (drule frame, auto split: if_splits)+

lemma settings_objects [settings_eqs]:
  "attach_decrement_of e e' w = Inr (cs, w') \<Longrightarrow> fixtures w' = fixtures w"
  "make_cblk cb w = (c, w') \<Longrightarrow> fixtures w' = fixtures w"
  "make_flow co k w = Inr (f, w') \<Longrightarrow> fixtures w' = fixtures w"
  "make_anti_flow k w = Inr (a, w') \<Longrightarrow> fixtures w' = fixtures w"
  "make_entry w = (en, w') \<Longrightarrow> fixtures w' = fixtures w"
  by (auto simp: attach_decrement_of_def make_cblk_def make_flow_def make_anti_flow_def make_entry_def new_event_def
      Let_def dest!: settings_primitives)

lemma settings_ensure_entry [settings_eqs]: "ensure_entry t key w = Inr (en, w') \<Longrightarrow> fixtures w' = fixtures w"
  by (erule ensure_entry_cases) (auto simp: set_published_entry_def Let_def dest!: settings_eqs)

lemma settings_update_worker [simp]:
  "crew (update_worker i f w) = crew w" "w_max_depth (update_worker i f w) = w_max_depth w"
  "w_callbacks (update_worker i f w) = w_callbacks w" "w_handles (update_worker i f w) = w_handles w"
  "w_uses (update_worker i f w) = w_uses w" "w_registered (update_worker i f w) = w_registered w"
  by (simp_all add: update_worker_def)

lemma settings_update_use [simp]:
  "crew (update_use u g w) = crew w" "w_max_depth (update_use u g w) = w_max_depth w"
  "w_callbacks (update_use u g w) = w_callbacks w" "w_handles (update_use u g w) = w_handles w"
  "w_registered (update_use u g w) = w_registered w" "w_workers (update_use u g w) = w_workers w"
  "(\<And>us. us_handle (g us) = us_handle us) \<Longrightarrow> map us_handle (w_uses (update_use u g w)) = map us_handle (w_uses w)"
  by (simp_all add: update_use_def map_field_update)

lemma settings_dorment [simp]:
  "w_handles (add_dorment d w) = w_handles w" "w_uses (add_dorment d w) = w_uses w"
  "w_registered (add_dorment d w) = w_registered w" "w_handles (set_ready i ops w) = w_handles w"
  "w_uses (set_ready i ops w) = w_uses w" "w_registered (set_ready i ops w) = w_registered w"
  "map wk_flags (w_workers (set_ready i ops w)) = map wk_flags (w_workers w)"
  by (simp_all add: add_dorment_def set_ready_def)

lemma settings_in_flow [settings_eqs]:
  "in_flow_next rel w = Inr (f, cs, w') \<Longrightarrow> fixtures w' = fixtures w"
  "in_flow_initial E us w = Inr (f, cs, w') \<Longrightarrow> fixtures w' = fixtures w"
  "in_flow_initial_collection E us w = Inr (f, cs, w') \<Longrightarrow> fixtures w' = fixtures w"
  "in_flow_indexed_local E rel w = Inr (f, cs, w') \<Longrightarrow> fixtures w' = fixtures w"
  "in_flow_indexed_fetching us w = Inr (f, cs, w') \<Longrightarrow> fixtures w' = fixtures w"
  by (auto simp: in_flow_next_def in_flow_initial_def in_flow_initial_collection_def in_flow_of_cblk_def
      in_flow_indexed_local_def in_flow_indexed_fetching_def Let_def split: prod.splits dest!: settings_eqs)

lemma settings_registration [settings_eqs]:
  "register_in E u w = Inr (cs, w') \<Longrightarrow> fixtures w' = fixtures w"
  "register_anti_in u w = Inr (cs, w') \<Longrightarrow> fixtures w' = fixtures w"
  "register_out u w = Inr (cs, w') \<Longrightarrow> fixtures w' = fixtures w"
  "register_anti_out u w = Inr (cs, w') \<Longrightarrow> fixtures w' = fixtures w"
proof -
  show "register_in E u w = Inr (cs, w') \<Longrightarrow> fixtures w' = fixtures w"
    by (auto simp: register_in_def set_in_flow_def reuse_in_flow_def Let_def split: description.splits dest!: settings_eqs)
  show "register_anti_in u w = Inr (cs, w') \<Longrightarrow> fixtures w' = fixtures w"
    by (auto simp: register_anti_in_def anti_in_same_def anti_in_next_def anti_in_forwarding_def
        anti_in_indexed_local_def set_anti_in_flow_def split: description.splits option.splits if_splits dest!: settings_eqs)
  show "register_out u w = Inr (cs, w') \<Longrightarrow> fixtures w' = fixtures w"
    by (auto simp: register_out_def out_same_def out_next_def out_null_def out_indexed_local_def set_out_flow_def
        split: description.splits option.splits if_splits prod.splits dest!: settings_eqs)
  show "register_anti_out u w = Inr (cs, w') \<Longrightarrow> fixtures w' = fixtures w"
    by (auto simp: register_anti_out_def anti_out_initial_def anti_out_same_def anti_out_next_def Let_def
        anti_out_indexed_local_def anti_out_indexed_fetching_def set_anti_out_flow_def
        split: description.splits option.splits if_splits prod.splits dest!: settings_eqs)
qed

lemma settings_plain [settings_eqs]:
  "work_loop_start w = Inr (cs, w') \<Longrightarrow> fixtures w' = fixtures w"
  "join_worker i w = Inr (cs, w') \<Longrightarrow> fixtures w' = fixtures w"
  "erase_collective t tag ip w = Inr (cs, w') \<Longrightarrow> fixtures w' = fixtures w"
  "user_code E u code w = Inr (cs, w') \<Longrightarrow> fixtures w' = fixtures w"
  by (auto simp: work_loop_start_def join_worker_def
      erase_collective_def user_code_def update_invocation_def set_collectives_def Let_def
      split: if_splits)

lemma settings_spin_up:
  assumes "spin_up_worker_threads w = Inr (cs, w')"
  shows "settings w' = settings w \<and> w_registered w' = w_registered w
    \<and> map wk_stopped (w_workers w') = map wk_stopped (w_workers w) \<and> list_all wk_thread (drop 1 (w_workers w'))"
proof -
  have "map wk_stopped (take 1 ws @ map (\<lambda>wk. wk\<lparr>wk_thread := True\<rparr>) (drop 1 ws)) = map wk_stopped ws" for ws
    by (cases ws) simp_all
  with assms show ?thesis by (cases "w_workers w") (auto simp: spin_up_worker_threads_def list_all_iff)
qed

lemma settings_dependency [settings_eqs]:
  "add_dependency_on p e w = Inr (cs, w') \<Longrightarrow> fixtures w' = fixtures w"
  "enqueue_or_run me p op i allow w = Inr (cs, w') \<Longrightarrow> fixtures w' = fixtures w"
  "run_enqueue_action me op w = Inr (cs, w') \<Longrightarrow> fixtures w' = fixtures w"
  "stack_run me op w = Inr (cs, w') \<Longrightarrow> fixtures w' = fixtures w"
  "stack_exit me w = Inr (cs, w') \<Longrightarrow> fixtures w' = fixtures w"
  by (auto simp: add_dependency_on_def enqueue_or_run_def run_enqueue_action_def stack_run_def stack_exit_def
      Let_def split: if_splits prod.splits dest!: settings_eqs)

lemma settings_pending [settings_eqs]:
  "alias_flows me h e w = Inr (cs, w') \<Longrightarrow> fixtures w' = fixtures w"
  "make_pending_task tsk i w = (cs, w') \<Longrightarrow> fixtures w' = fixtures w"
  by (auto simp: alias_flows_def when_ready_do_def when_all_ready_do_def make_pending_task_def
      make_pending_operation_def new_event_def Let_def split: if_splits dest!: settings_primitives(3))

lemma set_parent_tokens_settings [settings_eqs]: "set_parent_tokens t ds w = Inr w' \<Longrightarrow> fixtures w' = fixtures w"
proof (induction ds arbitrary: w)
  case Nil
  then show ?case by simp
next
  case (Cons dep deps)
  from Cons.prems obtain w1 where "set_parent_tokens t deps w1 = Inr w'" "fixtures w1 = fixtures w"
    by (auto split: if_splits)
  with Cons.IH show ?case by metis
qed

lemma setup_data_settings [settings_eqs]: "setup_data ds w = Inr w' \<Longrightarrow> fixtures w' = fixtures w"
proof (induction ds arbitrary: w)
  case Nil
  then show ?case by simp
next
  case (Cons dep deps)
  from Cons.prems obtain w1 where "setup_data deps w1 = Inr w'" "fixtures w1 = fixtures w"
    by (auto split: if_splits)
  with Cons.IH show ?case by metis
qed

lemma emplace_all_settings [settings_eqs]: "emplace_all is op w = Inr w' \<Longrightarrow> fixtures w' = fixtures w"
  by (induction "is" arbitrary: w) (fastforce dest!: settings_eqs)+

lemma run_operation_settings [settings_eqs]: "run_operation me op w = Inr (b, cs, w') \<Longrightarrow> fixtures w' = fixtures w"
  by (auto simp: run_operation_def run_task_def split: if_splits ready_op.splits message_kind.splits dest!: settings_eqs)

lemma settings_tasks [settings_eqs]:
  "task_dependency p d w = Inr (cs, w') \<Longrightarrow> fixtures w' = fixtures w"
  "task_anti_dependency p d w = Inr (cs, w') \<Longrightarrow> fixtures w' = fixtures w"
  "task_finished me old w = Inr (cs, w') \<Longrightarrow> fixtures w' = fixtures w"
  "register_task me t w = Inr (cs, w') \<Longrightarrow> fixtures w' = fixtures w"
  "register_task_collection tc w = Inr (cs, w') \<Longrightarrow> fixtures w' = fixtures w"
  "run_ignoring_message me op w = Inr (cs, w') \<Longrightarrow> fixtures w' = fixtures w"
  by (auto simp: task_dependency_def task_anti_dependency_def then_do_def task_finished_def register_task_def
      register_task_collection_def make_token_def run_ignoring_message_def Let_def
      split: if_splits dest!: settings_eqs)

lemma create_tasks_settings [settings_eqs]: "create_tasks me name ts i w = Inr (cs, w') \<Longrightarrow> fixtures w' = fixtures w"
  by (cases ts) (auto simp: Let_def split: prod.splits dest!: settings_eqs)

lemma steal_settings [settings_eqs]: "try_to_steal_work E me drawn w = Inr (cs, w') \<Longrightarrow> fixtures w' = fixtures w"
  by (cases "wk_ready (w_workers w ! nat (steal_from drawn me (crew w)))")
    (auto simp: try_to_steal_work_def worker_index_def then_do_def split: if_splits dest!: settings_eqs)

lemma threads_stop [simp]:
  "map wk_thread (w_workers (update_worker i (\<lambda>wk. wk\<lparr>wk_stopped := b\<rparr>) w)) = map wk_thread (w_workers w)"
  "map wk_thread (w_workers (set_ready i ops w)) = map wk_thread (w_workers w)"
  by (simp_all add: update_worker_def set_ready_def map_field_update)

lemma work_loop_settings:
  "work_loop_round E me drawn w = Inr (cs, w') \<Longrightarrow> settings w' = settings w \<and> w_registered w' = w_registered w
    \<and> map wk_thread (w_workers w') = map wk_thread (w_workers w)"
  by (cases "wk_ready (w_workers w ! me)")
    (auto simp: work_loop_round_def worker_at_def then_do_def split: if_splits dest!: settings_eqs flags_split)

lemma settings_communication [settings_eqs]:
  "publish_use u d w = Inr (cs, w') \<Longrightarrow> fixtures w' = fixtures w"
  "reduce_collection_use ui uo cd w = Inr (cs, w') \<Longrightarrow> fixtures w' = fixtures w"
  by (auto simp: publish_use_def publish_at_entry_def set_source_flow_def reduce_collection_use_def dest!: settings_eqs)

lemma allreduce_settings [settings_eqs]: "allreduce_use u d tag w = Inr (cs, w') \<Longrightarrow> fixtures w' = fixtures w"
  by (auto simp: allreduce_use_def evaluate_or_evaluate_first_def contribute_more_def contribute_first_def then_do_def
      push_input_use_def update_invocation_def make_invocation_def set_collectives_def Let_def
      split: option.splits prod.splits dest!: settings_eqs)

lemma run_action_settings [settings_eqs]: "run_action E me a w = Inr (cs, w') \<Longrightarrow> fixtures w' = fixtures w"
  by (auto simp: run_action_def run_fetched_def run_publish_copy_def run_collective_decrement_def run_contribute_def
      run_contribute_after_anti_def run_contribute_reduce_def run_allreduce_done_def run_reduce_in_ready_def
      run_reduce_anti_ready_def run_shutdown_action_def run_region_shutdown_action_def make_cblk_def Let_def
      split: action.splits option.splits dest!: settings_eqs)

lemma settings_register:
  "register_use u w = Inr (cs, w') \<Longrightarrow> settings w' = settings w
    \<and> map wk_flags (w_workers w') = map wk_flags (w_workers w)
    \<and> w_registered w' = insert u (w_registered w) \<and> u < length (w_uses w)
    \<and> us_handle (w_uses w ! u) < length (w_handles w)"
  by (auto simp: register_use_def assign_key_def use_at_def Let_def split: if_splits)

lemma settings_release:
  "release_use u w = Inr (cs, w') \<Longrightarrow> settings w' = settings w
    \<and> map wk_flags (w_workers w') = map wk_flags (w_workers w) \<and> w_registered w' = w_registered w - {u}"
  by (auto simp: release_use_def Let_def split: if_splits)

text \<open>The registered uses exist, and so do their handles.\<close>

definition uses_usable :: "'d world \<Rightarrow> bool" where
  "uses_usable w \<longleftrightarrow>
     (\<forall>u\<in>w_registered w. u < length (w_uses w) \<and> map us_handle (w_uses w) ! u < length (w_handles w))"

lemma run_api_fixtures:
  "run_api E me a w = Inr (cs, w') \<Longrightarrow> settings w' = settings w
    \<and> map wk_flags (w_workers w') = map wk_flags (w_workers w)
    \<and> (w_registered w' = w_registered w \<or> (\<exists>u. register_use u w = Inr (cs, w')) \<or> (\<exists>u. release_use u w = Inr (cs, w')))"
  unfolding run_api_def
  by (cases a) (simp_all, (blast dest: settings_register settings_release settings_eqs)+)

text \<open>All commands that change none of them.\<close>

lemma step_fixtures_plain:
  assumes "step E me drawn c w = Inr (cs, w')" and "\<And>a. c \<noteq> CApi a" and "\<And>u. c \<noteq> CRelease u" and "c \<noteq> CLoop"
    and "c \<noteq> CSpinUp"
  shows "fixtures w' = fixtures w"
  using assms by (auto simp: step_def split: cmd.splits dest!: settings_eqs)

lemma step_fixtures:
  assumes "step E me drawn c w = Inr (cs, w')"
  shows "settings w' = settings w"
    and "c \<noteq> CLoop \<Longrightarrow> map wk_stopped (w_workers w') = map wk_stopped (w_workers w)"
    and "w_registered w' = w_registered w \<or> (\<exists>u. register_use u w = Inr (cs, w')) \<or> (\<exists>u. release_use u w = Inr (cs, w'))"
    and "c \<noteq> CSpinUp \<Longrightarrow> map wk_thread (w_workers w') = map wk_thread (w_workers w)"
proof -
  have api: "run_api E me a w = Inr (cs, w')" if "c = CApi a" for a using assms that by (simp add: step_def)
  have rel: "release_use u w = Inr (cs, w')" if "c = CRelease u" for u using assms that by (simp add: step_def)
  have loop: "work_loop_round E me drawn w = Inr (cs, w')" if "c = CLoop" using assms that by (simp add: step_def)
  have spin: "spin_up_worker_threads w = Inr (cs, w')" if "c = CSpinUp" using assms that by (simp add: step_def)
  consider a where "c = CApi a" | u where "c = CRelease u" | "c = CLoop" | "c = CSpinUp"
    | (plain) "\<And>a. c \<noteq> CApi a" "\<And>u. c \<noteq> CRelease u" "c \<noteq> CLoop" "c \<noteq> CSpinUp" by blast
  then have "settings w' = settings w
    \<and> (c \<noteq> CLoop \<longrightarrow> map wk_stopped (w_workers w') = map wk_stopped (w_workers w))
    \<and> (w_registered w' = w_registered w \<or> (\<exists>u. register_use u w = Inr (cs, w')) \<or> (\<exists>u. release_use u w = Inr (cs, w')))
    \<and> (c \<noteq> CSpinUp \<longrightarrow> map wk_thread (w_workers w') = map wk_thread (w_workers w))"
  proof cases
    case 1
    from run_api_fixtures [OF api [OF this]] flags_split [of "w_workers w'" "w_workers w"] show ?thesis by blast
  next
    case 2
    from settings_release [OF rel [OF this]] rel [OF this] flags_split [of "w_workers w'" "w_workers w"] show ?thesis by blast
  next
    case 3
    from work_loop_settings [OF loop [OF this]] 3 show ?thesis by blast
  next
    case 4
    from settings_spin_up [OF spin [OF this]] 4 show ?thesis by blast
  next
    case plain
    from step_fixtures_plain [OF assms this] have f: "settings w' = settings w" "w_registered w' = w_registered w"
      "map wk_flags (w_workers w') = map wk_flags (w_workers w)" by blast+
    from f(1,2) flags_split [OF f(3)] show ?thesis by blast
  qed
  then show "settings w' = settings w"
    and "c \<noteq> CLoop \<Longrightarrow> map wk_stopped (w_workers w') = map wk_stopped (w_workers w)"
    and "w_registered w' = w_registered w \<or> (\<exists>u. register_use u w = Inr (cs, w')) \<or> (\<exists>u. release_use u w = Inr (cs, w'))"
    and "c \<noteq> CSpinUp \<Longrightarrow> map wk_thread (w_workers w') = map wk_thread (w_workers w)" by blast+
qed

lemma step_settings: "step E me drawn c w = Inr (cs, w') \<Longrightarrow> settings w' = settings w"
  by (rule step_fixtures)

lemma step_uses_usable:
  assumes "step E me drawn c w = Inr (cs, w')" and "uses_usable w"
  shows "uses_usable w'"
proof -
  have s: "length (w_handles w') = length (w_handles w)" "map us_handle (w_uses w') = map us_handle (w_uses w)"
    using step_settings [OF assms(1)] by simp_all
  then have l: "length (w_uses w') = length (w_uses w)" by (metis length_map)
  from step_fixtures(3) [OF assms(1)] have "\<forall>u\<in>w_registered w'. u \<in> w_registered w
      \<or> u < length (w_uses w) \<and> map us_handle (w_uses w) ! u < length (w_handles w)"
    by (auto dest!: settings_register settings_release)
  with assms(2) show ?thesis unfolding uses_usable_def s l by blast
qed

declare subset_antisym [intro!]

section \<open>Every step\<close>

text \<open>The uses that took part in collectives whose completion is still to release them.\<close>

definition inputs_work :: "'d world \<Rightarrow> nat multiset \<Rightarrow> nat" where
  "inputs_work w kd = release_work * size (input_claims w (open_dones w kd))"

lemma inputs_work_same:
  assumes "waiting (\<lambda>_. {#}) done_action w' + todo done_cmd cs = waiting (\<lambda>_. {#}) done_action w + x"
    and "\<And>d. input_claims w' d = input_claims w d"
  shows "inputs_work w' (kd + todo done_cmd cs) = inputs_work w (kd + x)"
proof -
  have "open_dones w' (kd + todo done_cmd cs) = open_dones w (kd + x)"
    using add_frame(2) [OF assms(1), of kd] by (simp add: open_dones_def ac_simps)
  then show ?thesis by (simp add: inputs_work_def assms(2))
qed

lemma moved_inputs:
  assumes "step E me drawn c w = Inr (cs, w')" and "moves c"
  shows "inputs_work w' (kd + todo done_cmd cs) = inputs_work w (kd + done_cmd c)"
  using inputs_work_same [OF done_moves.W_step [OF assms]] step_claimants [OF assms] by (simp add: same_claimants_def)

lemma unmoved_inputs:
  "register_anti_out u w = Inr (cs, w') \<Longrightarrow> inputs_work w' (kd + todo done_cmd cs) = inputs_work w kd"
  "release_use u w = Inr (cs, w') \<Longrightarrow> inputs_work w' (kd + todo done_cmd cs) = inputs_work w kd"
  "register_use u w = Inr (cs, w') \<Longrightarrow> inputs_work w' (kd + todo done_cmd cs) = inputs_work w kd"
  "reduce_collection_use u uo cd w = Inr (cs, w') \<Longrightarrow> inputs_work w' (kd + todo done_cmd cs) = inputs_work w kd"
proof -
  have same: "inputs_work w' (kd + todo done_cmd cs) = inputs_work w kd"
    if "waiting (\<lambda>_. {#}) done_action w' + todo done_cmd cs = waiting (\<lambda>_. {#}) done_action w" "same_claimants w w'"
    using inputs_work_same [of w' cs w "{#}" kd] that by (simp add: same_claimants_def)
  show "inputs_work w' (kd + todo done_cmd cs) = inputs_work w kd" if r: "register_anti_out u w = Inr (cs, w')"
    using anti_out_shape [OF r] dones.W_anti_out [OF r] by (intro same) (auto simp: calm_claimants flow_change_claimants calm_mild)
  show "inputs_work w' (kd + todo done_cmd cs) = inputs_work w kd" if r: "reduce_collection_use u uo cd w = Inr (cs, w')"
    using calm_contribute(6) [OF r] dones.W_reduce_collection [OF r] by (intro same) (auto simp: calm_claimants)
  show "inputs_work w' (kd + todo done_cmd cs) = inputs_work w kd" if r: "release_use u w = Inr (cs, w')"
    using dones.W_release_use [OF r] release_frame [OF r] same_invocations [of w' w]
      inputs_work_same [of w' cs w "{#}" kd] by simp
  show "inputs_work w' (kd + todo done_cmd cs) = inputs_work w kd" if r: "register_use u w = Inr (cs, w')"
    using dones.W_register_use [OF r] register_frame [OF r] same_invocations [of w' w]
      inputs_work_same [of w' cs w "{#}" kd] by simp
qed

lemma publish_inputs:
  assumes r: "publish_use u d w = Inr (cs, w')"
  shows "inputs_work w' (kd + todo done_cmd cs) = inputs_work w kd"
proof -
  have "waiting (\<lambda>_. {#}) done_action w' + todo done_cmd cs = waiting (\<lambda>_. {#}) done_action w + {#}"
    using r by (rule dones.W_publish) simp
  then show ?thesis
    using inputs_work_same [of w' cs w "{#}" kd] mild_claimants [OF publish_mild [OF r]] by (simp add: same_claimants_def)
qed

text \<open>A contribution adds its use to the inputs; the completion pays for their releases.\<close>

lemma size_input_claims:
  "input_claims w' D' \<subseteq># input_claims w D + {#u#} \<Longrightarrow>
     release_work * size (input_claims w' D') \<le> release_work * size (input_claims w D) + release_work"
  using size_mset_mono [of "input_claims w' D'" "input_claims w D + {#u#}"] by (simp add: release_work_def)

lemma contribute_more_queued:
  "contribute_more u op ip w = Inr (cs, w') \<Longrightarrow> queued n w' + stacked n cs < queued n w + 9"
  by (auto simp: contribute_more_def then_do_def push_input_use_def update_invocation_def Let_def
      split: option.splits dest!: queued_eqs [where n = n])

lemma contribute_first_queued:
  "contribute_first u t tag ip w = Inr (cs, w') \<Longrightarrow> queued n w' + stacked n cs < queued n w + 9"
  by (auto simp: contribute_first_def push_input_use_def update_invocation_def Let_def
      split: option.splits dest!: queued_eqs [where n = n])

lemma allreduce_work:
  assumes r: "allreduce_use u d tag w = Inr (cs, w')" and t: "tables_ok w"
  shows "queued n w' + stacked n cs + inputs_work w' (kd + todo done_cmd cs)
    < queued n w + api_work (AllreduceUse u d tag) + inputs_work w kd"
  using r
proof (cases rule: dones.W_allreduce)
  case (more t ip)
  have len: "invocation_id ip < length (w_invocations w)"
    using more(2,3) tables_okD(2) [OF assms(2) nth_mem] by blast
  have "open_dones w' (kd + todo done_cmd cs) = open_dones w kd"
    using add_frame(2) [of "waiting (\<lambda>_. {#}) done_action w'" "todo done_cmd cs" "waiting (\<lambda>_. {#}) done_action w" "{#}" kd] more(5)
    by (simp add: open_dones_def ac_simps)
  then have "inputs_work w' (kd + todo done_cmd cs) \<le> inputs_work w kd + release_work"
    using size_input_claims [OF contribute_more_inputs(1) [OF more(4) len, of "open_dones w kd"]] by (simp add: inputs_work_def)
  with contribute_more_queued [OF more(4), of n] show ?thesis by simp
next
  case (first t ip w1)
  note i = contribute_first_inputs(4,5) [OF first(4,5), of kd]
  have "queued n (set_collectives t (\<lambda>_. (tk_collectives (w_tokens w ! t))(tag \<mapsto> ip)) w1) = queued n w"
    using first(4) by (auto simp: make_invocation_def set_collectives_def Let_def split: prod.splits dest!: queued_eqs [where n = n])
  moreover have "inputs_work w' (kd + todo done_cmd cs) \<le> inputs_work w kd + release_work"
    using size_input_claims [OF i(2)] i(1) by (simp add: inputs_work_def)
  ultimately show ?thesis using contribute_first_queued [OF first(5), of n] by simp
qed

lemma allreduce_done_work:
  assumes r: "run_allreduce_done E ip t tag w = Inr (cs, w')"
    and old: "claimed w kc (kd + {#invocation_id ip#})"
  shows "queued n w' + stacked n cs + inputs_work w' (kd + todo done_cmd cs)
    < queued n w + action_work n (AllreduceDoneAction ip t tag) + inputs_work w (kd + {#invocation_id ip#})"
proof -
  let ?us = "iv_input_uses (snd (w_invocations w ! invocation_id ip))"
  have cs: "cs = map CRelease ?us @ [CEraseCollective t tag ip]" and q: "queued n w' = queued n w"
    using r by (auto simp: run_allreduce_done_def lock_invocation_def invocation_at_def Let_def)
  have rel: "stacked n (map CRelease ?us) = length ?us * release_work" by (rule stacked_constant) simp
  note inputs = allreduce_done_inputs [OF r old]
  have "inputs_work w (kd + {#invocation_id ip#}) = inputs_work w kd + length ?us * release_work"
    unfolding inputs_work_def inputs(2) by (simp add: algebra_simps)
  moreover have "inputs_work w' (kd + todo done_cmd cs) = inputs_work w kd"
    using calm_input_claims [OF calm_contribute(5) [OF r]] by (simp add: inputs_work_def inputs(1))
  ultimately show ?thesis using rel q by (simp add: cs del: map_map)
qed

lemma run_action_work:
  assumes "run_action E me a w = Inr (cs, w')" and "n = crew w" and "moves_action a"
  shows "queued n w' + stacked n cs < queued n w + action_work n a"
proof (cases a)
  case (DecrementAction e)
  with assms queued_decrement [of e w cs w' n] show ?thesis by (simp add: run_action_def)
qed (use assms in \<open>simp_all add: run_action_def run_enqueue_work comm_action_work shutdown_work del: action_work.simps\<close>)

lemma moved_work:
  assumes s: "step E me drawn c w = Inr (cs, w')" and n: "n = crew w" and c: "moves c" "c \<noteq> CLoop"
  shows "queued n w' + stacked n cs < queued n w + cmd_work n c"
  using s c
proof (cases c)
  case (CDecrement e)
  with s queued_decrement [of e w cs w' n] show ?thesis by (simp add: step_def)
next
  case (CAction a)
  with s n c run_action_work [of E me a w cs w' n] show ?thesis by (simp add: step_def)
next
  case (CApi a)
  with s c show ?thesis
    by (cases a; simp add: step_def run_api_def register_task_work register_task_collection_work plain_cmd_work
        del: api_work.simps api_work_collection)
next
  case (CAttach e a)
  with s queued_attach [of e a w cs w' n] show ?thesis by (simp add: step_def)
next
  case CDorment
  with s show ?thesis by (auto simp: step_def)
qed (use s n in \<open>simp_all add: step_def register_in_work register_anti_in_work register_out_work alias_flows_work
    add_dependency_work task_dependency_work enqueue_or_run_work stack_work run_ignoring_work task_finished_work
    create_tasks_work plain_cmd_work spin_up_work del: cmd_work.simps\<close>)

lemma unmoved_work:
  assumes s: "step E me drawn c w = Inr (cs, w')" and n: "n = crew w" and c: "\<not> moves c"
    and old: "claimed w (kc + claim_cmd c) (kd + done_cmd c)" and t: "tables_ok w"
  shows "queued n w' + stacked n cs + inputs_work w' (kd + todo done_cmd cs)
    < queued n w + cmd_work n c + inputs_work w (kd + done_cmd c)"
  using c
proof (cases c)
  case (CAction a)
  with c obtain ip t' tag where "a = AllreduceDoneAction ip t' tag" by (cases a) simp_all
  with CAction s old allreduce_done_work [of E ip t' tag w cs w' kc kd n] show ?thesis
    by (simp add: step_def run_action_def del: action_work.simps)
next
  case (CApi a)
  then have s': "run_api E me a w = Inr (cs, w')" using s by (simp add: step_def)
  have plain: ?thesis if "queued n w' + stacked n cs < queued n w + api_work a"
    "inputs_work w' (kd + todo done_cmd cs) = inputs_work w kd"
    using that CApi by simp
  show ?thesis
  proof (cases a)
    case (AllreduceUse u d tag)
    with CApi s' t allreduce_work [of u d tag w cs w' n kd] show ?thesis
      by (simp add: run_api_def del: api_work.simps)
  next
    case (RegisterUse u)
    with s' show ?thesis by (intro plain) (simp_all add: run_api_def register_use_work unmoved_inputs del: api_work.simps)
  next
    case (ReleaseUse u)
    with s' show ?thesis by (intro plain) (simp_all add: run_api_def release_use_work unmoved_inputs)
  next
    case (PublishUse u d)
    with s' show ?thesis by (intro plain) (simp_all add: run_api_def publish_work publish_inputs del: api_work.simps)
  next
    case (ReduceCollectionUse ui uo d)
    with s' show ?thesis
      by (intro plain) (simp_all add: run_api_def reduce_collection_work unmoved_inputs del: api_work.simps)
  qed (use c CApi in simp_all)
next
  case (CRegisterAntiOut u)
  with s register_anti_out_work [of u w cs w' n] unmoved_inputs(1) [of u w cs w' kd] show ?thesis by (simp add: step_def)
next
  case (CRelease u)
  with s release_use_work [of u w cs w' n] unmoved_inputs(2) [of u w cs w' kd] show ?thesis by (simp add: step_def)
qed simp_all

text \<open>A step that is not an idle round of a work loop uses up work.\<close>

lemma step_work:
  assumes s: "step E me drawn c w = Inr (cs, w')" and n: "n = crew w"
    and old: "claimed w (kc + claim_cmd c) (kd + done_cmd c)" and t: "tables_ok w"
  shows "queued n w' + stacked n cs + inputs_work w' (kd + todo done_cmd cs)
      < queued n w + cmd_work n c + inputs_work w (kd + done_cmd c)
    \<or> c = CLoop \<and> cs = [CLoop] \<and> w' = w"
proof (cases "moves c")
  case True
  note same = moved_inputs [OF s True, of kd]
  show ?thesis
  proof (cases "c = CLoop")
    case True
    with s n have "queued n w' + stacked n cs < queued n w \<or> cs = [CLoop] \<and> w' = w"
      using work_loop_round_work [of E me drawn w cs w' n] by (simp add: step_def)
    with True same show ?thesis by auto
  next
    case False
    with moved_work [OF s n True] same show ?thesis by simp
  qed
next
  case False
  with unmoved_work [OF s n False old t] show ?thesis by blast
qed

end
