(* ===== verification/Safety.thy ===== *)
theory Safety
  imports Samples
begin

text \<open>
  What the accounting means for a running backend: no event becomes ready too early, no use is
  released twice, the runtime shuts down only when no task is left, and no wake-up is lost.
\<close>

section \<open>What holds in every reachable configuration\<close>

lemma starts_good:
  assumes "starts g"
  shows "good_flows (cf_world g)" and "plain_event (cf_world g) shutdown_counter"
proof -
  have "flow_events us = []" if "us \<in> set (w_uses (cf_world g))" for us
    using assms that by (auto simp: starts_def list_all_iff without_flows_def flow_events_def)
  then have "flows_plain (cf_world g)" by (simp add: flows_plain_def)
  with reaches_inv [OF starts_reaches [OF assms]] show "good_flows (cf_world g)"
    by (simp add: good_flows_def backend_inv_def)
  show "plain_event (cf_world g) shutdown_counter"
    using starts_world [OF assms] by (simp add: plain_event_def release_events_def shutdown_counter_def)
qed

lemma reaches_good: "reaches E g \<Longrightarrow> good_flows (cf_world g) \<and> plain_event (cf_world g) shutdown_counter"
proof (induction rule: reaches_invariant)
  case (start g)
  then show ?case using starts_good by blast
next
  case (step g g')
  then obtain i c cs drawn cs' w' where "step E i drawn c (cf_world g) = Inr (cs', w')" "cf_world g' = w'"
    by (auto elim!: disciplinedE)
  with step.IH show ?case using step_good_flows plain_event_grows by blast
qed

lemma reaches_balanced:
  assumes "reaches E g" and "e \<notin> release_events (cf_world g)"
  shows "balanced_event (w_events (cf_world g)) (outstanding g) e"
  using reaches_inv [OF assms(1)] assms(2) by (simp add: backend_inv_def accounted_def outstanding_def)

lemma mset_le_add:
  fixes x :: "'a multiset"
  shows "x \<subseteq># a \<Longrightarrow> x \<subseteq># a + b" and "x \<subseteq># b \<Longrightarrow> x \<subseteq># a + b"
  by (meson mset_subset_eq_add_left mset_subset_eq_add_right subset_mset.order_trans)+

lemma outstanding_cmd:
  assumes "c \<in> set cs" and "cs \<in> set (cf_stacks g)"
  shows "credit_cmd c \<subseteq># outstanding g"
  using all_todo_member [OF assms, of credit_cmd]
  by (auto simp: outstanding_def owed_def stack_credits_def intro: mset_le_add)

lemma sum_list_member: "x \<in> set xs \<Longrightarrow> (f x :: nat multiset) \<subseteq># sum_list (map f xs)"
  by (induction xs) (auto intro: subset_mset.add_increasing subset_mset.add_increasing2)

lemma outstanding_ready:
  assumes "wk \<in> set (w_workers (cf_world g))" and "op \<in> set (wk_ready wk)"
  shows "credit_op op \<subseteq># outstanding g"
proof -
  have "credit_op op \<subseteq># sum_list (map credit_op (wk_ready wk))" using assms(2) by (rule sum_list_member)
  also have "\<dots> \<subseteq># sum_list (map (\<lambda>wk. sum_list (map credit_op (wk_ready wk))) (w_workers (cf_world g)))"
    using assms(1) by (rule sum_list_member)
  finally show ?thesis
    by (simp add: outstanding_def owed_def waiting_def mset_le_add)
qed

lemma outstanding_action:
  assumes "ev \<in> set (w_events (cf_world g))" and "a \<in> set (ev_actions ev)"
  shows "credit_action a \<subseteq># outstanding g"
proof -
  have "credit_action a \<subseteq># sum_list (map credit_action (ev_actions ev))" using assms(2) by (rule sum_list_member)
  also have "\<dots> \<subseteq># sum_list (map (\<lambda>ev. sum_list (map credit_action (ev_actions ev))) (w_events (cf_world g)))"
    using assms(1) by (rule sum_list_member)
  finally show ?thesis
    by (simp add: outstanding_def owed_def waiting_def mset_le_add)
qed

lemma outstanding_held:
  assumes "u \<in> w_registered (cf_world g)" and "u < length (w_uses (cf_world g))"
  shows "mset (released_triggers (w_uses (cf_world g) ! u)) \<subseteq># outstanding g"
proof -
  let ?w = "cf_world g"
  let ?f = "\<lambda>u. if u \<in> w_registered ?w then mset (released_triggers (w_uses ?w ! u)) else {#}"
  have "held ?w = ?f u + (\<Sum>v\<in>{..<length (w_uses ?w)} - {u}. ?f v)"
    unfolding held_def using assms(2) by (intro sum.remove) auto
  then have "?f u \<subseteq># held ?w" by simp
  then show ?thesis
    using assms(1) by (simp add: outstanding_def owed_def stack_credits_def committed_def mset_le_add)
qed

text \<open>A counter that something will still decrement is there and has not triggered.\<close>

lemma outstanding_untriggered:
  assumes "reaches E g" and "e \<notin> release_events (cf_world g)" and "e \<in># outstanding g"
  shows "e < length (w_events (cf_world g))" and "\<not> ev_triggered (w_events (cf_world g) ! e)"
    and "ev_count (w_events (cf_world g) ! e) = of_nat (count (outstanding g) e)"
  using reaches_balanced [OF assms(1,2)] assms(3) by (auto simp: balanced_event_def split: if_splits)

text \<open>
  C1. The books balance. In every configuration that a disciplined program reaches, a join counter that
  is not the release event of a publication has triggered only when no decrement of it is left
  anywhere and its queue is empty; until then at least one decrement is still to come and the count is
  exactly their number. So a counter never triggers early, and none waits for a decrement that nobody
  will make.
\<close>

theorem counters_balanced:
  assumes "reaches E g" and "e < length (w_events (cf_world g))" and "e \<notin> release_events (cf_world g)"
  shows "let ev = w_events (cf_world g) ! e; n = count (outstanding g) e
    in if ev_triggered ev then n = 0 \<and> ev_actions ev = []
       else 0 < n \<and> ev_count ev = of_nat n"
  using reaches_balanced [OF assms(1,3)] assms(2)
  by (auto simp: balanced_event_def Let_def not_in_iff simp flip: count_greater_zero_iff)

theorem counters_balanced_witness:
  "\<exists>g. reaches sample_env g \<and> 0 < count (outstanding g) shutdown_counter
     \<and> ev_count (w_events (cf_world g) ! shutdown_counter) = of_nat (count (outstanding g) shutdown_counter)"
proof -
  have "holds (\<lambda>g. shutdown_counter < length (w_events (cf_world g))
      \<and> shutdown_counter \<notin> release_events (cf_world g)
      \<and> \<not> ev_triggered (w_events (cf_world g) ! shutdown_counter)) (sample_run 10)"
    by code_simp
  then obtain g where r: "reaches sample_env g" and e: "shutdown_counter < length (w_events (cf_world g))"
    "shutdown_counter \<notin> release_events (cf_world g)"
    "\<not> ev_triggered (w_events (cf_world g) ! shutdown_counter)"
    by (rule sample_run_reaches) auto
  from counters_balanced [OF r e(1,2)] e(3) r show ?thesis by (auto simp: Let_def)
qed

text \<open>
  C2. What a use will release is not ready before: as long as a use is registered, none of the events
  that its release will decrement (its out flow, its anti-out flow, and its anti-in flow if the use does
  not depend on it) has triggered. So no successor in the chain of flows runs before the release.
\<close>

theorem registered_use_not_ready:
  assumes "reaches E g" and "u \<in> w_registered (cf_world g)" and "u < length (w_uses (cf_world g))"
    and "e \<in> set (released_triggers (w_uses (cf_world g) ! u))"
  shows "\<not> is_triggered e (cf_world g)"
proof -
  have "flows_plain (cf_world g)" using reaches_good [OF assms(1)] by (simp add: good_flows_def)
  with assms(3,4) released_flow_events have "e \<notin> release_events (cf_world g)"
    unfolding flows_plain_def plain_event_def by (meson nth_mem)
  moreover have "e \<in># outstanding g"
    using mset_subset_eqD [OF outstanding_held [OF assms(2,3)]] assms(4) by simp
  ultimately show ?thesis using outstanding_untriggered(2) [OF assms(1)] by (simp add: is_triggered_def)
qed

theorem registered_use_not_ready_witness:
  "\<exists>g. reaches sample_env g \<and> wk_running (w_workers (cf_world g) ! 0) \<noteq> None \<and> \<not> is_triggered 2 (cf_world g)"
proof -
  have "holds (\<lambda>g. 0 \<in> w_registered (cf_world g) \<and> 0 < length (w_uses (cf_world g))
      \<and> 2 \<in> set (released_triggers (w_uses (cf_world g) ! 0)) \<and> wk_running (w_workers (cf_world g) ! 0) \<noteq> None)
      (sample_run 17)"
    by code_simp
  then obtain g where "reaches sample_env g" "0 \<in> w_registered (cf_world g)" "0 < length (w_uses (cf_world g))"
    "2 \<in> set (released_triggers (w_uses (cf_world g) ! 0))" "wk_running (w_workers (cf_world g) ! 0) \<noteq> None"
    by (rule sample_run_reaches) auto
  with registered_use_not_ready [of sample_env g 0 2] show ?thesis by blast
qed

section \<open>Releases\<close>

text \<open>
  The releases of uses that the backend will make: those that are next on a stack, those of the
  publications and reductions whose action waits for an event or runs, and those of the collectives
  whose completion is still to run.
\<close>

fun releases_of :: "cmd \<Rightarrow> nat multiset" where
  "releases_of (CRelease u) = {#u#}"
| "releases_of (CAction a) = claim_action a"
| "releases_of (CAttach e a) = claim_action a"
| "releases_of _ = {#}"

definition releases_to_come :: "'d config \<Rightarrow> nat multiset" where
  "releases_to_come g =
     all_claims (cf_world g) (all_todo releases_of (cf_stacks g)) (all_todo done_cmd (cf_stacks g))"

lemma sum_list_mset_mono:
  "(\<And>x. (f x :: nat multiset) \<subseteq># h x) \<Longrightarrow> sum_list (map f xs) \<subseteq># sum_list (map h xs)"
  by (induction xs) (auto intro: subset_mset.add_mono)

lemma releases_are_claims: "releases_to_come g \<subseteq># stack_claims g"
proof -
  have "releases_of c \<subseteq># claim_cmd c" for c by (cases c) simp_all
  then have "all_todo releases_of (cf_stacks g) \<subseteq># all_todo claim_cmd (cf_stacks g)"
    by (intro sum_list_mset_mono)
  then show ?thesis by (simp add: releases_to_come_def stack_claims_def all_claims_def)
qed

lemma release_pending:
  assumes "CRelease u \<in> set cs" and "cs \<in> set (cf_stacks g)"
  shows "0 < count (releases_to_come g) u"
proof -
  have "releases_of (CRelease u) \<subseteq># all_todo releases_of (cf_stacks g)" by (rule all_todo_member [OF assms])
  then have "u \<in># releases_to_come g" by (simp add: releases_to_come_def all_claims_def)
  then show ?thesis by simp
qed

text \<open>
  C8. No use is released twice: of all the releases that the backend is still to make, on the stacks of
  all threads, in the queues of events and at the completion of collectives, at most one is of the same
  use, and none is of a use that is not registered, as one is that has been released.
\<close>

theorem no_double_release:
  assumes "reaches E g"
  shows "count (releases_to_come g) u \<le> (if u \<in> w_registered (cf_world g) then 1 else 0)"
proof -
  have "claimed (cf_world g) (all_todo claim_cmd (cf_stacks g)) (all_todo done_cmd (cf_stacks g))"
    using reaches_inv [OF assms] by (simp add: backend_inv_def)
  then have "count (stack_claims g) u \<le> (if u \<in> w_registered (cf_world g) then 1 else 0)"
    by (simp add: claimed_def stack_claims_def)
  with mset_subset_eq_count [OF releases_are_claims, of g u] show ?thesis by simp
qed

text \<open>The reduction of a collection has just run: the releases of its two uses are the next commands.\<close>

theorem no_double_release_witness:
  "\<exists>g. reaches sample_env g \<and> take 2 (cf_stacks g ! 0) = [CRelease 0, CRelease 1]
     \<and> count (releases_to_come g) 0 = 1 \<and> count (releases_to_come g) 1 = 1"
proof -
  let ?run = "region_run sample_env (replicate 13 0) 1 [collection_use, reduced_use] [sample_handle] reduce_body"
  have "holds (\<lambda>g. 0 < length (cf_stacks g) \<and> take 2 (cf_stacks g ! 0) = [CRelease 0, CRelease 1]) ?run"
    by code_simp
  then obtain g :: "nat config" where run: "?run = Some g"
    and g: "0 < length (cf_stacks g) \<and> take 2 (cf_stacks g ! 0) = [CRelease 0, CRelease 1]"
    by (rule holdsE)
  note r = region_run_reaches [OF run]
  have "CRelease 0 \<in> set (cf_stacks g ! 0)" "CRelease 1 \<in> set (cf_stacks g ! 0)"
    using g by (metis in_set_takeD list.set_intros)+
  then have "0 < count (releases_to_come g) 0" "0 < count (releases_to_come g) 1"
    using release_pending g by (metis nth_mem)+
  moreover have "count (releases_to_come g) v \<le> 1" for v
    using no_double_release [OF r, of v] by (simp split: if_splits)
  ultimately have "count (releases_to_come g) 0 = 1" "count (releases_to_come g) 1 = 1"
    by (simp_all add: le_antisym Suc_leI)
  with r g show ?thesis by blast
qed

section \<open>Shutdown\<close>

text \<open>What belongs to a task that has been registered and has not finished.\<close>

fun task_op :: "ready_op \<Rightarrow> bool" where
  "task_op (ReadyTaskOperation t) = True"
| "task_op _ = False"

fun task_action :: "action \<Rightarrow> bool" where
  "task_action (EnqueueAction op) = task_op op"
| "task_action _ = False"

fun task_cmd :: "cmd \<Rightarrow> bool" where
  "task_cmd (CAction a) = task_action a"
| "task_cmd (CAttach e a) = task_action a"
| "task_cmd (CEnqueueOrRun p op i allow) = task_op op"
| "task_cmd (CStackRun op) = task_op op"
| "task_cmd (CRun op) = task_op op"
| "task_cmd (CTaskFinished old) = True"
| "task_cmd (CCreateTasks name ts i) = True"
| "task_cmd _ = False"

lemma task_credits:
  "task_op op \<Longrightarrow> shutdown_counter \<in># credit_op op"
  "task_action a \<Longrightarrow> shutdown_counter \<in># credit_action a"
  "task_cmd c \<Longrightarrow> shutdown_counter \<in># credit_cmd c"
proof -
  show op: "shutdown_counter \<in># credit_op op" if "task_op op" for op using that by (cases op) auto
  show ac: "shutdown_counter \<in># credit_action a" if "task_action a" for a using that op by (cases a) auto
  show "shutdown_counter \<in># credit_cmd c" if "task_cmd c" using that op ac by (cases c) auto
qed

definition no_task_left :: "'d config \<Rightarrow> bool" where
  "no_task_left g \<longleftrightarrow>
     (\<forall>wk\<in>set (w_workers (cf_world g)). \<forall>op\<in>set (wk_ready wk). \<not> task_op op)
     \<and> (\<forall>ev\<in>set (w_events (cf_world g)). \<forall>a\<in>set (ev_actions ev). \<not> task_action a)
     \<and> (\<forall>cs\<in>set (cf_stacks g). \<forall>c\<in>set cs. \<not> task_cmd c)"

lemma triggered_no_task_left:
  assumes "reaches E g" and "is_triggered shutdown_counter (cf_world g)"
  shows "no_task_left g"
proof -
  have "shutdown_counter \<notin> release_events (cf_world g)"
    using reaches_good [OF assms(1)] by (simp add: plain_event_def)
  then have none: "shutdown_counter \<notin># outstanding g"
    using outstanding_untriggered(2) [OF assms(1)] assms(2) by (auto simp: is_triggered_def)
  show ?thesis
    unfolding no_task_left_def
    using none task_credits mset_subset_eqD outstanding_ready outstanding_action outstanding_cmd by metis
qed

text \<open>
  C3. The runtime shuts down last: once the shutdown counter has triggered, which is what tells the
  workers to stop, no task is queued on a worker, waits for an event, runs, or is still being
  registered, on any thread, alone or in a collection.
\<close>

theorem shutdown_complete:
  assumes "reaches E g" and "is_triggered shutdown_counter (cf_world g)"
  shows "(\<forall>wk\<in>set (w_workers (cf_world g)). \<forall>op\<in>set (wk_ready wk). \<not> task_op op)
    \<and> (\<forall>ev\<in>set (w_events (cf_world g)). \<forall>a\<in>set (ev_actions ev). \<not> task_action a)
    \<and> (\<forall>cs\<in>set (cf_stacks g). \<forall>c\<in>set cs. \<not> task_cmd c)"
  using triggered_no_task_left [OF assms] unfolding no_task_left_def .

theorem shutdown_complete_witness:
  "\<exists>g. reaches sample_env g \<and> is_triggered shutdown_counter (cf_world g)
     \<and> (\<forall>cs\<in>set (cf_stacks g). \<forall>c\<in>set cs. \<not> task_cmd c)"
proof -
  have "holds (\<lambda>g. is_triggered shutdown_counter (cf_world g)) (sample_run 21)" by code_simp
  then obtain g where "reaches sample_env g" "is_triggered shutdown_counter (cf_world g)"
    by (rule sample_run_reaches)
  with shutdown_complete [of sample_env g] show ?thesis by blast
qed

section \<open>No lost wake-up\<close>

fun idle_cmd :: "cmd \<Rightarrow> bool" where
  "idle_cmd CLoop = True"
| "idle_cmd CDorment = True"
| "idle_cmd (CJoin i) = True"
| "idle_cmd _ = False"

lemma idle_no_credit: "idle_cmd c \<Longrightarrow> credit_cmd c = {#}"
  by (cases c) auto

lemma sum_list_memberE: "x \<in># sum_list (map f xs) \<Longrightarrow> \<exists>y\<in>set xs. x \<in># f y"
  by (induction xs) auto

lemma committed_reason:
  assumes "e \<in># committed w"
  shows "(\<exists>u\<in>w_registered w. u < length (w_uses w) \<and> e \<in> set (released_triggers (w_uses w ! u)))
    \<or> (\<exists>en. (en, None) \<in> set (w_entries w) \<and> fetching_join_counter en = e)
    \<or> (\<exists>ip iv. (ip, iv) \<in> set (w_invocations w) \<and> invocation_ready_event ip = e
         \<and> length (iv_input_uses iv) < iv_size iv)"
proof -
  from assms consider "e \<in># held w" | "e \<in># unpublished w" | "e \<in># reserved_counts w"
    by (auto simp: committed_def)
  then show ?thesis
  proof cases
    case 1
    then obtain u where "u < length (w_uses w)"
        "e \<in># (if u \<in> w_registered w then mset (released_triggers (w_uses w ! u)) else {#})"
      by (auto simp: held_def set_mset_sum)
    then show ?thesis by (cases "u \<in> w_registered w") auto
  next
    case 2
    then show ?thesis by (auto simp: unpublished_def dest!: sum_list_memberE split: if_splits)
  next
    case 3
    then obtain ip iv where "(ip, iv) \<in> set (w_invocations w)"
        "e \<in># replicate_mset (2 * iv_size iv - 2 * length (iv_input_uses iv)) (invocation_ready_event ip)"
      by (auto simp: reserved_counts_def dest!: sum_list_memberE)
    then have "invocation_ready_event ip = e" "length (iv_input_uses iv) < iv_size iv"
      by (auto simp: in_replicate_mset split: if_splits)
    with \<open>(ip, iv) \<in> set (w_invocations w)\<close> show ?thesis by blast
  qed
qed

text \<open>
  C7. No wake-up is lost: when every thread idles in its loop or joins and no operation is queued on a
  worker, an event that has not triggered (and is not a release event) is waiting for something that is
  really missing: a use that holds it is still registered, its publication or a contribution to its
  collective has not come, or the action that will decrement it waits in the queue of another event,
  which is a release event or has not triggered either. Without one of these the counter has triggered.
\<close>

theorem waiting_has_a_reason:
  assumes "reaches E g" and "\<forall>cs\<in>set (cf_stacks g). list_all idle_cmd cs"
    and "\<forall>wk\<in>set (w_workers (cf_world g)). wk_ready wk = []"
    and "e < length (w_events (cf_world g))" and "e \<notin> release_events (cf_world g)"
    and "\<not> ev_triggered (w_events (cf_world g) ! e)"
  shows "(\<exists>u\<in>w_registered (cf_world g). u < length (w_uses (cf_world g))
        \<and> e \<in> set (released_triggers (w_uses (cf_world g) ! u)))
    \<or> (\<exists>en. (en, None) \<in> set (w_entries (cf_world g)) \<and> fetching_join_counter en = e)
    \<or> (\<exists>ip iv. (ip, iv) \<in> set (w_invocations (cf_world g)) \<and> invocation_ready_event ip = e
         \<and> length (iv_input_uses iv) < iv_size iv)
    \<or> (\<exists>e' a. e' < length (w_events (cf_world g)) \<and> a \<in> set (ev_actions (w_events (cf_world g) ! e'))
         \<and> e \<in># credit_action a
         \<and> (e' \<in> release_events (cf_world g) \<or> \<not> ev_triggered (w_events (cf_world g) ! e')))"
proof -
  let ?w = "cf_world g"
  have none: "sum_list (map (\<lambda>wk. sum_list (map credit_op (wk_ready wk))) wks) = {#}"
    if "\<forall>wk\<in>set wks. wk_ready wk = []" for wks
    using that by (induction wks) auto
  have "all_todo credit_cmd (cf_stacks g) = {#}"
    using assms(2) idle_no_credit by (auto intro!: all_todo_zero simp: list_all_iff)
  moreover have "sum_list (map (\<lambda>wk. sum_list (map credit_op (wk_ready wk))) (w_workers ?w)) = {#}"
    using assms(3) by (simp add: none)
  ultimately have o: "outstanding g = sum_list (map (\<lambda>ev. sum_list (map credit_action (ev_actions ev))) (w_events ?w)) + committed ?w"
    by (simp add: outstanding_def owed_def waiting_def stack_credits_def)
  have "e \<in># outstanding g"
    using reaches_balanced [OF assms(1,5)] assms(4,6) by (auto simp: balanced_event_def)
  then consider "e \<in># committed ?w"
    | ev a where "ev \<in> set (w_events ?w)" "a \<in> set (ev_actions ev)" "e \<in># credit_action a"
    unfolding o by (auto dest!: sum_list_memberE)
  then show ?thesis
  proof cases
    case 1
    from committed_reason [OF this] show ?thesis by blast
  next
    case 2
    then obtain e' where e': "e' < length (w_events ?w)" "ev = w_events ?w ! e'" by (auto simp: in_set_conv_nth)
    have "e' \<in> release_events ?w \<or> \<not> ev_triggered (w_events ?w ! e')"
      using reaches_balanced [OF assms(1), of e'] e' 2(2) by (auto simp: balanced_event_def split: if_splits)
    with e' 2 show ?thesis by blast
  qed
qed

theorem waiting_has_a_reason_witness:
  "\<exists>g. reaches sample_env g \<and> (\<forall>cs\<in>set (cf_stacks g). list_all idle_cmd cs)
     \<and> \<not> ev_triggered (w_events (cf_world g) ! 2)
     \<and> (\<exists>u\<in>w_registered (cf_world g). 2 \<in> set (released_triggers (w_uses (cf_world g) ! u)))"
proof -
  let ?run = "region_run sample_env (replicate 12 0) 1 [sample_use] [sample_handle] [RegisterUse 0]"
  have "holds (\<lambda>g. (\<forall>cs\<in>set (cf_stacks g). list_all idle_cmd cs)
      \<and> (\<forall>wk\<in>set (w_workers (cf_world g)). wk_ready wk = []) \<and> 2 < length (w_events (cf_world g))
      \<and> 2 \<notin> release_events (cf_world g) \<and> \<not> ev_triggered (w_events (cf_world g) ! 2)
      \<and> w_entries (cf_world g) = [] \<and> w_invocations (cf_world g) = []
      \<and> (\<forall>ev\<in>set (w_events (cf_world g)). ev_actions ev = [])) ?run"
    by code_simp
  then obtain g where run: "?run = Some g" and g: "\<forall>cs\<in>set (cf_stacks g). list_all idle_cmd cs"
      "\<forall>wk\<in>set (w_workers (cf_world g)). wk_ready wk = []" "2 < length (w_events (cf_world g))"
      "2 \<notin> release_events (cf_world g)" "\<not> ev_triggered (w_events (cf_world g) ! 2)"
      "w_entries (cf_world g) = []" "w_invocations (cf_world g) = []"
      "\<forall>ev\<in>set (w_events (cf_world g)). ev_actions ev = []"
    by (auto simp: holds_def split: option.splits)
  from waiting_has_a_reason [OF region_run_reaches [OF run] g(1-5)] g(6-8)
  have "\<exists>u\<in>w_registered (cf_world g). 2 \<in> set (released_triggers (w_uses (cf_world g) ! u))"
    using nth_mem [of _ "w_events (cf_world g)"] by auto
  with g(1,5) region_run_reaches [OF run] show ?thesis by blast
qed

end
