(* ===== verification/Progress.thy ===== *)
theory Progress
  imports Work Safety
begin

text \<open>
  Runs end: the backend can only do the work that it was given, after which every thread does nothing
  but look for operations that are not there.
\<close>

section \<open>The work of a configuration\<close>

definition work_left :: "'d config \<Rightarrow> nat" where
  "work_left g =
     (let n = length (w_workers (cf_world g))
      in all_todo (cmd_work n) (cf_stacks g) + waiting (op_work n) (action_work n) (cf_world g)
         + inputs_work (cf_world g) (all_todo done_cmd (cf_stacks g)))"

lemma disciplined_uses_work:
  assumes "backend_inv g" and "disciplined E g g'"
  shows "work_left g' < work_left g \<or> g' = g"
proof -
  from assms(2) obtain i c cs drawn cs' w' where i: "i < length (cf_stacks g)" and top: "cf_stacks g ! i = c # cs"
    and s: "step E i drawn c (cf_world g) = Inr (cs', w')"
    and g': "g' = \<lparr>cf_stacks = (cf_stacks g)[i := cs' @ cs], cf_world = w'\<rparr>"
    by (auto elim!: disciplinedE)
  let ?w = "cf_world g" and ?n = "crew (cf_world g)" and ?rest = "(cf_stacks g)[i := cs]"
  have pop: "all_todo f (cf_stacks g) = all_todo f ?rest + f c" for f :: "cmd \<Rightarrow> nat"
    using all_todo_pop [OF i top] .
  have pop': "all_todo f (cf_stacks g) = all_todo f ?rest + f c" for f :: "cmd \<Rightarrow> nat multiset"
    using all_todo_pop [OF i top] .
  have push: "all_todo f ((cf_stacks g)[i := cs' @ cs]) = all_todo f ?rest + todo f cs'" for f :: "cmd \<Rightarrow> nat"
    using i by (rule all_todo_push)
  have push': "all_todo f ((cf_stacks g)[i := cs' @ cs]) = all_todo f ?rest + todo f cs'" for f :: "cmd \<Rightarrow> nat multiset"
    using i by (rule all_todo_push)
  have same_crew: "crew w' = crew ?w" using step_settings [OF s] by simp
  have inv: "claimed ?w (all_todo claim_cmd ?rest + claim_cmd c) (all_todo done_cmd ?rest + done_cmd c)" "tables_ok ?w"
    using assms(1) by (simp_all add: backend_inv_def wf_world_def pop' del: all_todo_pop)
  from step_work [OF s refl inv]
  show ?thesis
  proof
    assume "queued ?n w' + stacked ?n cs' + inputs_work w' (all_todo done_cmd ?rest + todo done_cmd cs')
      < queued ?n ?w + cmd_work ?n c + inputs_work ?w (all_todo done_cmd ?rest + done_cmd c)"
    then have "work_left g' < work_left g"
      unfolding work_left_def Let_def g' config.simps push push' same_crew pop [of "cmd_work ?n"] pop' [of done_cmd] by linarith
    then show ?thesis ..
  next
    assume "c = CLoop \<and> cs' = [CLoop] \<and> w' = ?w"
    with top i have "g' = g" by (simp add: g' list_update_same_conv)
    then show ?thesis ..
  qed
qed

text \<open>Runs that count the steps which change the configuration.\<close>

inductive busy_run :: "'d env \<Rightarrow> nat \<Rightarrow> 'd config \<Rightarrow> 'd config \<Rightarrow> bool" for E where
  stop: "busy_run E 0 g g"
| idle: "disciplined E g g \<Longrightarrow> busy_run E n g g' \<Longrightarrow> busy_run E n g g'"
| busy: "disciplined E g g1 \<Longrightarrow> g1 \<noteq> g \<Longrightarrow> busy_run E n g1 g' \<Longrightarrow> busy_run E (Suc n) g g'"

text \<open>
  C6. The work is finite: in a run from any reachable configuration, however the threads are scheduled
  and whatever the work stealing draws, the number of steps that change anything is at most the work
  that the configuration holds, and each such step uses some of it up.
\<close>

theorem busy_steps_bounded:
  assumes "reaches E g" and "busy_run E n g g'"
  shows "n + work_left g' \<le> work_left g"
  using assms(2,1)
proof (induction rule: busy_run.induct)
  case (busy g g1 n g')
  have "work_left g1 < work_left g"
    using disciplined_uses_work [OF reaches_inv [OF busy.prems] busy.hyps(1)] busy.hyps(2) by blast
  moreover have "n + work_left g' \<le> work_left g1" using busy.IH reaches_step [OF busy.prems busy.hyps(1)] .
  ultimately show ?case by simp
qed simp_all

theorem busy_steps_bounded_witness:
  "\<exists>g g'. reaches sample_env g \<and> busy_run sample_env 1 g g' \<and> work_left g' < work_left g"
proof -
  have "holds (\<lambda>g. holds (\<lambda>g'. cf_stacks g' \<noteq> cf_stacks g) (check_step sample_env 0 g)) (sample_run 7)"
    by code_simp
  then obtain g where r: "reaches sample_env g"
    and h: "holds (\<lambda>g'. cf_stacks g' \<noteq> cf_stacks g) (check_step sample_env 0 g)"
    by (rule sample_run_reaches)
  then obtain g' where "check_step sample_env 0 g = Some g'" "cf_stacks g' \<noteq> cf_stacks g"
    by (auto simp: holds_def split: option.splits)
  then have b: "busy_run sample_env (Suc 0) g g'"
    by (intro busy_run.busy [OF check_step_disciplined _ busy_run.stop]) auto
  from busy_steps_bounded [OF r b] have "work_left g' < work_left g" by simp
  with r b show ?thesis unfolding One_nat_def by blast
qed

text \<open>What a run of steps and pauses comes to.\<close>

lemma run_reaches:
  assumes "reaches E (run 0)" and "\<forall>k. run (Suc k) = run k \<or> disciplined E (run k) (run (Suc k))"
  shows "reaches E (run k)"
proof (induction k)
  case (Suc k)
  with assms(2) show ?case by (metis reaches_step)
qed (rule assms(1))

lemma run_settles:
  assumes "reaches E (run 0)" and "\<forall>k. run (Suc k) = run k \<or> disciplined E (run k) (run (Suc k))"
  shows "\<exists>k. \<forall>i\<ge>k. run i = run k"
proof -
  have dec: "work_left (run (Suc i)) < work_left (run i) \<or> run (Suc i) = run i" for i
    using disciplined_uses_work [OF reaches_inv [OF run_reaches [OF assms]]] assms(2) by blast
  have "\<exists>k. \<forall>i. work_left (run k) \<le> work_left (run i)"
    using ex_has_least_nat [of "\<lambda>_. True" 0 "\<lambda>i. work_left (run i)"] by auto
  then obtain k where k: "work_left (run k) \<le> work_left (run i)" for i by auto
  have "run (k + j) = run k" for j
  proof (induction j)
    case (Suc j)
    with dec [of "k + j"] k [of "Suc (k + j)"] show ?case by auto
  qed simp
  then show ?thesis by (metis le_Suc_ex)
qed

end
