(* ===== verification/Registration.thy ===== *)
theory Registration
  imports Progress
begin

text \<open>
  What the cases of registration establish: which flows are ready at once, which ones wait and for
  what, and which data stand behind them.
\<close>

section \<open>In flows\<close>

lemma update_use_at [simp]: "u < length (w_uses w) \<Longrightarrow> w_uses (update_use u f w) ! u = f (w_uses w ! u)"
  by (simp add: update_use_def)

text \<open>
  C17. The first version of a variable is ready at once: registering a use whose in flow is \<open>Initial\<close>
  makes a new flow that has already triggered, and the block behind it owns new storage with a
  default-constructed object of the use's handle. It fails only when \<open>::operator new\<close> does, and then with
  the same error.
\<close>

theorem initial_in_flow_ready:
  assumes "u < length (w_uses w)" and "rel_description (us_in_rel (w_uses w ! u)) = Initial"
    and "related_flow (us_in_rel (w_uses w ! u)) = None"
  shows "case op_new (metadata_size (en_ser E (us_handle (w_uses w ! u)))) (w_mem w) of
      Inl e \<Rightarrow> register_in E u w = Inl e
    | Inr (a, m) \<Rightarrow> (\<exists>f cb w'. register_in E u w = Inr ([CRegisterAntiIn u], w') \<and> us_in (w_uses w' ! u) = Some f
        \<and> is_triggered (flow_trigger f) w' \<and> flow_trigger f = length (w_events w)
        \<and> control_block_of f w' = Inr cb \<and> cb_handle cb = Some (us_handle (w_uses w ! u))
        \<and> cb_data cb = Some a \<and> cb_owns cb
        \<and> mem_read (cb_data cb) (w_mem w') = Inr (default_value (en_ser E (us_handle (w_uses w ! u)))))"
  using assms
  by (auto split: sum.split simp: register_in_def use_at_def Let_def in_flow_initial_def in_flow_of_cblk_def make_cblk_def make_flow_def
      new_event_def decrement_count_def make_ready_def nth_append set_in_flow_def is_triggered_def control_block_of_def
      flow_at_def cblk_of_handle_def cblk_default_def mem_construct_def mem_read_def update_use_def)

theorem initial_in_flow_ready_witness:
  "\<exists>f w'. register_in sample_env 0 (region_runtime 1 [sample_use] [sample_handle]) = Inr ([CRegisterAntiIn 0], w')
     \<and> us_in (w_uses w' ! 0) = Some f \<and> is_triggered (flow_trigger f) w'"
proof -
  let ?w = "region_runtime 1 [sample_use] [sample_handle] :: nat world"
  have "0 < length (w_uses ?w)" "rel_description (us_in_rel (w_uses ?w ! 0)) = Initial"
    "related_flow (us_in_rel (w_uses ?w ! 0)) = None"
    by (simp_all add: region_runtime_def sample_use_def plain_rel_def)
  moreover have "\<exists>am. op_new (metadata_size (en_ser sample_env (us_handle (w_uses ?w ! 0)))) (w_mem ?w) = Inr am"
    by (simp add: region_runtime_def sample_use_def sample_env_def op_new_def mem_empty_def)
  ultimately show ?thesis using initial_in_flow_ready [of 0 ?w sample_env] by (auto split: prod.splits)
qed

text \<open>
  C18. The next version of a variable waits: registering a use whose out flow is \<open>Next\<close> of its in flow
  makes a new flow with the same control block, whose event counts the one decrement that the release
  will make, has not triggered and has nothing queued; no event that was there before changes.
\<close>

theorem next_out_flow_waits:
  assumes "u < length (w_uses w)" and "rel_description (us_out_rel (w_uses w ! u)) = Next"
    and "use_corresponding_in_flow_as_related (us_out_rel (w_uses w ! u))"
    and "us_in (w_uses w ! u) = Some r" and "flow_id r < length (w_flows w)"
  shows "\<exists>f w'. register_out u w = Inr ([CRegisterAntiOut u], w') \<and> us_out (w_uses w' ! u) = Some f
    \<and> control_block_of f w' = control_block_of r w
    \<and> w_events w' = w_events w @ [\<lparr>ev_count = 1, ev_triggered = False, ev_actions = []\<rparr>]
    \<and> flow_trigger f = length (w_events w)"
  using assms
  by (auto simp: register_out_def use_at_def out_related_def out_next_def flow_at_def make_flow_def new_event_def
      set_out_flow_def control_block_of_def update_use_def nth_append)

theorem next_out_flow_waits_witness:
  "\<exists>w f w'. register_out 0 (w :: nat world) = Inr ([CRegisterAntiOut 0], w') \<and> us_out (w_uses w' ! 0) = Some f
     \<and> \<not> is_triggered (flow_trigger f) w'"
proof -
  have "holds (\<lambda>g. 0 < length (w_uses (cf_world g)) \<and> rel_description (us_out_rel (w_uses (cf_world g) ! 0)) = Next
      \<and> use_corresponding_in_flow_as_related (us_out_rel (w_uses (cf_world g) ! 0))
      \<and> us_in (w_uses (cf_world g) ! 0) = Some (FlowPtr 0 1)
      \<and> flow_id (FlowPtr 0 1) < length (w_flows (cf_world g))) (sample_run 3)"
    by code_simp
  then obtain g :: "nat config" where g: "0 < length (w_uses (cf_world g)) \<and> rel_description (us_out_rel (w_uses (cf_world g) ! 0)) = Next
      \<and> use_corresponding_in_flow_as_related (us_out_rel (w_uses (cf_world g) ! 0))
      \<and> us_in (w_uses (cf_world g) ! 0) = Some (FlowPtr 0 1)
      \<and> flow_id (FlowPtr 0 1) < length (w_flows (cf_world g))"
    by (rule sample_run_reaches) blast
  from next_out_flow_waits [of 0 "cf_world g"] g obtain f w' where "register_out 0 (cf_world g) = Inr ([CRegisterAntiOut 0], w')"
      "us_out (w_uses w' ! 0) = Some f"
      "w_events w' = w_events (cf_world g) @ [\<lparr>ev_count = 1, ev_triggered = False, ev_actions = []\<rparr>]"
      "flow_trigger f = length (w_events (cf_world g))"
    by blast
  moreover from this(3,4) have "\<not> is_triggered (flow_trigger f) w'" by (simp add: is_triggered_def)
  ultimately show ?thesis by blast
qed

section \<open>Elements of collections\<close>

text \<open>
  C19. The flow of an element follows that of its collection: registering a use whose in flow is
  \<open>IndexedLocal\<close> gives it the address of the element at its index, and its flow, which waits, will be
  decremented as soon as the collection's flow is ready: at once if it is, otherwise by the last
  action in the queue of the collection's event.
\<close>

theorem indexed_local_follows_collection:
  assumes "u < length (w_uses w)" and "us_in_rel (w_uses w ! u) = rel" and "rel_description rel = IndexedLocal"
    and "related_flow_deref rel w = Inr r" and "collection_block_of r w = Inr (coll, cb)"
    and "cb_handle cb = Some h" and "cb_data cb = Some a" and "flow_trigger r < length (w_events w)"
  shows "\<exists>f cs w' cb'. register_in E u w = Inr (cs @ [CRegisterAntiIn u], w') \<and> us_in (w_uses w' ! u) = Some f
    \<and> control_block_of f w' = Inr cb' \<and> cb_data cb' = Some (a + unat (of_nat (rel_index rel) * metadata_size (en_ser E h)))
    \<and> cb_parent cb' = Some coll \<and> cb_index cb' = rel_index rel \<and> \<not> cb_owns cb'
    \<and> flow_trigger f = length (w_events w)
    \<and> w_events w' ! flow_trigger f = \<lparr>ev_count = 1, ev_triggered = False, ev_actions = []\<rparr>
    \<and> (if is_triggered (flow_trigger r) w then cs = [CAction (DecrementAction (flow_trigger f))]
       else cs = [] \<and> ev_actions (w_events w' ! flow_trigger r)
              = ev_actions (w_events w ! flow_trigger r) @ [DecrementAction (flow_trigger f)])"
  using assms
  by (auto simp: register_in_def use_at_def Let_def in_flow_indexed_local_def data_for_index_def make_cblk_def
      make_flow_def new_event_def set_in_flow_def is_triggered_def control_block_of_def flow_at_def update_use_def
      cblk_for_index_def cblk_default_def attach_decrement_of_def attach_action_def attach_or_do_action_def nth_append)

theorem indexed_local_follows_collection_witness:
  "\<exists>w f w' cb'. register_in sample_env 1 w = Inr ([CAction (DecrementAction (flow_trigger f)), CRegisterAntiIn 1], w')
     \<and> control_block_of f w' = Inr cb' \<and> cb_data cb' = Some 17"
proof -
  let ?run = "region_run sample_env [0, 0] 1 [collection_use, element_use] [sample_handle] [RegisterUse 0]"
  have "holds (\<lambda>g. 1 < length (w_uses (cf_world g)) \<and> rel_description (us_in_rel (w_uses (cf_world g) ! 1)) = IndexedLocal
      \<and> rel_index (us_in_rel (w_uses (cf_world g) ! 1)) = 2
      \<and> related_flow_deref (us_in_rel (w_uses (cf_world g) ! 1)) (cf_world g) = Inr (FlowPtr 0 1)
      \<and> (case collection_block_of (FlowPtr 0 1) (cf_world g) of Inl e \<Rightarrow> False
          | Inr (coll, cb) \<Rightarrow> cb_handle cb = Some 0 \<and> cb_data cb = Some 1)
      \<and> flow_trigger (FlowPtr 0 1) < length (w_events (cf_world g)) \<and> is_triggered 1 (cf_world g)) ?run"
    by code_simp
  then obtain g :: "nat config" where g: "1 < length (w_uses (cf_world g))" "rel_description (us_in_rel (w_uses (cf_world g) ! 1)) = IndexedLocal"
      "rel_index (us_in_rel (w_uses (cf_world g) ! 1)) = 2"
      "related_flow_deref (us_in_rel (w_uses (cf_world g) ! 1)) (cf_world g) = Inr (FlowPtr 0 1)"
      "flow_trigger (FlowPtr 0 1) < length (w_events (cf_world g))" "is_triggered 1 (cf_world g)"
    and c: "case collection_block_of (FlowPtr 0 1) (cf_world g) of Inl e \<Rightarrow> False
          | Inr (coll, cb) \<Rightarrow> cb_handle cb = Some 0 \<and> cb_data cb = Some 1"
    by (rule holdsE) blast
  from c obtain coll cb where cb: "collection_block_of (FlowPtr 0 1) (cf_world g) = Inr (coll, cb)"
      "cb_handle cb = Some 0" "cb_data cb = Some 1"
    by (auto split: sum.splits)
  have m: "metadata_size (en_ser sample_env 0) = 8" by (simp add: sample_env_def)
  from indexed_local_follows_collection [OF g(1) refl g(2,4) cb g(5), of sample_env]
  obtain f cs w' cb' where i: "register_in sample_env 1 (cf_world g) = Inr (cs @ [CRegisterAntiIn 1], w')"
      and b: "control_block_of f w' = Inr cb'" "cb_data cb' = Some (1 + unat (of_nat (rel_index (us_in_rel (w_uses (cf_world g) ! 1))) * 8 :: u64))"
      and "if is_triggered (flow_trigger (FlowPtr 0 1)) (cf_world g) then cs = [CAction (DecrementAction (flow_trigger f))]
        else cs = [] \<and> ev_actions (w_events w' ! flow_trigger (FlowPtr 0 1))
          = ev_actions (w_events (cf_world g) ! flow_trigger (FlowPtr 0 1)) @ [DecrementAction (flow_trigger f)]"
    unfolding m by blast
  with g(6) have "cs = [CAction (DecrementAction (flow_trigger f))]" by simp
  with i have "register_in sample_env 1 (cf_world g) = Inr ([CAction (DecrementAction (flow_trigger f)), CRegisterAntiIn 1], w')"
    by simp
  moreover from b g(3) have "cb_data cb' = Some 17" by simp
  ultimately show ?thesis using b(1) by blast
qed

end
