(* ===== verification/Exchange.thy ===== *)
theory Exchange
  imports Registration
begin

text \<open>
  What publication and the collectives do to the data: a fetch gets a copy of what was published, an
  allreduce gives every use the reduced data, and a reduced collection is the fold over its elements.
\<close>

section \<open>Publication\<close>

text \<open>The handle whose serialization copies a block: its own one, or that of its collection.\<close>

definition copied_with :: "cblk \<Rightarrow> nat \<Rightarrow> 'd world \<Rightarrow> bool" where
  "copied_with cb h w \<longleftrightarrow>
     (case cb_handle cb of
        Some h' \<Rightarrow> h' = h
      | None \<Rightarrow> (case cb_parent cb of None \<Rightarrow> False | Some p \<Rightarrow> parent_handle_of w p = Some h))"

text \<open>
  C14. Published data arrive: when the copy of a publication has run, for which only storage may be
  lacking, the flow of the entry's source has
  a block of its own with the published value, packed and unpacked once; the action of a fetching flow
  that runs after it points that flow at this copy and then makes it ready. The publisher's own data
  are neither moved nor shared, so it may change them afterwards.
\<close>

theorem publish_then_fetch:
  assumes "c < length (w_cblks w)" and "w_cblks w ! c = cb" and "copied_with cb h w"
    and "mem_wf (w_mem w)" and "mem_read (cb_data cb) (w_mem w) = Inr v"
    and "entry_id en < length (w_entries w)" and "w_entries w ! entry_id en = (en, Some source)"
    and "flow_id source < length (w_flows w)"
    and "flow_at f w = Inr fl" and "flow_id f \<noteq> flow_id source"
    and "fl_control_block fl = Some c'" and "c' < length (w_cblks w)"
  shows "case op_new (metadata_size (en_ser E h)) (w_mem w) of
      Inl e \<Rightarrow> run_publish_copy E en source c u w = Inl e
    | Inr (a, m) \<Rightarrow> (\<exists>w1 w2 cb2. run_publish_copy E en source c u w
            = Inr ([CDecrement (flow_trigger source), CDecrement (fetching_join_counter en), CRelease u], w1)
        \<and> run_fetched en f w1 = Inr ([CDecrement (flow_trigger f)], w2)
        \<and> control_block_of f w2 = Inr cb2 \<and> cb_data cb2 = Some a \<and> cb_data cb2 \<noteq> cb_data cb
        \<and> mem_read (cb_data cb2) (w_mem w2) = Inr (unpack (en_ser E h) (pack (en_ser E h) v))
        \<and> mem_read (cb_data cb) (w_mem w2) = Inr v)"
proof -
  let ?a = "mem_fresh (w_mem w)"
  let ?new = "op_new (metadata_size (en_ser E h)) (w_mem w)"
  let ?v = "unpack (en_ser E h) (pack (en_ser E h) v)"
  obtain p where p: "cb_data cb = Some p" "mem_objects (w_mem w) p = Some v"
    using assms(5) by (auto simp: mem_read_def)
  then have less: "p < ?a" using assms(4) by (metis mem_wf_def not_le option.distinct(1))
  have handle: "(case cb_handle cb of Some h \<Rightarrow> Inr (Some h)
      | None \<Rightarrow> bindE (deref ParentMissing (cb_parent cb)) (\<lambda>p. Inr (parent_handle_of w p))) = Inr (Some h)"
    using assms(3) by (auto simp: copied_with_def split: option.splits)
  have copies: "\<exists>m. cblk_copy (en_ser E) (parent_handle_of w) cb (w_mem w)
      = Inr (cblk_default\<lparr>cb_handle := Some h, cb_data := Some ?a, cb_owns := True\<rparr>, m)
      \<and> mem_objects m = (mem_objects (w_mem w))(?a \<mapsto> ?v)" if new: "?new = Inr (a, m1)" for a m1
  proof -
    from new have "a = ?a" "mem_objects m1 = mem_objects (w_mem w)" by (simp_all add: op_new_eq_Inr)
    with p show ?thesis
      unfolding cblk_copy_def handle by (simp add: new copy_data_def mem_read_def mem_construct_def)
  qed
  have fid: "flow_id f < length (w_flows w)" "fl = w_flows w ! flow_id f"
    using assms(9) by (auto simp: flow_at_def)
  show ?thesis
  proof (cases ?new)
    case (Inl e)
    then have "cblk_copy (en_ser E) (parent_handle_of w) cb (w_mem w) = Inl e"
      unfolding cblk_copy_def handle by simp
    with Inl assms(1,2) show ?thesis by (simp add: run_publish_copy_def)
  next
    case (Inr am)
    then obtain m1 where new: "?new = Inr (?a, m1)" by (cases am) (simp add: op_new_eq_Inr)
    from copies [OF new] obtain m where m: "cblk_copy (en_ser E) (parent_handle_of w) cb (w_mem w)
      = Inr (cblk_default\<lparr>cb_handle := Some h, cb_data := Some ?a, cb_owns := True\<rparr>, m)"
      "mem_objects m = (mem_objects (w_mem w))(?a \<mapsto> ?v)" by blast
    then show ?thesis
      using new assms(1,2,6-8,10-12) p less fid
      by (auto simp: run_publish_copy_def run_fetched_def make_cblk_def flow_at_def control_block_of_def mem_read_def
          nth_append cblk_default_def)
  qed
qed

definition fetch_world :: "nat world" where
  "fetch_world = (region_runtime 1 [] [sample_handle])\<lparr>
     w_flows := [\<lparr>fl_control_block = None, fl_parent_token = None\<rparr>, \<lparr>fl_control_block = Some 1, fl_parent_token = None\<rparr>],
     w_cblks := [cblk_default\<lparr>cb_handle := Some 0, cb_data := Some 1, cb_owns := True\<rparr>, cblk_for_fetch (Some 0) None],
     w_entries := [(EntryPtr 0 1 2, Some (FlowPtr 0 3))],
     w_mem := \<lparr>mem_fresh = 2, mem_blocks = (\<lambda>_. None)(1 \<mapsto> 1), mem_objects = (\<lambda>_. None)(1 \<mapsto> 5)\<rparr>\<rparr>"

theorem publish_then_fetch_witness:
  "\<exists>w1 w2 cb2. run_publish_copy sample_env (EntryPtr 0 1 2) (FlowPtr 0 3) 0 0 fetch_world
       = Inr ([CDecrement 3, CDecrement 1, CRelease 0], w1)
     \<and> run_fetched (EntryPtr 0 1 2) (FlowPtr 1 4) w1 = Inr ([CDecrement 4], w2)
     \<and> control_block_of (FlowPtr 1 4) w2 = Inr cb2 \<and> mem_read (cb_data cb2) (w_mem w2) = Inr 5"
proof -
  have side: "0 < length (w_cblks fetch_world)" "copied_with (w_cblks fetch_world ! 0) 0 fetch_world"
      "mem_wf (w_mem fetch_world)" "mem_read (cb_data (w_cblks fetch_world ! 0)) (w_mem fetch_world) = Inr 5"
      "entry_id (EntryPtr 0 1 2) < length (w_entries fetch_world)"
      "w_entries fetch_world ! entry_id (EntryPtr 0 1 2) = (EntryPtr 0 1 2, Some (FlowPtr 0 3))"
      "flow_id (FlowPtr 0 3) < length (w_flows fetch_world)"
      "flow_at (FlowPtr 1 4) fetch_world = Inr \<lparr>fl_control_block = Some 1, fl_parent_token = None\<rparr>"
      "flow_id (FlowPtr 1 4) \<noteq> flow_id (FlowPtr 0 3)"
      "fl_control_block \<lparr>fl_control_block = Some 1, fl_parent_token = None\<rparr> = Some 1" "1 < length (w_cblks fetch_world)"
    by (simp_all add: fetch_world_def copied_with_def mem_wf_def mem_read_def flow_at_def)
  have "unpack (en_ser sample_env 0) (pack (en_ser sample_env 0) 5) = (5 :: nat)" by (simp add: sample_env_def)
  moreover have "\<exists>a m. op_new (metadata_size (en_ser sample_env 0)) (w_mem fetch_world) = Inr (a, m)"
    by (simp add: op_new_def sample_env_def fetch_world_def)
  ultimately show ?thesis
    using publish_then_fetch [OF side(1) refl side(2-), of sample_env 0]
    unfolding flow_ptr.sel entry_ptr.sel by auto
qed

section \<open>Allreduce\<close>

lemma collect_map: "(\<And>x. x \<in> set xs \<Longrightarrow> f x = Inr (g x)) \<Longrightarrow> collect f xs = Inr (map g xs)"
  by (induction xs) auto

lemma unpack_into_all:
  "(\<And>a. a \<in> set as \<Longrightarrow> mem_objects m a \<noteq> None) \<Longrightarrow>
     unpack_into v (map Some as) m = Inr (m\<lparr>mem_objects := (\<lambda>x. if x \<in> set as then Some v else mem_objects m x)\<rparr>)"
proof (induction as arbitrary: m)
  case (Cons a as)
  let ?m1 = "m\<lparr>mem_objects := (mem_objects m)(a := None)\<rparr>"
  obtain y where "mem_objects m a = Some y" using Cons.prems [of a] by auto
  then have "mem_destroy (Some a) m = Inr ?m1" by (simp add: mem_destroy_def)
  moreover have "mem_objects (mem_construct a v ?m1) b \<noteq> None" if "b \<in> set as" for b
    using Cons.prems that by (auto simp: mem_construct_def)
  from Cons.IH [OF this] have "unpack_into v (map Some as) (mem_construct a v ?m1)
      = Inr ((mem_construct a v ?m1)\<lparr>mem_objects := (\<lambda>x. if x \<in> set as then Some v else mem_objects (mem_construct a v ?m1) x)\<rparr>)" .
  ultimately show ?case by (auto simp: mem_construct_def fun_eq_iff intro!: memory.equality)
qed simp

text \<open>
  C15. The completion of an allreduce broadcasts: when it runs, the data of the first contribution, into
  which all others have been reduced, are packed once and unpacked over the data of every other
  contribution; the first keeps its value, nothing else in memory changes, and every contributed use is
  then released, in the order of the contributions, before the invocation is erased.
\<close>

theorem allreduce_broadcasts:
  assumes "lock_invocation ip w = Inr iv" and "iv_input_uses iv = u0 # us"
    and "u0 < length (w_uses w)" and "\<forall>u\<in>set (u0 # us). data_of_use u w = Inr (Some (addr u))"
    and "\<forall>u\<in>set (u0 # us). mem_objects (w_mem w) (addr u) \<noteq> None" and "inj_on addr (set (u0 # us))" and "u0 \<notin> set us"
    and "mem_objects (w_mem w) (addr u0) = Some v" and "s = en_ser E (us_handle (w_uses w ! u0))"
  shows "\<exists>w'. run_allreduce_done E ip t tag w = Inr (map CRelease (u0 # us) @ [CEraseCollective t tag ip], w')
    \<and> (\<forall>u\<in>set us. mem_read (Some (addr u)) (w_mem w') = Inr (unpack s (pack s v)))
    \<and> mem_read (Some (addr u0)) (w_mem w') = Inr v
    \<and> (\<forall>a. a \<notin> addr ` set us \<longrightarrow> mem_objects (w_mem w') a = mem_objects (w_mem w) a)"
proof -
  let ?v = "unpack s (pack s v)"
  let ?m = "(w_mem w)\<lparr>mem_objects := (\<lambda>x. if x \<in> addr ` set us then Some ?v else mem_objects (w_mem w) x)\<rparr>"
  have others: "collect (\<lambda>u. data_of_use u w) us = Inr (map (\<lambda>u. Some (addr u)) us)"
    using assms(4) by (intro collect_map) simp
  have "unpack_into ?v (map Some (map addr us)) (w_mem w) = Inr ?m"
    using assms(5) unpack_into_all [of "map addr us" "w_mem w" ?v] by (auto simp: fun_eq_iff)
  then have m: "unpack_into ?v (map (\<lambda>u. Some (addr u)) us) (w_mem w) = Inr ?m" by (simp add: comp_def)
  have iv: "first_input ip w = Inr u0"
    using assms(1,2) by (auto simp: lock_invocation_def first_input_def)
  have "addr u0 \<notin> addr ` set us" using assms(6,7) by (auto dest: inj_onD)
  then show ?thesis
    using assms others m iv
    by (auto simp: run_allreduce_done_def use_at_def mem_read_def Let_def)
qed

definition collective_world :: "nat world" where
  "collective_world = (region_runtime 1 [sample_use\<lparr>us_in := Some (FlowPtr 0 1)\<rparr>, sample_use\<lparr>us_in := Some (FlowPtr 1 2)\<rparr>] [sample_handle])\<lparr>
     w_flows := [\<lparr>fl_control_block = Some 0, fl_parent_token = None\<rparr>, \<lparr>fl_control_block = Some 1, fl_parent_token = None\<rparr>],
     w_cblks := [cblk_default\<lparr>cb_handle := Some 0, cb_data := Some 1, cb_n_indices := Some 3\<rparr>,
       cblk_default\<lparr>cb_handle := Some 0, cb_data := Some 30\<rparr>],
     w_invocations := [(InvocationPtr 0 3, \<lparr>iv_input_uses = [0, 1], iv_size = 2, iv_owned = True\<rparr>)],
     w_mem := \<lparr>mem_fresh = 40, mem_blocks = (\<lambda>_. None),
       mem_objects = (\<lambda>_. None)(1 \<mapsto> 5, 9 \<mapsto> 6, 17 \<mapsto> 7, 30 \<mapsto> 8)\<rparr>\<rparr>"

lemma collective_world_data: "data_of_use 0 collective_world = Inr (Some 1)" "data_of_use 1 collective_world = Inr (Some 30)"
  by (simp_all add: collective_world_def data_of_use_def in_block_of_def in_flow_of_def use_at_def flow_at_def
      data_of_block_def region_runtime_def cblk_default_def)

theorem allreduce_broadcasts_witness:
  "\<exists>w'. run_allreduce_done sample_env (InvocationPtr 0 3) 0 EmptyKey collective_world
       = Inr ([CRelease 0, CRelease 1, CEraseCollective 0 EmptyKey (InvocationPtr 0 3)], w')
     \<and> mem_read (Some 30) (w_mem w') = Inr 5"
proof -
  let ?iv = "\<lparr>iv_input_uses = [0, 1], iv_size = 2, iv_owned = True\<rparr>"
  have l: "lock_invocation (InvocationPtr 0 3) collective_world = Inr ?iv"
    by (simp add: lock_invocation_def invocation_at_def collective_world_def)
  have v: "mem_objects (w_mem collective_world) 1 = Some 5" "mem_objects (w_mem collective_world) 30 = Some 8"
    by (simp_all add: collective_world_def)
  have u: "0 < length (w_uses collective_world)" by (simp add: collective_world_def region_runtime_def)
  from allreduce_broadcasts [OF l, of 0 "[1]" "\<lambda>u. if u = 0 then 1 else 30" 5 _ sample_env 0 EmptyKey, OF _ u _ _ _ _ _ refl]
  show ?thesis
    using v collective_world_data by (auto simp: sample_env_def)
qed

section \<open>Reduction of a collection\<close>

text \<open>The reference: one operation after the other, into the accumulated value.\<close>

definition reduce_values :: "'d env \<Rightarrow> nat \<Rightarrow> nat \<Rightarrow> (nat \<Rightarrow> 'd) \<Rightarrow> nat list \<Rightarrow> 'd \<Rightarrow> 'd" where
  "reduce_values E op h val is acc = fold (\<lambda>i acc. en_reduce E op (val i) acc 0 (en_n_elements E h (val i))) is acc"

definition element_address :: "'d env \<Rightarrow> cblk \<Rightarrow> nat \<Rightarrow> ptr" where
  "element_address E cb i = the (cb_data cb) + unat (of_nat i * metadata_size (en_ser E (the (cb_handle cb))))"

lemma reduce_elements_fold:
  assumes "cb_handle cb = Some hc" and "cb_data cb = Some base"
  shows "\<forall>i\<in>set is. mem_objects m (element_address E cb i) = Some (val i) \<and> element_address E cb i \<noteq> a
    \<Longrightarrow> mem_objects m a = Some acc
    \<Longrightarrow> reduce_elements E op h cb (Some a) is m
      = Inr (m\<lparr>mem_objects := (mem_objects m)(a \<mapsto> reduce_values E op h val is acc)\<rparr>)"
proof (induction "is" arbitrary: m acc)
  case Nil
  then show ?case by (auto simp: reduce_values_def fun_eq_iff intro!: memory.equality)
next
  case (Cons i "is")
  let ?acc = "en_reduce E op (val i) acc 0 (en_n_elements E h (val i))"
  let ?m = "mem_construct a ?acc m"
  have "data_for_index (en_ser E) cb (of_nat i) = Inr (element_address E cb i)"
    using assms by (simp add: data_for_index_def element_address_def)
  moreover have "reduce_into E op h (Some (element_address E cb i)) (Some a) m = Inr ?m"
    using Cons.prems by (simp add: reduce_into_def mem_read_def)
  moreover have "reduce_elements E op h cb (Some a) is ?m
      = Inr (?m\<lparr>mem_objects := (mem_objects ?m)(a \<mapsto> reduce_values E op h val is ?acc)\<rparr>)"
    using Cons.prems by (intro Cons.IH) (auto simp: mem_construct_def)
  ultimately show ?case by (simp add: reduce_values_def mem_construct_def fun_upd_def cong: if_cong)
qed

text \<open>
  C16. Reducing a collection is a fold: the action that reduces the \<open>n\<close> elements of a collection leaves in
  the output use what folding the operation over the elements from the second on, in the order of the
  indices, makes of a copy of the first one; nothing else in memory changes, and both uses are released.
\<close>

theorem reduce_collection_is_fold:
  assumes "ui < length (w_uses w)" and "uo < length (w_uses w)" and "data_of_use uo w = Inr (Some a)"
    and "mem_objects (w_mem w) a \<noteq> None" and "c < length (w_cblks w)" and "w_cblks w ! c = cb"
    and "cb_n_indices cb = Some k" and "0 < k" and "cb_handle cb = Some hc" and "cb_data cb = Some base" and "0 < n"
    and "\<forall>i<n. mem_objects (w_mem w) (element_address E cb i) = Some (val i) \<and> element_address E cb i \<noteq> a"
  shows "let s = en_ser E (us_handle (w_uses w ! uo)) in
    run_reduce_anti_ready E ui uo op n c w = Inr ([CRelease ui, CRelease uo],
      w\<lparr>w_mem := (w_mem w)\<lparr>mem_objects := (mem_objects (w_mem w))
        (a \<mapsto> reduce_values E op (us_handle (w_uses w ! ui)) val [1..<n] (unpack s (pack s (val 0))))\<rparr>\<rparr>)"
proof -
  let ?s = "en_ser E (us_handle (w_uses w ! uo))"
  let ?v = "unpack ?s (pack ?s (val 0))"
  let ?m1 = "(w_mem w)\<lparr>mem_objects := (mem_objects (w_mem w))(a := None)\<rparr>"
  let ?m2 = "mem_construct a ?v ?m1"
  have d: "mem_destroy (Some a) (w_mem w) = Inr ?m1" using assms(4) by (auto simp: mem_destroy_def)
  have first: "data_for_index (en_ser E) cb (of_nat 0) = Inr (element_address E cb 0)"
    using assms(9,10) by (simp add: data_for_index_def element_address_def)
  have copy: "copy_data (en_ser E) (us_handle (w_uses w ! uo)) (Some (element_address E cb 0)) (Some a) ?m1 = Inr (a, ?m2)"
    using assms(11,12) by (simp add: copy_data_def mem_read_def Let_def)
  have "reduce_elements E op (us_handle (w_uses w ! ui)) cb (Some a) [1..<n] ?m2
      = Inr (?m2\<lparr>mem_objects := (mem_objects ?m2)(a \<mapsto> reduce_values E op (us_handle (w_uses w ! ui)) val [1..<n] ?v)\<rparr>)"
    using assms(12) by (intro reduce_elements_fold [OF assms(9,10)]) (auto simp: mem_construct_def)
  then show ?thesis
    using assms(1-3,5-8) d first copy
    by (simp add: run_reduce_anti_ready_def use_at_def Let_def) (simp add: mem_construct_def)
qed

theorem reduce_collection_is_fold_witness:
  "\<exists>w'. run_reduce_anti_ready sample_env 0 1 0 3 0 collective_world = Inr ([CRelease 0, CRelease 1], w')
     \<and> mem_objects (w_mem w') 30 = Some 18"
proof -
  let ?val = "\<lambda>i :: nat. 5 + i"
  have u: "0 < length (w_uses collective_world)" "1 < length (w_uses collective_world)"
    by (simp_all add: collective_world_def region_runtime_def)
  have b: "0 < length (w_cblks collective_world)" "cb_n_indices (w_cblks collective_world ! 0) = Some 3"
    "cb_handle (w_cblks collective_world ! 0) = Some 0" "cb_data (w_cblks collective_world ! 0) = Some 1"
    by (simp_all add: collective_world_def cblk_default_def)
  have o: "mem_objects (w_mem collective_world) 30 \<noteq> None" by (simp add: collective_world_def)
  have e: "\<forall>i<3. mem_objects (w_mem collective_world) (element_address sample_env (w_cblks collective_world ! 0) i) = Some (?val i)
      \<and> element_address sample_env (w_cblks collective_world ! 0) i \<noteq> 30"
    by (simp add: element_address_def b sample_env_def collective_world_def numeral_3_eq_3 All_less_Suc)
  from reduce_collection_is_fold [OF u collective_world_data(2) o b(1) refl b(2) _ b(3,4) _ e, of 0]
  show ?thesis
    by (simp add: reduce_values_def sample_env_def upt_rec)
qed

end
