(* ===== verification/Placement.thy ===== *)
theory Placement
  imports Exchange
begin

text \<open>
  Where operations run: the worker that a task is registered for, the worker that an operation is
  stolen from, and the messages that end the work loops.
\<close>

section \<open>Placement of tasks\<close>

lemma settings_kept: "reaches E g \<Longrightarrow> w_max_depth (cf_world g) = 0"
proof (induction rule: reaches_invariant)
  case (start g)
  then show ?case by (rule starts_world)
next
  case (step g g')
  then obtain i c cs drawn cs' w' where "step E i drawn c (cf_world g) = Inr (cs', w')" "cf_world g' = w'"
    by (auto elim!: disciplinedE)
  with step.IH step_settings show ?case by fastforce
qed

text \<open>
  The worker that a task is placed on is never used: in every reachable configuration,
  \<open>enqueue_or_run\<close> does the same whatever worker it is given and whether or not it is allowed to run the
  operation on the stack, because the depth up to which that is done is 0. So the round robin of
  \<open>register_task_collection\<close> and the data parallel flag of a task have no effect, and an operation is
  queued on the worker whose thread makes its last dependency ready.
\<close>

lemma placement_ignored:
  assumes "reaches E g"
  shows "step E me drawn (CEnqueueOrRun p op worker_id allow) (cf_world g)
    = bindE (worker_at me (cf_world g)) (\<lambda>_.
        attach_action p (EnqueueAction op) ((cf_world g)\<lparr>w_pending_tasks := w_pending_tasks (cf_world g) + 1\<rparr>))"
  using settings_kept [OF assms] by (simp add: step_def enqueue_or_run_def Let_def)

section \<open>Stealing\<close>

lemma sint_small: "- (2 ^ 31) \<le> k \<Longrightarrow> k < 2 ^ 31 \<Longrightarrow> sint (word_of_int k :: 32 word) = k"
  by (simp add: signed_of_int signed_take_bit_int_eq_self)

lemma ready_update_worker:
  assumes "\<And>wk. wk_ready (f wk) = wk_ready wk"
  shows "map wk_ready (w_workers (update_worker i f w)) = map wk_ready (w_workers w)"
  using assms by (cases "i < length (w_workers w)")
    (auto simp: update_worker_def map_update list_update_same_conv list_update_beyond)

text \<open>
  C24. The victim of a steal: when the drawn number and the thief's index add up to an \<open>int\<close>, the index
  of the victim is that of a worker; when they do not, the sum has wrapped and the index is negative or
  0, less than the number of workers below 0, so that \<open>workers[steal_from]\<close> is out of bounds unless that
  index is 0.
\<close>

theorem steal_index:
  assumes "0 \<le> drawn" and "drawn < 2 ^ 31" and "me < n" and "n < 2 ^ 31"
  shows "if drawn + int me < 2 ^ 31
    then 0 \<le> steal_from drawn me n \<and> steal_from drawn me n < int n
    else steal_from drawn me n \<le> 0 \<and> - int n < steal_from drawn me n
      \<and> steal_from drawn me n = - ((2 ^ 32 - (drawn + int me)) mod int n)"
proof -
  let ?s = "drawn + int me"
  have s: "0 \<le> ?s" "?s < 2 ^ 32" using assms by auto
  have n: "0 < int n" using assms(3) by simp
  show ?thesis
  proof (cases "?s < 2 ^ 31")
    case True
    then have "int_add drawn (int me) = ?s"
      unfolding int_add_def using s by (intro sint_small) simp_all
    with s n True show ?thesis by (simp add: steal_from_def c_rem_def)
  next
    case False
    have "sint (word_of_int ?s :: 32 word) = ?s - 2 ^ 32"
    proof -
      have "word_of_int ?s = (word_of_int (?s - 2 ^ 32) :: 32 word)"
        by (simp add: word_of_int_eq_iff take_bit_eq_mod)
      moreover have "sint (word_of_int (?s - 2 ^ 32) :: 32 word) = ?s - 2 ^ 32"
        using s False by (intro sint_small) simp_all
      ultimately show ?thesis by (simp only:)
    qed
    then have i: "int_add drawn (int me) = ?s - 2 ^ 32" by (simp add: int_add_def)
    have "steal_from drawn me n = - ((2 ^ 32 - ?s) mod int n)"
      using s by (simp add: steal_from_def c_rem_def i)
    with False n pos_mod_bound [OF n] pos_mod_sign [OF n] show ?thesis by simp
  qed
qed

theorem steal_index_witness: "steal_from (2 ^ 31 - 1) 1 3 = - 2 \<and> 0 \<le> steal_from 5 1 3 \<and> steal_from 5 1 3 < 3"
  using steal_index [of "2 ^ 31 - 1" 1 3] steal_index [of 5 1 3] by simp

text \<open>
  C22. Only what may be stolen is stolen: an attempt to steal either changes nothing at all, or takes the
  oldest operation of one worker's queue, which is a task or a stealable callable and never a message,
  and leaves every queue but that one as it was.
\<close>

theorem steals_only_stealable:
  assumes "try_to_steal_work E me drawn w = Inr (cs, w')"
  shows "(cs = [] \<and> w' = w)
    \<or> (\<exists>v op rest. v < length (w_workers w) \<and> wk_ready (w_workers w ! v) = op # rest \<and> is_stealable op
        \<and> (\<forall>k. op \<noteq> SpecialMessage k)
        \<and> map wk_ready (w_workers w') = (map wk_ready (w_workers w))[v := rest])"
proof (cases "cs = [] \<and> w' = w")
  case False
  with assms obtain v where "en_stealing E" and v: "v < length (w_workers w)"
      and r: "then_do (run_ignoring_message me (hd (wk_ready (w_workers w ! v)))
        (add_dorment (- 1) (set_ready v (tl (wk_ready (w_workers w ! v))) w))) [CDorment] = Inr (cs, w')"
      and ready: "wk_ready (w_workers w ! v) \<noteq> []" "is_stealable (hd (wk_ready (w_workers w ! v)))"
    by (auto simp: try_to_steal_work_def worker_index_def split: if_splits)
      (cases "wk_ready (w_workers w ! nat (steal_from drawn me (length (w_workers w))))"; force split: if_splits)+
  obtain op rest where op: "wk_ready (w_workers w ! v) = op # rest" using ready(1) by (cases "wk_ready (w_workers w ! v)") auto
  have same: "map wk_ready (w_workers w') = map wk_ready (w_workers w1)" if "run_operation me op w1 = Inr (b, cs1, w')" for w1 b cs1
  proof -
    have "map wk_ready (w_workers w2) = map wk_ready (w_workers w1)" if "setup_data ds w1 = Inr w2" for ds w2
      using setup_data_frame [OF that] by (simp add: same_books_def)
    then show ?thesis
      using that by (auto simp: run_operation_def run_task_def ready_update_worker split: if_splits ready_op.splits message_kind.splits)
  qed
  from r op obtain b cs1 where "run_operation me op (add_dorment (- 1) (set_ready v rest w)) = Inr (b, cs1, w')"
    by (auto simp: then_do_def run_ignoring_message_def)
  from same [OF this] have "map wk_ready (w_workers w') = (map wk_ready (w_workers w))[v := rest]"
    by (simp add: add_dorment_def set_ready_def update_worker_def map_update)
  moreover have "op \<noteq> SpecialMessage k" for k using ready(2) op by auto
  ultimately show ?thesis using v op ready(2) by auto
qed blast

text \<open>A runtime with two workers of which the first has a task, for a thief.\<close>

definition thief_world :: "nat world" where
  "thief_world = (region_runtime 2 [] [])\<lparr>w_workers :=
     [new_worker\<lparr>wk_ready := [ReadyTaskOperation (Task [] False EmptyKey []), SpecialMessage AllTasksDone]\<rparr>, new_worker]\<rparr>"

theorem steals_only_stealable_witness:
  "\<exists>cs w'. try_to_steal_work sample_env 1 1 thief_world = Inr (cs, w') \<and> cs \<noteq> []
     \<and> map wk_ready (w_workers w') = [[SpecialMessage AllTasksDone], []]"
proof -
  have "case try_to_steal_work sample_env 1 1 thief_world of Inl e \<Rightarrow> False | Inr (cs, w') \<Rightarrow> cs \<noteq> []"
    by code_simp
  then obtain cs w' where r: "try_to_steal_work sample_env 1 1 thief_world = Inr (cs, w')" and cs: "cs \<noteq> []"
    by (auto split: sum.splits)
  have w: "length (w_workers thief_world) = 2" by (simp add: thief_world_def)
  from steals_only_stealable [OF r] cs obtain v op rest where v: "v < 2" "wk_ready (w_workers thief_world ! v) = op # rest"
      "map wk_ready (w_workers w') = (map wk_ready (w_workers thief_world))[v := rest]"
    by (auto simp: w)
  have "v = 0" using v(1,2) by (cases "v = 0") (auto simp: thief_world_def new_worker_def less_Suc_eq numeral_2_eq_2)
  with v(2,3) have "map wk_ready (w_workers w') = [[SpecialMessage AllTasksDone], []]"
    by (simp add: thief_world_def new_worker_def)
  with r cs show ?thesis by auto
qed

section \<open>Shutdown messages\<close>

lemma emplace_all_ready:
  assumes "distinct is" and "\<forall>i\<in>set is. i < length (w_workers w)"
  shows "\<exists>w'. emplace_all is op w = Inr w' \<and> w_called w' = w_called w \<and> w_callbacks w' = w_callbacks w \<and> length (w_workers w') = length (w_workers w)
    \<and> (\<forall>i<length (w_workers w). wk_ready (w_workers w' ! i) = wk_ready (w_workers w ! i) @ (if i \<in> set is then [op] else []))"
  using assms
proof (induction "is" arbitrary: w)
  case (Cons j js)
  let ?w1 = "update_worker j (\<lambda>wk. wk\<lparr>wk_ready := wk_ready wk @ [op]\<rparr>) w"
  have e: "emplace_ready j op w = Inr ?w1" using Cons.prems by (simp add: emplace_ready_def worker_at_def)
  have len: "length (w_workers ?w1) = length (w_workers w)"
    and same: "w_called ?w1 = w_called w" "w_callbacks ?w1 = w_callbacks w"
    by (simp_all add: update_worker_def)
  have ready: "wk_ready (w_workers ?w1 ! i) = wk_ready (w_workers w ! i) @ (if i = j then [op] else [])"
    if "i < length (w_workers w)" for i
    using that by (simp add: update_worker_def nth_list_update)
  from Cons.IH [of ?w1] Cons.prems len obtain w' where w': "emplace_all js op ?w1 = Inr w'"
      "w_called w' = w_called ?w1" "w_callbacks w' = w_callbacks ?w1" "length (w_workers w') = length (w_workers ?w1)"
      "\<forall>i<length (w_workers ?w1). wk_ready (w_workers w' ! i) = wk_ready (w_workers ?w1 ! i) @ (if i \<in> set js then [op] else [])"
    by auto
  have "wk_ready (w_workers w' ! i) = wk_ready (w_workers w ! i) @ (if i \<in> set (j # js) then [op] else [])"
    if i: "i < length (w_workers w)" for i
    using w'(5) [rule_format, of i] ready [OF i] i len Cons.prems(1) by auto
  then show ?case using e w'(1-4) len same by simp
qed simp

text \<open>
  C23. Shutdown reaches every worker: the action of a region's shutdown counter never fails when there is
  a worker; it leaves, behind what each worker still has in its queue, one message that all tasks are
  done, before which the first worker gets the operation that joins the others, and calls every
  registered quiescence callback once, in the order of their registration.
\<close>

theorem region_shutdown_messages:
  assumes "w_workers w \<noteq> []"
  shows "\<exists>w'. run_region_shutdown_action w = Inr ([], w') \<and> length (w_workers w') = length (w_workers w)
    \<and> (\<forall>i<length (w_workers w). wk_ready (w_workers w' ! i) = wk_ready (w_workers w ! i)
          @ (if i = 0 then [CallableOperation JoinWorkers False] else []) @ [SpecialMessage AllTasksDone])
    \<and> w_called w' = w_called w @ w_callbacks w"
proof -
  let ?w1 = "update_worker 0 (\<lambda>wk. wk\<lparr>wk_ready := wk_ready wk @ [CallableOperation JoinWorkers False]\<rparr>) w"
  have e: "emplace_ready 0 (CallableOperation JoinWorkers False) w = Inr ?w1"
    using assms by (simp add: emplace_ready_def worker_at_def)
  have len: "length (w_workers ?w1) = length (w_workers w)" and rest: "w_called ?w1 = w_called w" "w_callbacks ?w1 = w_callbacks w"
    by (simp_all add: update_worker_def)
  have ready: "wk_ready (w_workers ?w1 ! i) = wk_ready (w_workers w ! i) @ (if i = 0 then [CallableOperation JoinWorkers False] else [])"
    if "i < length (w_workers w)" for i
    using that by (cases "i = 0") (simp_all add: update_worker_def)
  from emplace_all_ready [of "[0..<length (w_workers ?w1)]" ?w1 "SpecialMessage AllTasksDone"]
  obtain w2 where w2: "emplace_all [0..<length (w_workers ?w1)] (SpecialMessage AllTasksDone) ?w1 = Inr w2"
      "w_called w2 = w_called ?w1" "w_callbacks w2 = w_callbacks ?w1" "length (w_workers w2) = length (w_workers ?w1)"
      "\<forall>i<length (w_workers ?w1). wk_ready (w_workers w2 ! i) = wk_ready (w_workers ?w1 ! i) @ [SpecialMessage AllTasksDone]"
    by auto
  have "wk_ready (w_workers w2 ! i) = wk_ready (w_workers w ! i)
      @ (if i = 0 then [CallableOperation JoinWorkers False] else []) @ [SpecialMessage AllTasksDone]"
    if i: "i < length (w_workers w)" for i
    using w2(5) [rule_format, of i] ready [OF i] i len by simp
  then show ?thesis using e w2(1-4) len rest by (simp add: run_region_shutdown_action_def)
qed

theorem region_shutdown_messages_witness:
  "\<exists>w'. run_region_shutdown_action (register_quiescence_callback 7 thief_world) = Inr ([], w') \<and> w_called w' = [7]"
  using region_shutdown_messages [of "register_quiescence_callback 7 thief_world"]
  by (auto simp: thief_world_def register_quiescence_callback_def region_runtime_def)

end
