(* ===== verification/Arguments.thy ===== *)
theory Arguments
  imports Prelude
begin

text \<open>
  \<open>src/src/parse_arguments.cpp\<close>, without and with Kokkos, and the use
  \<open>src/src/runtime_instance.hpp\<close> makes of it. \<open>std::atoi\<close> is written out as the standard describes
  it: leading white space, an optional sign, then decimal digits up to the first other character;
  a value outside \<open>int\<close> is undefined behaviour there and an error here. The result goes through
  \<open>int\<close> into a \<open>size_t\<close>, so a negative number wraps.
\<close>

section \<open>\<open>atoi\<close>\<close>

definition is_space :: "char \<Rightarrow> bool" where
  "is_space c \<longleftrightarrow> c \<in> set [CHR '' '', CHR 0x09, CHR 0x0A, CHR 0x0B, CHR 0x0C, CHR 0x0D]"

definition digit_of :: "char \<Rightarrow> nat option" where
  "digit_of c = (let n = (of_char c :: nat) in if 48 \<le> n \<and> n \<le> 57 then Some (n - 48) else None)"

fun read_digits :: "nat \<Rightarrow> string \<Rightarrow> nat" where
  "read_digits acc [] = acc"
| "read_digits acc (c # cs) =
     (case digit_of c of None \<Rightarrow> acc | Some d \<Rightarrow> read_digits (10 * acc + d) cs)"

definition atoi :: "string \<Rightarrow> rt_error + int" where
  "atoi s =
     (let t = dropWhile is_space s;
          v = (case t of
                 [] \<Rightarrow> 0
               | c # cs \<Rightarrow>
                   if c = CHR ''-'' then - int (read_digits 0 cs)
                   else if c = CHR ''+'' then int (read_digits 0 cs)
                   else int (read_digits 0 t))
      in if - (2 ^ 31) \<le> v \<and> v < 2 ^ 31 then Inr v else Inl NumberOutOfRange)"

section \<open>\<open>parse_args\<close>\<close>

record options =
  n_threads :: u64
  lookahead :: u64

definition n_threads_default :: u64 where "n_threads_default = 8"

definition lookahead_default :: u64 where "lookahead_default = 20"

text \<open>
  The loop over \<open>argv[1..]\<close>, with the rest of the arguments instead of an index. \<open>argv[++spot]\<close>
  consumes the argument after the flag.
\<close>

fun parse_loop :: "options \<Rightarrow> string list \<Rightarrow> bool \<Rightarrow> string list \<Rightarrow> rt_error + (options \<times> string list)" where
  "parse_loop opts rv app [] = Inr (opts, rv)"
| "parse_loop opts rv app (arg # rest) =
     (if app then parse_loop opts (rv @ [arg]) app rest
      else if arg = ''--backend-n-workers'' \<or> arg = ''--ranks'' then
        (case rest of
           [] \<Rightarrow> Inl ArgumentMissing
         | v # rest' \<Rightarrow>
             bindE (atoi v) (\<lambda>n. parse_loop (opts\<lparr>n_threads := word_of_int n\<rparr>) rv app rest'))
      else if arg = ''--backend-lookahead'' then
        (case rest of
           [] \<Rightarrow> Inl ArgumentMissing
         | v # rest' \<Rightarrow>
             bindE (atoi v) (\<lambda>n. parse_loop (opts\<lparr>lookahead := word_of_int n\<rparr>) rv app rest'))
      else if arg = ''--app-argv'' \<or> arg = ''--'' then parse_loop opts rv True rest
      else parse_loop opts (rv @ [arg]) app rest)"

definition parse_args :: "string list \<Rightarrow> rt_error + (options \<times> string list)" where
  "parse_args argv =
     (case argv of
        [] \<Rightarrow> Inl NullPointer
      | prog # rest \<Rightarrow>
          parse_loop \<lparr>n_threads = n_threads_default, lookahead = lookahead_default\<rparr> [prog] False rest)"

text \<open>
  \<open>initialize_runtime_arguments\<close>: the remaining arguments replace \<open>argv\<close>, after an assertion that
  there are not more of them than before; the options become the defaults of later runtimes.
\<close>

definition initialize_runtime_arguments :: "string list \<Rightarrow> rt_error + (options \<times> string list)" where
  "initialize_runtime_arguments argv =
     bindE (parse_args argv) (\<lambda>(opts, args).
     bindE (require SizeMismatch (length args \<le> length argv)) (\<lambda>_. Inr (opts, args)))"

section \<open>The build with Kokkos\<close>

text \<open>
  One more option, and an assertion on the result. \<open>&&\<close> evaluates the remainder when the first
  operand holds, also for zero partitions.
\<close>

record kokkos_options = options +
  kokkos_partitions :: u64

definition kokkos_partitions_default :: u64 where "kokkos_partitions_default = 4"

fun parse_loop_kokkos ::
    "kokkos_options \<Rightarrow> string list \<Rightarrow> bool \<Rightarrow> string list \<Rightarrow> rt_error + (kokkos_options \<times> string list)" where
  "parse_loop_kokkos opts rv app [] = Inr (opts, rv)"
| "parse_loop_kokkos opts rv app (arg # rest) =
     (if app then parse_loop_kokkos opts (rv @ [arg]) app rest
      else if arg = ''--backend-n-workers'' \<or> arg = ''--ranks'' then
        (case rest of
           [] \<Rightarrow> Inl ArgumentMissing
         | v # rest' \<Rightarrow>
             bindE (atoi v) (\<lambda>n. parse_loop_kokkos (opts\<lparr>n_threads := word_of_int n\<rparr>) rv app rest'))
      else if arg = ''--backend-kokkos-partitions'' then
        (case rest of
           [] \<Rightarrow> Inl ArgumentMissing
         | v # rest' \<Rightarrow>
             bindE (atoi v) (\<lambda>n. parse_loop_kokkos (opts\<lparr>kokkos_partitions := word_of_int n\<rparr>) rv app rest'))
      else if arg = ''--backend-lookahead'' then
        (case rest of
           [] \<Rightarrow> Inl ArgumentMissing
         | v # rest' \<Rightarrow>
             bindE (atoi v) (\<lambda>n. parse_loop_kokkos (opts\<lparr>lookahead := word_of_int n\<rparr>) rv app rest'))
      else if arg = ''--app-argv'' \<or> arg = ''--'' then parse_loop_kokkos opts rv True rest
      else parse_loop_kokkos opts (rv @ [arg]) app rest)"

definition check_partitions :: "kokkos_options \<Rightarrow> rt_error + unit" where
  "check_partitions opts =
     bindE (require UnevenPartitions (kokkos_partitions opts \<le> n_threads opts)) (\<lambda>_.
     bindE (require DivisionByZero (kokkos_partitions opts \<noteq> 0)) (\<lambda>_.
       require UnevenPartitions (n_threads opts mod kokkos_partitions opts = 0)))"

definition parse_args_kokkos :: "string list \<Rightarrow> rt_error + (kokkos_options \<times> string list)" where
  "parse_args_kokkos argv =
     (case argv of
        [] \<Rightarrow> Inl NullPointer
      | prog # rest \<Rightarrow>
          bindE (parse_loop_kokkos
            \<lparr>n_threads = n_threads_default, lookahead = lookahead_default,
             kokkos_partitions = kokkos_partitions_default\<rparr> [prog] False rest) (\<lambda>(opts, rv).
          bindE (check_partitions opts) (\<lambda>_. Inr (opts, rv))))"

section \<open>Printing and reading numbers\<close>

text \<open>Decimal notation, to state what a command line means.\<close>

definition digit_char :: "nat \<Rightarrow> char" where
  "digit_char d = char_of (48 + d)"

fun print_nat :: "nat \<Rightarrow> string" where
  "print_nat n = (if n < 10 then [digit_char n] else print_nat (n div 10) @ [digit_char (n mod 10)])"

declare print_nat.simps [simp del]

lemma digit_of_digit_char [simp]: "d < 10 \<Longrightarrow> digit_of (digit_char d) = Some d"
  by (simp add: digit_of_def digit_char_def Let_def of_char_of)

lemma read_digits_snoc:
  "(\<forall>c\<in>set s. digit_of c \<noteq> None) \<Longrightarrow> digit_of c = Some d
    \<Longrightarrow> read_digits acc (s @ [c]) = 10 * read_digits acc s + d"
  by (induction s arbitrary: acc) auto

lemma print_nat_digits: "\<forall>c\<in>set (print_nat n). digit_of c \<noteq> None"
proof (induction n rule: print_nat.induct)
  case (1 n)
  then show ?case by (subst print_nat.simps) (auto simp: Ball_def split: if_splits)
qed

lemma read_print_nat: "read_digits 0 (print_nat n) = n"
proof (induction n rule: print_nat.induct)
  case (1 n)
  show ?case
  proof (cases "n < 10")
    case True
    then show ?thesis by (subst print_nat.simps) simp
  next
    case False
    with 1 have "read_digits 0 (print_nat (n div 10)) = n div 10" by simp
    with False show ?thesis
      by (subst print_nat.simps) (simp add: read_digits_snoc [OF print_nat_digits])
  qed
qed

lemma print_nat_Cons: "\<exists>c cs d. print_nat n = c # cs \<and> digit_of c = Some d"
proof -
  have "print_nat n \<noteq> []" by (subst print_nat.simps) simp
  then obtain c cs where "print_nat n = c # cs" by (cases "print_nat n") auto
  with print_nat_digits [of n] show ?thesis by auto
qed

lemma digit_not_space: "digit_of c = Some d \<Longrightarrow> \<not> is_space c \<and> c \<noteq> CHR ''-'' \<and> c \<noteq> CHR ''+''"
  by (auto simp: digit_of_def is_space_def Let_def split: if_splits)

lemma atoi_print_nat: "n < 2 ^ 31 \<Longrightarrow> atoi (print_nat n) = Inr (int n)"
proof -
  assume n: "n < 2 ^ 31"
  obtain c cs d where p: "print_nat n = c # cs" and d: "digit_of c = Some d"
    using print_nat_Cons by blast
  have r: "read_digits 0 (c # cs) = n" using read_print_nat [of n] p by simp
  from digit_not_space [OF d] p have "dropWhile is_space (print_nat n) = c # cs" by simp
  with r n digit_not_space [OF d] show ?thesis by (simp add: atoi_def Let_def del: read_digits.simps)
qed

section \<open>What a command line means\<close>

datatype item = Workers bool nat | Lookahead nat | Plain string

fun render :: "item \<Rightarrow> string list" where
  "render (Workers long n) =
     [if long then ''--backend-n-workers'' else ''--ranks'', print_nat n]"
| "render (Lookahead n) = [''--backend-lookahead'', print_nat n]"
| "render (Plain s) = [s]"

definition reserved :: "string set" where
  "reserved = {''--backend-n-workers'', ''--ranks'', ''--backend-lookahead'', ''--app-argv'', ''--''}"

fun proper :: "item \<Rightarrow> bool" where
  "proper (Workers long n) \<longleftrightarrow> n < 2 ^ 31"
| "proper (Lookahead n) \<longleftrightarrow> n < 2 ^ 31"
| "proper (Plain s) \<longleftrightarrow> s \<notin> reserved"

fun set_option :: "item \<Rightarrow> options \<Rightarrow> options" where
  "set_option (Workers long n) opts = opts\<lparr>n_threads := word_of_nat n\<rparr>"
| "set_option (Lookahead n) opts = opts\<lparr>lookahead := word_of_nat n\<rparr>"
| "set_option (Plain s) opts = opts"

fun plain :: "item \<Rightarrow> string list" where
  "plain (Plain s) = [s]"
| "plain _ = []"

lemma parse_loop_app: "parse_loop opts rv True args = Inr (opts, rv @ args)"
  by (induction args arbitrary: rv) simp_all

lemma parse_loop_render:
  "list_all proper items \<Longrightarrow>
    parse_loop opts rv False (concat (map render items) @ rest)
      = parse_loop (fold set_option items opts) (rv @ concat (map plain items)) False rest"
proof (induction items arbitrary: opts rv)
  case Nil
  then show ?case by simp
next
  case (Cons i items)
  then show ?case
    by (cases i) (auto simp: atoi_print_nat reserved_def)
qed

section \<open>Properties\<close>

text \<open>
  C30. Reading back a command line: for any sequence of worker counts, lookaheads and other
  arguments, followed by \<open>--\<close> (or \<open>--app-argv\<close>) and any arguments at all, the options are the last
  ones given (the defaults where none was given), and the arguments passed on to the application
  are the program's name, the other arguments and everything after the separator, in order.
\<close>

theorem parse_args_roundtrip:
  assumes "list_all proper items" and "sep = ''--'' \<or> sep = ''--app-argv''"
  shows "parse_args (prog # concat (map render items) @ sep # app)
    = Inr (fold set_option items \<lparr>n_threads = 8, lookahead = 20\<rparr>,
           prog # concat (map plain items) @ app)"
  using assms
  by (auto simp: parse_args_def parse_loop_render parse_loop_app n_threads_default_def
      lookahead_default_def)

theorem parse_args_roundtrip_witness:
  "parse_args [''app'', ''--ranks'', print_nat 4, ''x'', ''--'', ''--ranks'']
    = Inr (\<lparr>n_threads = 4, lookahead = 20\<rparr>, [''app'', ''x'', ''--ranks''])"
  using parse_args_roundtrip [of "[Workers False 4, Plain ''x'']" "''--''" "''app''" "[''--ranks'']"]
  by (simp add: reserved_def)

lemma parse_loop_length:
  "parse_loop opts rv app args = Inr (opts', rv') \<Longrightarrow> length rv' \<le> length rv + length args"
proof (induction opts rv app args rule: parse_loop.induct)
  case (1 opts rv app)
  then show ?case by simp
next
  case (2 opts rv app arg rest)
  show ?case
  proof (cases rest)
    case Nil
    with 2 show ?thesis by (auto split: if_split_asm)
  next
    case (Cons v rest')
    show ?thesis
    proof (cases "\<not> app \<and> (arg = ''--backend-n-workers'' \<or> arg = ''--ranks'')")
      case True
      with "2.prems" Cons obtain n where "atoi v = Inr n"
        and "parse_loop (opts\<lparr>n_threads := word_of_int n\<rparr>) rv app rest' = Inr (opts', rv')"
        by auto
      with "2.IH"(2) [of v rest' n] True Cons show ?thesis by simp
    next
      case not_workers: False
      show ?thesis
      proof (cases "\<not> app \<and> arg = ''--backend-lookahead''")
        case True
        with "2.prems" Cons obtain n where "atoi v = Inr n"
          and "parse_loop (opts\<lparr>lookahead := word_of_int n\<rparr>) rv app rest' = Inr (opts', rv')"
          by auto
        with "2.IH"(3) [of v rest' n] True Cons show ?thesis by simp
      next
        case False
        consider (app) app | (sep) "\<not> app" "arg = ''--app-argv'' \<or> arg = ''--''"
          | (plain) "\<not> app" "\<not> (arg = ''--app-argv'' \<or> arg = ''--'')" by blast
        then show ?thesis
        proof cases
          case app
          with "2.prems" have "parse_loop opts (rv @ [arg]) app rest = Inr (opts', rv')" by simp
          with "2.IH"(1) [OF app] show ?thesis by simp
        next
          case sep
          with False not_workers "2.prems" have "parse_loop opts rv True rest = Inr (opts', rv')"
            by auto
          with "2.IH"(4) sep False not_workers show ?thesis by simp
        next
          case plain
          with False not_workers "2.prems"
          have "parse_loop opts (rv @ [arg]) app rest = Inr (opts', rv')" by simp
          with "2.IH"(5) plain False not_workers show ?thesis by simp
        qed
      qed
    qed
  qed
qed

text \<open>
  The assertion of \<open>initialize_runtime_arguments\<close> never fails: whatever the command line, the
  function returns what \<open>parse_args\<close> returned, so \<open>argv\<close> is never written past its end.
\<close>

lemma initialize_arguments_in_bounds:
  "initialize_runtime_arguments argv = parse_args argv"
proof (cases "parse_args argv")
  case (Inl e)
  then show ?thesis by (simp add: initialize_runtime_arguments_def)
next
  case (Inr r)
  obtain opts args where r: "r = (opts, args)" by (cases r)
  have "length args \<le> length argv"
    using Inr r parse_loop_length by (fastforce simp: parse_args_def split: list.splits)
  with Inr r show ?thesis by (simp add: initialize_runtime_arguments_def)
qed

text \<open>A negative count is accepted and wraps to a huge number of workers.\<close>

lemma parse_args_negative_workers:
  "parse_args [''app'', ''--ranks'', ''-1''] = Inr (\<lparr>n_threads = - 1, lookahead = 20\<rparr>, [''app''])"
  by (simp add: parse_args_def n_threads_default_def lookahead_default_def atoi_def is_space_def
      digit_of_def Let_def)

text \<open>
  With Kokkos: the number of partitions is positive and divides that of the workers whenever the
  arguments are accepted. The default of four partitions rejects a smaller number of workers, and
  zero partitions divide by zero inside the assertion that should reject them.
\<close>

lemma parse_args_kokkos_even:
  assumes "parse_args_kokkos argv = Inr (opts, rv)"
  shows "0 < unat (kokkos_partitions opts)" and "unat (kokkos_partitions opts) \<le> unat (n_threads opts)"
    and "unat (n_threads opts) mod unat (kokkos_partitions opts) = 0"
proof -
  from assms have le: "kokkos_partitions opts \<le> n_threads opts" and pos: "kokkos_partitions opts \<noteq> 0"
    and "n_threads opts mod kokkos_partitions opts = 0"
    by (auto simp: parse_args_kokkos_def check_partitions_def split: list.splits)
  from this(3) have "unat (n_threads opts mod kokkos_partitions opts) = 0" by simp
  then show "unat (n_threads opts) mod unat (kokkos_partitions opts) = 0" by (simp add: unat_mod_distrib)
  from le show "unat (kokkos_partitions opts) \<le> unat (n_threads opts)" by (simp add: word_le_nat_alt)
  from pos show "0 < unat (kokkos_partitions opts)" by (simp add: unat_gt_0)
qed

lemma parse_args_kokkos_rejects:
  "parse_args_kokkos [''app'', ''--ranks'', ''2''] = Inl UnevenPartitions"
  "parse_args_kokkos [''app'', ''--backend-kokkos-partitions'', ''0''] = Inl DivisionByZero"
  by (simp_all add: parse_args_kokkos_def check_partitions_def n_threads_default_def lookahead_default_def
      kokkos_partitions_default_def atoi_def is_space_def digit_of_def Let_def)

end
