(* ===== verification/DebugPrinter.thy ===== *)
theory DebugPrinter
  imports World Arguments
begin

text \<open>
  The printing of the backend's state for debugging (\<open>src/src/debug.hpp\<close>): the friendly name of a
  pointer, the sets of uses and tasks that \<open>DebugState\<close> keeps, and what it prints of them. What is
  written to an output stream is the string that is written. The stream's flags need no model: a
  number is written right after \<open>std::dec\<close> or \<open>std::hex\<close> and a truth value after
  \<open>std::boolalpha\<close>.
\<close>

section \<open>Friendly names of pointers\<close>

definition letters :: string where
  "letters = ''abcdefghijkmnopqrstuvwxyzABCDEFGHIJKLMNPQRSTUVWXYZ023456789''"

definition base :: u64 where "base = of_nat (length letters)"

definition addressable_size :: u64 where "addressable_size = 281474976710656"

text \<open>
  \<open>value\<close> is an \<open>intptr_t\<close> and \<open>base\<close> a \<open>size_t\<close>, so that the quotient and the remainder are those of
  the unsigned value.
\<close>

lemma length_letters: "length letters = 59"
  by (simp add: letters_def)

lemma base_eq: "base = 59"
  by (simp add: base_def length_letters)

function name_loop :: "u64 \<Rightarrow> u64 \<Rightarrow> string \<Rightarrow> string" where
  "name_loop addr_size_left v rv =
     (if 0 < addr_size_left
      then name_loop (addr_size_left div base) (v div base) (rv @ [letters ! unat (v mod base)])
      else rv)"
  by pat_completeness auto
termination
  by (relation "measure (\<lambda>(left, _, _). unat left)")
    (simp_all add: base_eq unat_div word_less_nat_alt)

declare name_loop.simps [simp del]

definition friendly_pointer_name :: "u64 \<Rightarrow> string" where
  "friendly_pointer_name p = name_loop addressable_size p []"

text \<open>The digits of a number to the base 59, the lowest first.\<close>

fun digits59 :: "nat \<Rightarrow> nat \<Rightarrow> nat list" where
  "digits59 0 n = []"
| "digits59 (Suc k) n = n mod 59 # digits59 k (n div 59)"

fun undigits59 :: "nat list \<Rightarrow> nat" where
  "undigits59 [] = 0"
| "undigits59 (d # ds) = d + 59 * undigits59 ds"

lemma undigits59_digits59: "undigits59 (digits59 k n) = n mod 59 ^ k"
proof (induction k arbitrary: n)
  case 0
  then show ?case by simp
next
  case (Suc k)
  then show ?case by (simp add: mod_mult2_eq)
qed

lemma digits59_mod: "digits59 k (n mod 59 ^ k) = digits59 k n"
proof (induction k arbitrary: n)
  case 0
  then show ?case by simp
next
  case (Suc k)
  have "n mod 59 ^ Suc k div 59 = n div 59 mod 59 ^ k" by (simp add: mod_mult2_eq)
  moreover have "n mod 59 ^ Suc k mod 59 = n mod 59" by (simp add: mod_mod_cancel)
  ultimately show ?case using Suc.IH by simp
qed

lemma digits59_eq_iff: "digits59 k m = digits59 k n \<longleftrightarrow> m mod 59 ^ k = n mod 59 ^ k"
  by (metis digits59_mod undigits59_digits59)

lemma digits59_less: "d \<in> set (digits59 k n) \<Longrightarrow> d < 59"
  by (induction k arbitrary: n) auto

lemma length_digits59 [simp]: "length (digits59 k n) = k"
  by (induction k arbitrary: n) auto

lemma distinct_letters: "distinct letters"
  unfolding letters_def by code_simp

text \<open>The loop runs once for every time that the size of the address space can be divided.\<close>

lemma name_loop_step:
  "0 < s \<Longrightarrow> name_loop s v rv
     = name_loop (s div 59) (v div 59) (rv @ [letters ! (unat v mod 59)])"
  by (subst name_loop.simps) (simp add: base_eq unat_mod)

lemma name_loop_digits:
  "unat s div 59 ^ k = 0 \<Longrightarrow> (\<And>j. j < k \<Longrightarrow> 0 < unat s div 59 ^ j)
    \<Longrightarrow> name_loop s v rv = rv @ map ((!) letters) (digits59 k (unat v))"
proof (induction k arbitrary: s v rv)
  case 0
  then have "s = 0" by (simp add: unat_eq_zero)
  then show ?case by (simp add: name_loop.simps)
next
  case (Suc k)
  have d: "unat (s div 59) = unat s div 59" "unat (v div 59) = unat v div 59" by (simp_all add: unat_div)
  from Suc.prems(2) [of 0] have "0 < s" by (simp add: word_less_nat_alt)
  moreover have "name_loop (s div 59) (v div 59) (rv @ [letters ! (unat v mod 59)])
      = (rv @ [letters ! (unat v mod 59)]) @ map ((!) letters) (digits59 k (unat (v div 59)))"
  proof (rule Suc.IH)
    show "unat (s div 59) div 59 ^ k = 0"
      using Suc.prems(1) by (simp add: d div_mult2_eq [symmetric])
    show "0 < unat (s div 59) div 59 ^ j" if "j < k" for j
      using Suc.prems(2) [of "Suc j"] that by (simp add: d div_mult2_eq [symmetric])
  qed
  ultimately show ?case by (simp add: name_loop_step d)
qed

lemma friendly_pointer_name_digits:
  "friendly_pointer_name p = map ((!) letters) (digits59 9 (unat p))"
proof -
  have "0 < unat addressable_size div 59 ^ j" if "j < 9" for j :: nat
  proof -
    have "j \<in> {0, 1, 2, 3, 4, 5, 6, 7, 8}" using that by auto
    then show ?thesis by (auto simp: addressable_size_def)
  qed
  then have "name_loop addressable_size p [] = [] @ map ((!) letters) (digits59 9 (unat p))"
    by (intro name_loop_digits) (simp_all add: addressable_size_def)
  then show ?thesis by (simp add: friendly_pointer_name_def)
qed

lemma map_letters_eq_iff:
  assumes "\<forall>d\<in>set ds. d < 59" and "\<forall>e\<in>set es. e < 59"
  shows "map ((!) letters) ds = map ((!) letters) es \<longleftrightarrow> ds = es"
proof
  assume "map ((!) letters) ds = map ((!) letters) es"
  then show "ds = es"
  proof (rule map_inj_on)
    show "inj_on ((!) letters) (set ds \<union> set es)"
      using assms by (auto intro!: inj_on_nth distinct_letters simp: length_letters)
  qed
qed simp

text \<open>
  C39. The friendly name of a pointer always has nine letters, and two pointers have the same name
  exactly if they agree modulo \<open>59 ^ 9\<close>; so the pointers of the address space for which the length
  was chosen, those below \<open>2 ^ 48\<close>, all have different names.
\<close>

theorem friendly_names:
  "length (friendly_pointer_name p) = 9
   \<and> set (friendly_pointer_name p) \<subseteq> set letters
   \<and> (friendly_pointer_name p = friendly_pointer_name q \<longleftrightarrow> unat p mod 59 ^ 9 = unat q mod 59 ^ 9)
   \<and> inj_on friendly_pointer_name {p. p < addressable_size}"
proof (intro conjI)
  have eq: "friendly_pointer_name p = friendly_pointer_name q \<longleftrightarrow> unat p mod 59 ^ 9 = unat q mod 59 ^ 9" for p q
    unfolding friendly_pointer_name_digits
    by (subst map_letters_eq_iff) (auto dest: digits59_less simp: digits59_eq_iff)
  then show "friendly_pointer_name p = friendly_pointer_name q \<longleftrightarrow> unat p mod 59 ^ 9 = unat q mod 59 ^ 9" .
  show "length (friendly_pointer_name p) = 9" by (simp add: friendly_pointer_name_digits)
  show "set (friendly_pointer_name p) \<subseteq> set letters"
    by (auto simp: friendly_pointer_name_digits length_letters dest!: digits59_less)
  show "inj_on friendly_pointer_name {p. p < addressable_size}"
  proof (rule inj_onI)
    fix p q :: u64
    assume "p \<in> {p. p < addressable_size}" "q \<in> {p. p < addressable_size}"
      and n: "friendly_pointer_name p = friendly_pointer_name q"
    then have "unat p < 281474976710656" "unat q < 281474976710656"
      by (simp_all add: addressable_size_def word_less_nat_alt)
    with n show "p = q" by (simp add: eq word_unat_eq_iff)
  qed
qed

section \<open>The sets of DebugState\<close>

text \<open>
  A \<open>std::set\<close> of pointers is the list of the objects in the order of their addresses, which is the
  order in which the loops of \<open>print_state\<close> visit them.
\<close>

record debug_state =
  registered_uses :: "nat list"
  pending_tasks :: "nat list"
  running_tasks :: "nat list"

definition set_insert :: "(nat \<Rightarrow> u64) \<Rightarrow> nat \<Rightarrow> nat list \<Rightarrow> nat list" where
  "set_insert address x xs = (if x \<in> set xs then xs else insort_key address x xs)"

definition set_erase :: "nat \<Rightarrow> nat list \<Rightarrow> nat list" where
  "set_erase x xs = removeAll x xs"

text \<open>What belongs to the frontend and to the layout of the memory.\<close>

record printer =
  pr_use_address :: "nat \<Rightarrow> u64"
  pr_flow_address :: "nat \<Rightarrow> u64"
  pr_anti_flow_address :: "nat \<Rightarrow> u64"
  pr_task_address :: "nat \<Rightarrow> u64"
  pr_task :: "nat \<Rightarrow> task"
  pr_key :: "key \<Rightarrow> string"
  pr_permissions :: "nat \<Rightarrow> string \<times> string"  \<comment> \<open>scheduling and immediate permissions of a use\<close>

definition add_registered_use :: "printer \<Rightarrow> nat \<Rightarrow> debug_state \<Rightarrow> debug_state" where
  "add_registered_use P u s =
     s\<lparr>registered_uses := set_insert (pr_use_address P) u (registered_uses s)\<rparr>"

definition remove_registered_use :: "nat \<Rightarrow> debug_state \<Rightarrow> debug_state" where
  "remove_registered_use u s = s\<lparr>registered_uses := set_erase u (registered_uses s)\<rparr>"

text \<open>The two actions of \<open>ReadyTaskOperation::run\<close>.\<close>

definition task_starts :: "printer \<Rightarrow> nat \<Rightarrow> debug_state \<Rightarrow> debug_state" where
  "task_starts P t s =
     s\<lparr>running_tasks := set_insert (pr_task_address P) t (running_tasks s),
       pending_tasks := set_erase t (pending_tasks s)\<rparr>"

definition task_ends :: "nat \<Rightarrow> debug_state \<Rightarrow> debug_state" where
  "task_ends t s = s\<lparr>running_tasks := set_erase t (running_tasks s)\<rparr>"

lemma set_insert_set [simp]: "set (set_insert address x xs) = insert x (set xs)"
  by (auto simp: set_insert_def set_insort_key)

lemma set_erase_set [simp]: "set (set_erase x xs) = set xs - {x}"
  by (auto simp: set_erase_def)

lemma set_insert_sorted:
  "sorted (map address xs) \<and> distinct xs
    \<Longrightarrow> sorted (map address (set_insert address x xs)) \<and> distinct (set_insert address x xs)"
  by (auto simp: set_insert_def sorted_insort_key distinct_insort)

section \<open>Printing\<close>

definition endl :: string where "endl = [CHR 0x0A]"

definition boolalpha :: "bool \<Rightarrow> string" where
  "boolalpha b = (if b then ''true'' else ''false'')"

text \<open>\<open>print_flow\<close> of a flow or an anti-flow: its address and its ready event, unless it is null.\<close>

definition print_flow :: "(u64 \<times> nat) option \<Rightarrow> string \<Rightarrow> 'd world \<Rightarrow> rt_error + string" where
  "print_flow fl indent w =
     (case fl of
        None \<Rightarrow> Inr ''is nullptr''
      | Some (address, e) \<Rightarrow>
          bindE (at NullPointer (w_events w) e) (\<lambda>ev.
            Inr (indent @ ''at: '' @ friendly_pointer_name address
                 @ '' (ready: '' @ boolalpha (ev_triggered ev)
                 @ (if ev_triggered ev then []
                    else '', ready trigger count: '' @ print_nat (unat (ev_count ev)))
                 @ '')'')))"

definition flow_shown :: "printer \<Rightarrow> flow_ptr option \<Rightarrow> (u64 \<times> nat) option" where
  "flow_shown P f = map_option (\<lambda>f. (pr_flow_address P (flow_id f), flow_trigger f)) f"

definition anti_flow_shown :: "printer \<Rightarrow> anti_flow_ptr option \<Rightarrow> (u64 \<times> nat) option" where
  "anti_flow_shown P f =
     map_option (\<lambda>f. (pr_anti_flow_address P (anti_flow_id f), anti_flow_trigger f)) f"

definition print_use :: "printer \<Rightarrow> nat \<Rightarrow> string \<Rightarrow> 'd world \<Rightarrow> rt_error + string" where
  "print_use P u indent w =
     bindE (use_at u w) (\<lambda>us.
     bindE (at NullPointer (w_handles w) (us_handle us)) (\<lambda>h.
     bindE (print_flow (flow_shown P (us_in us)) [] w) (\<lambda>in_flow.
     bindE (print_flow (flow_shown P (us_out us)) [] w) (\<lambda>out_flow.
     bindE (print_flow (anti_flow_shown P (us_anti_in us)) [] w) (\<lambda>anti_in_flow.
     bindE (print_flow (anti_flow_shown P (us_anti_out us)) [] w) (\<lambda>anti_out_flow.
       Inr (indent @ ''Use object for handle with key '' @ pr_key P (handle_key h)
            @ ''(address: '' @ friendly_pointer_name (pr_use_address P u) @ '')''
            @ endl @ indent @ ''  scheduling / immediate permissions: ''
            @ fst (pr_permissions P u) @ '' / '' @ snd (pr_permissions P u)
            @ endl @ indent @ ''  in_flow '' @ in_flow
            @ endl @ indent @ ''  out_flow '' @ out_flow
            @ endl @ indent @ ''  anti_in_flow '' @ anti_in_flow
            @ endl @ indent @ ''  anti_out_flow '' @ anti_out_flow
            @ endl @ indent @ ''  is dependency use = '' @ boolalpha (is_dependency us)
            @ endl @ indent @ ''  is anti-dependency use = '' @ boolalpha (is_anti_dependency us)
            @ endl @ indent @ ''  manages collection = '' @ boolalpha (manages_collection us))))))))"

text \<open>A range-based loop that prints its elements, each followed by an end of line.\<close>

fun print_each :: "(nat \<Rightarrow> rt_error + string) \<Rightarrow> nat list \<Rightarrow> rt_error + string" where
  "print_each f [] = Inr []"
| "print_each f (x # xs) =
     bindE (f x) (\<lambda>a. bindE (print_each f xs) (\<lambda>b. Inr (a @ endl @ b)))"

text \<open>\<open>print_task\<close>, built without \<open>DARMA_CREATE_WORK_RECORD_LINE_NUMBERS\<close>.\<close>

definition print_dependency ::
  "printer \<Rightarrow> debug_state \<Rightarrow> string \<Rightarrow> 'd world \<Rightarrow> nat \<Rightarrow> rt_error + string" where
  "print_dependency P s indent w dep =
     (if dep \<in> set (registered_uses s) then print_use P dep (indent @ ''  '') w
      else Inr (indent @ ''  '' @ ''Use object at: '' @ friendly_pointer_name (pr_use_address P dep)
                @ '' (no longer registered)''))"

definition print_task :: "printer \<Rightarrow> debug_state \<Rightarrow> string \<Rightarrow> 'd world \<Rightarrow> nat \<Rightarrow> rt_error + string" where
  "print_task P s indent w t =
     bindE (print_each (print_dependency P s indent w) (get_dependencies (pr_task P t))) (\<lambda>deps.
       Inr (indent @ ''Task object''
            @ (if get_name (pr_task P t) \<noteq> EmptyKey then '' named '' @ pr_key P (get_name (pr_task P t))
               else '' (unnamed), '')
            @ ''(address: '' @ friendly_pointer_name (pr_task_address P t) @ '')''
            @ indent @ ''with dependencies:'' @ endl @ deps))"

text \<open>
  \<open>print_state\<close>: what goes to \<open>std::cerr\<close> whatever the stream, and what goes to the stream.
\<close>

definition print_backend_state :: "printer \<Rightarrow> debug_state \<Rightarrow> 'd world \<Rightarrow> rt_error + (string \<times> string)" where
  "print_backend_state P s w =
     bindE (print_each (\<lambda>u. print_use P u ''  '' w) (registered_uses s)) (\<lambda>uses.
     bindE (print_each (print_task P s ''  '' w) (pending_tasks s)) (\<lambda>pending.
     bindE (print_each (print_task P s ''  '' w) (running_tasks s)) (\<lambda>running.
       Inr (''Printing backend state in response to SIGUSR2'' @ endl,
            ''============================== Registered Uses =============================='' @ endl
            @ uses @ endl
            @ ''============================== Pending Tasks ============================='' @ endl
            @ pending @ endl
            @ ''============================== Running Tasks ============================='' @ endl
            @ running @ endl
            @ ''============================= End Program State ============================='' @ endl))))"

lemma print_each_cong [fundef_cong]:
  "xs = ys \<Longrightarrow> (\<And>x. x \<in> set ys \<Longrightarrow> f x = g x) \<Longrightarrow> print_each f xs = print_each g ys"
proof (induction ys arbitrary: xs)
  case Nil
  then show ?case by simp
next
  case (Cons y ys)
  then have "f y = g y" "print_each f ys = print_each g ys" by simp_all
  with Cons.prems(1) show ?case by simp
qed

lemma print_each_returns:
  "(\<And>x. x \<in> set xs \<Longrightarrow> \<exists>a. f x = Inr a) \<Longrightarrow> \<exists>a. print_each f xs = Inr a"
proof (induction xs)
  case Nil
  then show ?case by simp
next
  case (Cons x xs)
  then obtain a b where "f x = Inr a" "print_each f xs = Inr b" by force
  then show ?case by simp
qed

end
