(* ===== verification/DebugReport.thy ===== *)
theory DebugReport
  imports Placement DebugPrinter
begin

text \<open>
  Printing the state while the backend runs: \<open>DebugState::print_state\<close> (\<open>src/src/debug.hpp\<close>) on the
  reachable configurations of the machine, of which the registered uses are those of \<open>w_registered\<close>.
  The report is that of one configuration: \<open>state_mutex\<close> guards the sets of \<open>DebugState\<close>, not the flows
  of the uses, which the other threads may change while the report is being printed.
\<close>

lemma reaches_uses_usable: "reaches E g \<Longrightarrow> uses_usable (cf_world g)"
proof (induction rule: reaches_invariant)
  case (start g)
  then show ?case by (simp add: uses_usable_def starts_world)
next
  case (step g g')
  then show ?case by (auto elim!: disciplinedE intro: step_uses_usable)
qed

lemma print_flow_returns:
  "(\<And>address e. fl = Some (address, e) \<Longrightarrow> e < length (w_events w)) \<Longrightarrow> \<exists>t. print_flow fl indent w = Inr t"
  by (cases fl) (auto simp: print_flow_def)

lemma print_use_returns:
  assumes good: "good_flows w" and "uses_usable w" and "u \<in> w_registered w"
  shows "\<exists>t. print_use P u indent w = Inr t"
proof -
  let ?us = "w_uses w ! u"
  have u: "u < length (w_uses w)" "us_handle ?us < length (w_handles w)"
    using assms(2,3) by (auto simp: uses_usable_def)
  have "flows_plain w" using good by (simp add: good_flows_def)
  note ev = flows_plain_at [OF this u(1)]
  have "\<exists>t. print_flow (flow_shown P (us_in ?us)) [] w = Inr t"
       "\<exists>t. print_flow (flow_shown P (us_out ?us)) [] w = Inr t"
       "\<exists>t. print_flow (anti_flow_shown P (us_anti_in ?us)) [] w = Inr t"
       "\<exists>t. print_flow (anti_flow_shown P (us_anti_out ?us)) [] w = Inr t"
    by (rule print_flow_returns, use ev in \<open>auto simp: flow_shown_def anti_flow_shown_def plain_event_def\<close>)+
  then show ?thesis using u by (auto simp: print_use_def use_at_def)
qed

text \<open>
  C38. Printing never fails: in every reachable configuration, if \<open>DebugState\<close> holds the registered uses,
  then \<open>print_state\<close> dereferences no null pointer and prints its report, whatever tasks are pending or
  running and whether or not the uses that they depend on have been released.
\<close>

theorem print_never_fails:
  assumes "reaches E g" and "set (registered_uses s) = w_registered (cf_world g)"
  shows "\<exists>header report. print_backend_state P s (cf_world g) = Inr (header, report)"
proof -
  let ?w = "cf_world g"
  note use_text = print_use_returns [OF conjunct1 [OF reaches_good [OF assms(1)]] reaches_uses_usable [OF assms(1)]]
  have dep: "\<exists>t. print_dependency P s indent ?w d = Inr t" for indent d
    using use_text assms(2) by (auto simp: print_dependency_def)
  have task: "\<exists>a. print_task P s indent ?w t = Inr a" for indent t
    using print_each_returns [of "get_dependencies (pr_task P t)" "print_dependency P s indent ?w"] dep
    by (fastforce simp: print_task_def)
  have "\<exists>a. print_each (\<lambda>u. print_use P u ''  '' ?w) (registered_uses s) = Inr a"
    by (rule print_each_returns) (use use_text assms(2) in blast)
  moreover have "\<exists>a. print_each (print_task P s ''  '' ?w) ts = Inr a" for ts
    by (rule print_each_returns) (rule task)
  ultimately show ?thesis unfolding print_backend_state_def by (metis bindE_simps(2))
qed

definition sample_printer :: printer where
  "sample_printer =
     \<lparr>pr_use_address = (\<lambda>u. 4096 + 64 * of_nat u), pr_flow_address = (\<lambda>f. 8192 + 64 * of_nat f),
      pr_anti_flow_address = (\<lambda>f. 16384 + 64 * of_nat f), pr_task_address = (\<lambda>t. 32768 + 64 * of_nat t),
      pr_task = (\<lambda>t. Task [0] False EmptyKey []), pr_key = (\<lambda>k. ''key''),
      pr_permissions = (\<lambda>u. (''Modify'', ''Modify''))\<rparr>"

theorem print_never_fails_witness:
  "\<exists>g. reaches sample_env g \<and> w_registered (cf_world g) = {0}
     \<and> (\<exists>header report. print_backend_state sample_printer \<lparr>registered_uses = [0], pending_tasks = [], running_tasks = [7]\<rparr>
          (cf_world g) = Inr (header, report))"
proof -
  have "holds (\<lambda>g. w_registered (cf_world g) = {0}) (sample_run 6)"
    by code_simp
  then obtain g where r: "reaches sample_env g" and g: "w_registered (cf_world g) = {0}"
    by (rule sample_run_reaches) blast
  with print_never_fails [OF r, of "\<lparr>registered_uses = [0], pending_tasks = [], running_tasks = [7]\<rparr>" sample_printer]
  show ?thesis by auto
qed

text \<open>
  Printing reads no use that is not registered, whose object may be gone: two states that agree but
  for the uses that are not registered, and two frontends that agree but for the permissions of such
  uses, are printed alike.
\<close>

lemma print_reads_registered_only:
  assumes "\<And>u. u \<in> set (registered_uses s) \<Longrightarrow>
      use_at u (w\<lparr>w_uses := uses'\<rparr>) = use_at u w \<and> permissions' u = pr_permissions P u"
  shows "print_backend_state (P\<lparr>pr_permissions := permissions'\<rparr>) s (w\<lparr>w_uses := uses'\<rparr>)
     = print_backend_state P s w"
proof -
  let ?P = "P\<lparr>pr_permissions := permissions'\<rparr>" and ?w = "w\<lparr>w_uses := uses'\<rparr>"
  have fl: "print_flow fl indent ?w = print_flow fl indent w" for fl indent
    by (simp add: print_flow_def split: option.split)
  have shown: "flow_shown ?P = flow_shown P" "anti_flow_shown ?P = anti_flow_shown P"
    by (simp_all add: flow_shown_def anti_flow_shown_def fun_eq_iff)
  have use: "print_use ?P u indent ?w = print_use P u indent w" if "u \<in> set (registered_uses s)" for u indent
    using assms [OF that] by (simp add: print_use_def fl shown)
  have dep: "print_dependency ?P s indent ?w = print_dependency P s indent w" for indent
    using use by (auto simp: print_dependency_def fun_eq_iff)
  have task: "print_task ?P s indent ?w = print_task P s indent w" for indent
    by (simp add: print_task_def dep fun_eq_iff)
  have uses: "print_each (\<lambda>u. print_use ?P u indent ?w) (registered_uses s)
      = print_each (\<lambda>u. print_use P u indent w) (registered_uses s)" for indent
    using use by (intro print_each_cong) auto
  show ?thesis unfolding print_backend_state_def task uses ..
qed

end
