(* ===== verification/DebugLoop.thy ===== *)
theory DebugLoop
  imports DebugPrinter
begin

text \<open>
  The thread of the debug build that runs actions on \<open>DebugState\<close> (\<open>DebugWorker\<close> in
  \<open>src/src/debug.hpp\<close>) and the other threads, which queue actions for it or run them themselves
  (\<open>_SIMPLE_DBG_ENQUEUE\<close>, \<open>_SIMPLE_DBG_DO\<close>), ask for a report (\<open>sig_usr2_handler\<close> in
  \<open>src/src/main/main.cpp\<close>) and tell it to stop. Taking from a deque and running an action, which holds
  \<open>state_mutex\<close>, are one step each.
\<close>

section \<open>The actions\<close>

text \<open>The lambdas of \<open>register_use.cpp\<close>, \<open>release_use.cpp\<close>, \<open>ready_operation.cpp\<close> and \<open>main.cpp\<close>.\<close>

datatype debug_action = AddUse nat | RemoveUse nat | TaskStarts nat | TaskEnds nat | PrintState

fun debug_callable :: "printer \<Rightarrow> 'd world \<Rightarrow> debug_action
    \<Rightarrow> debug_state \<times> (rt_error + (string \<times> string)) list \<Rightarrow> debug_state \<times> (rt_error + (string \<times> string)) list" where
  "debug_callable P w (AddUse u) (s, out) = (add_registered_use P u s, out)"
| "debug_callable P w (RemoveUse u) (s, out) = (remove_registered_use u s, out)"
| "debug_callable P w (TaskStarts t) (s, out) = (task_starts P t s, out)"
| "debug_callable P w (TaskEnds t) (s, out) = (task_ends t s, out)"
| "debug_callable P w PrintState (s, out) = (s, out @ [print_backend_state P s w])"

section \<open>The worker\<close>

text \<open>Where its thread is in \<open>run_work_loop\<close>: about to take from a deque, or with an action in hand.\<close>

datatype 'a debug_pc =
    PopAction | RunAction 'a     \<comment> \<open>the main loop\<close>
  | PopEmpty | RunEmpty 'a       \<comment> \<open>the loop over \<open>empty_queue_actions\<close> inside it\<close>
  | PopLast | RunLast 'a         \<comment> \<open>the loop over what remains of them\<close>
  | Returned

datatype origin = FromActions | FromEmptyQueue | Immediate

text \<open>An action is a \<open>unique_ptr\<close>, null being the message to stop. The last three fields are history.\<close>

record ('a, 's) debug_worker =
  dw_actions :: "'a option deque"
  dw_empty_queue_actions :: "'a option deque"
  dw_current_state :: 's
  dw_at :: "'a debug_pc"
  dw_given :: "'a option list"                \<comment> \<open>put on \<open>actions\<close> so far\<close>
  dw_given_empty :: "'a list"                 \<comment> \<open>put on \<open>empty_queue_actions\<close> so far\<close>
  dw_ran :: "(origin \<times> 'a) list"              \<comment> \<open>run so far\<close>

definition debug_start :: "'s \<Rightarrow> ('a, 's) debug_worker" where
  "debug_start s =
     \<lparr>dw_actions = deque_new, dw_empty_queue_actions = deque_new, dw_current_state = s,
      dw_at = PopAction, dw_given = [], dw_given_empty = [], dw_ran = []\<rparr>"

text \<open>\<open>DebugAction::run\<close>\<close>

definition run_debug_action ::
  "('a \<Rightarrow> 's \<Rightarrow> 's) \<Rightarrow> origin \<Rightarrow> 'a \<Rightarrow> ('a, 's) debug_worker \<Rightarrow> ('a, 's) debug_worker" where
  "run_debug_action callable from a d =
     d\<lparr>dw_current_state := callable a (dw_current_state d), dw_ran := dw_ran d @ [(from, a)]\<rparr>"

text \<open>Both inner loops take an action and run it, and leave when there is none.\<close>

definition pop_empty_queue ::
  "('a \<Rightarrow> 'a debug_pc) \<Rightarrow> 'a debug_pc \<Rightarrow> ('a, 's) debug_worker \<Rightarrow> rt_error + ('a, 's) debug_worker" where
  "pop_empty_queue run leave d =
     bindE (get_and_pop_front (dw_empty_queue_actions d)) (\<lambda>(empty_dbg_action, q).
       case empty_dbg_action of
         Some p \<Rightarrow> bindE (deref NullPointer p) (\<lambda>a. Inr (d\<lparr>dw_empty_queue_actions := q, dw_at := run a\<rparr>))
       | None \<Rightarrow> Inr (d\<lparr>dw_at := leave\<rparr>))"

fun work_loop_step :: "('a \<Rightarrow> 's \<Rightarrow> 's) \<Rightarrow> 'a debug_pc \<Rightarrow> ('a, 's) debug_worker \<Rightarrow> rt_error + ('a, 's) debug_worker" where
  "work_loop_step callable PopAction d =
     bindE (get_and_pop_front (dw_actions d)) (\<lambda>(dbg_action, q).
       case dbg_action of
         Some None \<Rightarrow> Inr (d\<lparr>dw_actions := q, dw_at := PopLast\<rparr>)
       | Some (Some a) \<Rightarrow> Inr (d\<lparr>dw_actions := q, dw_at := RunAction a\<rparr>)
       | None \<Rightarrow> Inr (d\<lparr>dw_at := PopEmpty\<rparr>))"
| "work_loop_step callable (RunAction a) d = Inr (run_debug_action callable FromActions a d\<lparr>dw_at := PopAction\<rparr>)"
| "work_loop_step callable PopEmpty d = pop_empty_queue RunEmpty PopAction d"
| "work_loop_step callable (RunEmpty a) d = Inr (run_debug_action callable FromEmptyQueue a d\<lparr>dw_at := PopEmpty\<rparr>)"
| "work_loop_step callable PopLast d = pop_empty_queue RunLast Returned d"
| "work_loop_step callable (RunLast a) d = Inr (run_debug_action callable FromEmptyQueue a d\<lparr>dw_at := PopLast\<rparr>)"
| "work_loop_step callable Returned d = Inr d"

definition run_work_loop_step :: "('a \<Rightarrow> 's \<Rightarrow> 's) \<Rightarrow> ('a, 's) debug_worker \<Rightarrow> rt_error + ('a, 's) debug_worker" where
  "run_work_loop_step callable d = work_loop_step callable (dw_at d) d"

text \<open>\<open>n\<close> steps of the worker alone.\<close>

fun run_work_loop :: "('a \<Rightarrow> 's \<Rightarrow> 's) \<Rightarrow> nat \<Rightarrow> ('a, 's) debug_worker \<Rightarrow> rt_error + ('a, 's) debug_worker" where
  "run_work_loop callable 0 d = Inr d"
| "run_work_loop callable (Suc n) d = bindE (run_work_loop_step callable d) (run_work_loop callable n)"

section \<open>The other threads\<close>

text \<open>\<open>_SIMPLE_DBG_ENQUEUE\<close>, and the null pointer that \<open>main\<close> puts on the deque at the end.\<close>

definition simple_dbg_enqueue :: "'a option \<Rightarrow> ('a, 's) debug_worker \<Rightarrow> rt_error + ('a, 's) debug_worker" where
  "simple_dbg_enqueue p d =
     bindE (emplace_back p (dw_actions d)) (\<lambda>q. Inr (d\<lparr>dw_actions := q, dw_given := dw_given d @ [p]\<rparr>))"

definition sig_usr2_handler :: "'a \<Rightarrow> ('a, 's) debug_worker \<Rightarrow> rt_error + ('a, 's) debug_worker" where
  "sig_usr2_handler a d =
     bindE (emplace_back (Some a) (dw_empty_queue_actions d)) (\<lambda>q.
       Inr (d\<lparr>dw_empty_queue_actions := q, dw_given_empty := dw_given_empty d @ [a]\<rparr>))"

definition simple_dbg_do :: "('a \<Rightarrow> 's \<Rightarrow> 's) \<Rightarrow> 'a \<Rightarrow> ('a, 's) debug_worker \<Rightarrow> ('a, 's) debug_worker" where
  "simple_dbg_do callable a d = run_debug_action callable Immediate a d"

inductive debug_step :: "('a \<Rightarrow> 's \<Rightarrow> 's) \<Rightarrow> ('a, 's) debug_worker \<Rightarrow> ('a, 's) debug_worker \<Rightarrow> bool" for callable where
  work: "run_work_loop_step callable d = Inr d' \<Longrightarrow> debug_step callable d d'"
| enqueue: "simple_dbg_enqueue p d = Inr d' \<Longrightarrow> debug_step callable d d'"
| signal: "sig_usr2_handler a d = Inr d' \<Longrightarrow> debug_step callable d d'"
| immediate: "debug_step callable d (simple_dbg_do callable a d)"

inductive debug_reachable :: "('a \<Rightarrow> 's \<Rightarrow> 's) \<Rightarrow> 's \<Rightarrow> ('a, 's) debug_worker \<Rightarrow> bool" for callable s where
  start: "debug_reachable callable s (debug_start s)"
| step: "debug_reachable callable s d \<Longrightarrow> debug_step callable d d' \<Longrightarrow> debug_reachable callable s d'"

section \<open>What the worker has run\<close>

definition ran_from :: "origin \<Rightarrow> (origin \<times> 'a) list \<Rightarrow> 'a list" where
  "ran_from from log = map snd (filter (\<lambda>r. fst r = from) log)"

lemma ran_from_append [simp]: "ran_from from (xs @ ys) = ran_from from xs @ ran_from from ys"
  by (simp add: ran_from_def)

lemma ran_from_simps [simp]:
  "ran_from from [] = []"
  "ran_from from [(from', a)] = (if from' = from then [a] else [])"
  by (auto simp: ran_from_def)

text \<open>The action in hand, and whether the message to stop has been taken.\<close>

fun in_hand_of :: "origin \<Rightarrow> 'a debug_pc \<Rightarrow> 'a list" where
  "in_hand_of FromActions (RunAction a) = [a]"
| "in_hand_of FromEmptyQueue (RunEmpty a) = [a]"
| "in_hand_of FromEmptyQueue (RunLast a) = [a]"
| "in_hand_of _ _ = []"

fun past_stop :: "'a debug_pc \<Rightarrow> bool" where
  "past_stop PopLast = True"
| "past_stop (RunLast a) = True"
| "past_stop Returned = True"
| "past_stop _ = False"

definition debug_inv :: "('a \<Rightarrow> 's \<Rightarrow> 's) \<Rightarrow> 's \<Rightarrow> ('a, 's) debug_worker \<Rightarrow> bool" where
  "debug_inv callable s d \<longleftrightarrow>
     dq_mutex (dw_actions d) \<and> dq_mutex (dw_empty_queue_actions d)
     \<and> dw_given d = map Some (ran_from FromActions (dw_ran d) @ in_hand_of FromActions (dw_at d))
          @ (if past_stop (dw_at d) then [None] else []) @ dq_data (dw_actions d)
     \<and> map Some (dw_given_empty d) = map Some (ran_from FromEmptyQueue (dw_ran d) @ in_hand_of FromEmptyQueue (dw_at d))
          @ dq_data (dw_empty_queue_actions d)
     \<and> dw_current_state d = fold (callable \<circ> snd) (dw_ran d) s"

lemma debug_inv_start: "debug_inv callable s (debug_start s)"
  by (simp add: debug_inv_def debug_start_def deque_new_def)

lemma map_Some_eq_append_Cons:
  "map Some xs = ys @ p # zs \<Longrightarrow> \<exists>a. p = Some a"
  by (metis (no_types, lifting) map_eq_append_conv map_eq_Cons_conv)

lemma work_step_inv:
  assumes "debug_inv callable s d"
  shows "\<exists>d'. run_work_loop_step callable d = Inr d' \<and> debug_inv callable s d'"
proof (cases "dw_at d")
  case PopAction
  show ?thesis
  proof (cases "dq_data (dw_actions d)")
    case Nil
    then show ?thesis using assms PopAction
      by (simp add: run_work_loop_step_def debug_inv_def get_and_pop_front_def)
  next
    case (Cons p ps)
    then show ?thesis using assms PopAction
      by (cases p) (simp_all add: run_work_loop_step_def debug_inv_def get_and_pop_front_def)
  qed
next
  case PopEmpty
  show ?thesis
  proof (cases "dq_data (dw_empty_queue_actions d)")
    case Nil
    then show ?thesis using assms PopEmpty
      by (simp add: run_work_loop_step_def pop_empty_queue_def debug_inv_def get_and_pop_front_def)
  next
    case (Cons p ps)
    with assms map_Some_eq_append_Cons obtain a where "p = Some a" unfolding debug_inv_def by metis
    with Cons show ?thesis using assms PopEmpty
      by (simp add: run_work_loop_step_def pop_empty_queue_def debug_inv_def get_and_pop_front_def)
  qed
next
  case PopLast
  show ?thesis
  proof (cases "dq_data (dw_empty_queue_actions d)")
    case Nil
    then show ?thesis using assms PopLast
      by (simp add: run_work_loop_step_def pop_empty_queue_def debug_inv_def get_and_pop_front_def)
  next
    case (Cons p ps)
    with assms map_Some_eq_append_Cons obtain a where "p = Some a" unfolding debug_inv_def by metis
    with Cons show ?thesis using assms PopLast
      by (simp add: run_work_loop_step_def pop_empty_queue_def debug_inv_def get_and_pop_front_def)
  qed
qed (use assms in \<open>simp_all add: run_work_loop_step_def debug_inv_def run_debug_action_def\<close>)

lemma debug_reachable_inv: "debug_reachable callable s d \<Longrightarrow> debug_inv callable s d"
proof (induction rule: debug_reachable.induct)
  case start
  show ?case by (rule debug_inv_start)
next
  case (step d d')
  from step.hyps(2) show ?case
  proof (cases rule: debug_step.cases)
    case work
    with work_step_inv [OF step.IH] show ?thesis by auto
  next
    case (enqueue p)
    with step.IH show ?thesis
      by (auto simp: simple_dbg_enqueue_def emplace_back_def debug_inv_def)
  next
    case (signal a)
    with step.IH show ?thesis
      by (auto simp: sig_usr2_handler_def emplace_back_def debug_inv_def)
  next
    case (immediate a)
    with step.IH show ?thesis
      by (auto simp: simple_dbg_do_def run_debug_action_def debug_inv_def)
  qed
qed

text \<open>
  C34. The debug thread runs actions in the order in which they were given, each once: in every
  interleaving its next step is no error; when its loop has returned, it has run exactly the actions that
  were put on \<open>actions\<close> before the first null pointer, in order, and a first part of those put on
  \<open>empty_queue_actions\<close>, of which only the rest is still there; and the state is the one that results from
  running, one after the other, the actions that it and the other threads ran.
\<close>

theorem debug_actions_in_order:
  assumes "debug_reachable callable s d"
  shows "(\<exists>d'. run_work_loop_step callable d = Inr d')
    \<and> dw_current_state d = fold (\<lambda>(from, a). callable a) (dw_ran d) s
    \<and> (dw_at d = Returned \<longrightarrow>
         map Some (ran_from FromActions (dw_ran d)) = takeWhile (\<lambda>p. p \<noteq> None) (dw_given d)
         \<and> map Some (dw_given_empty d)
            = map Some (ran_from FromEmptyQueue (dw_ran d)) @ dq_data (dw_empty_queue_actions d))"
proof (intro conjI impI)
  have i: "debug_inv callable s d" using assms by (rule debug_reachable_inv)
  show "\<exists>d'. run_work_loop_step callable d = Inr d'" using work_step_inv [OF i] by blast
  have "(\<lambda>(from, a). callable a) = callable \<circ> (snd :: origin \<times> 'a \<Rightarrow> 'a)" by auto
  with i show "dw_current_state d = fold (\<lambda>(from, a). callable a) (dw_ran d) s" by (simp add: debug_inv_def)
  assume at: "dw_at d = Returned"
  have "takeWhile (\<lambda>p. p \<noteq> None) (map Some xs @ None # ys) = map Some xs" for xs :: "'a list" and ys
    by (induction xs) simp_all
  with i at show "map Some (ran_from FromActions (dw_ran d)) = takeWhile (\<lambda>p. p \<noteq> None) (dw_given d)"
    by (simp add: debug_inv_def)
  from i at show "map Some (dw_given_empty d)
      = map Some (ran_from FromEmptyQueue (dw_ran d)) @ dq_data (dw_empty_queue_actions d)"
    by (simp add: debug_inv_def)
qed

text \<open>
  An execution for the witnesses: a use is added by its own thread, a report is asked for, an action is
  queued, the worker makes \<open>n\<close> steps after \<open>main\<close> has told it to stop.
\<close>

fun sample_callable :: "debug_action \<Rightarrow> nat list \<Rightarrow> nat list" where
  "sample_callable (AddUse u) log = log @ [u]"
| "sample_callable (RemoveUse u) log = removeAll u log"
| "sample_callable _ log = log"

definition sample_debug :: "nat \<Rightarrow> rt_error + (debug_action, nat list) debug_worker" where
  "sample_debug n =
     bindE (sig_usr2_handler PrintState (simple_dbg_do sample_callable (AddUse 3) (debug_start []))) (\<lambda>d1.
     bindE (simple_dbg_enqueue (Some (AddUse 4)) d1) (\<lambda>d2.
     bindE (simple_dbg_enqueue None d2) (\<lambda>d3. run_work_loop sample_callable n d3)))"

lemma run_work_loop_reachable:
  "run_work_loop callable n d = Inr d' \<Longrightarrow> debug_reachable callable s d \<Longrightarrow> debug_reachable callable s d'"
  by (induction n arbitrary: d) (auto intro: debug_reachable.step debug_step.work)

lemma sample_debug_reachable:
  assumes "sample_debug n = Inr d"
  shows "debug_reachable sample_callable [] d"
proof -
  from assms obtain d1 d2 d3
    where 1: "sig_usr2_handler PrintState (simple_dbg_do sample_callable (AddUse 3) (debug_start [])) = Inr d1"
      and 2: "simple_dbg_enqueue (Some (AddUse 4)) d1 = Inr d2"
      and 3: "simple_dbg_enqueue None d2 = Inr d3" and 4: "run_work_loop sample_callable n d3 = Inr d"
    by (auto simp: sample_debug_def)
  have "debug_reachable sample_callable [] (simple_dbg_do sample_callable (AddUse 3) (debug_start []))"
    by (rule debug_reachable.step [OF debug_reachable.start debug_step.immediate])
  then have "debug_reachable sample_callable [] d1" by (rule debug_reachable.step) (rule debug_step.signal [OF 1])
  then have "debug_reachable sample_callable [] d2" by (rule debug_reachable.step) (rule debug_step.enqueue [OF 2])
  then have "debug_reachable sample_callable [] d3" by (rule debug_reachable.step) (rule debug_step.enqueue [OF 3])
  with 4 show ?thesis by (rule run_work_loop_reachable)
qed

theorem debug_actions_in_order_witness:
  "\<exists>d. sample_debug 7 = Inr d \<and> dw_at d = Returned \<and> ran_from FromActions (dw_ran d) = [AddUse 4]
     \<and> dw_current_state d = [3, 4]"
proof -
  have "case sample_debug 7 of Inl e \<Rightarrow> False
      | Inr d \<Rightarrow> dw_at d = Returned \<and> dw_given d = [Some (AddUse 4), None]
          \<and> dw_ran d = [(Immediate, AddUse 3), (FromActions, AddUse 4), (FromEmptyQueue, PrintState)]"
    by code_simp
  then obtain d where d: "sample_debug 7 = Inr d" and at: "dw_at d = Returned"
    and given: "dw_given d = [Some (AddUse 4), None]"
    and ran: "dw_ran d = [(Immediate, AddUse 3), (FromActions, AddUse 4), (FromEmptyQueue, PrintState)]"
    by (auto split: sum.splits)
  from debug_actions_in_order [OF sample_debug_reachable [OF d]] at given ran
  have "dw_current_state d = [3, 4]" and "map Some (ran_from FromActions (dw_ran d)) = [Some (AddUse 4)]"
    by simp_all
  with d at show ?thesis by auto
qed

section \<open>Stopping\<close>

fun pc_weight :: "'a debug_pc \<Rightarrow> nat" where
  "pc_weight PopAction = 1"
| "pc_weight (RunAction a) = 2"
| "pc_weight PopEmpty = 2"
| "pc_weight (RunEmpty a) = 3"
| "pc_weight PopLast = 1"
| "pc_weight (RunLast a) = 2"
| "pc_weight Returned = 0"

definition debug_work :: "('a, 's) debug_worker \<Rightarrow> nat" where
  "debug_work d = 2 * length (dq_data (dw_actions d)) + 2 * length (dq_data (dw_empty_queue_actions d)) + pc_weight (dw_at d)"

definition stopping :: "('a, 's) debug_worker \<Rightarrow> bool" where
  "stopping d \<longleftrightarrow> None \<in> set (dq_data (dw_actions d)) \<or> past_stop (dw_at d)"

lemma debug_work_decreases:
  assumes "run_work_loop_step callable d = Inr d'" and "stopping d" and "dw_at d \<noteq> Returned"
  shows "stopping d' \<and> debug_work d' < debug_work d"
  using assms
  by (cases "dw_at d"; cases "dq_data (dw_actions d)"; cases "dq_data (dw_empty_queue_actions d)")
    (auto simp: run_work_loop_step_def pop_empty_queue_def get_and_pop_front_def stopping_def debug_work_def
      run_debug_action_def split: option.splits)

lemma run_work_loop_returned:
  "dw_at d = Returned \<Longrightarrow> run_work_loop callable n d = Inr d"
  by (induction n) (simp_all add: run_work_loop_step_def)

lemma run_work_loop_returns:
  "debug_inv callable s d \<Longrightarrow> stopping d \<Longrightarrow> debug_work d \<le> n
    \<Longrightarrow> \<exists>d'. run_work_loop callable n d = Inr d' \<and> dw_at d' = Returned"
proof (induction n arbitrary: d)
  case 0
  then show ?case by (cases "dw_at d") (auto simp: debug_work_def)
next
  case (Suc n)
  show ?case
  proof (cases "dw_at d = Returned")
    case True
    then show ?thesis using run_work_loop_returned by blast
  next
    case False
    from work_step_inv [OF Suc.prems(1)] obtain d1
      where d1: "run_work_loop_step callable d = Inr d1" "debug_inv callable s d1" by blast
    from debug_work_decreases [OF d1(1) Suc.prems(2) False] Suc.prems(3)
    have "stopping d1" "debug_work d1 \<le> n" by simp_all
    with Suc.IH d1 show ?thesis by simp
  qed
qed

text \<open>
  C35. The debug thread ends, so that \<open>main\<close> can join it: once a null pointer is on \<open>actions\<close> and the
  other threads give it nothing more, its loop returns within twice as many steps as there are actions
  on the two deques, and three more.
\<close>

theorem debug_loop_returns:
  assumes "debug_reachable callable s d" and "None \<in> set (dq_data (dw_actions d))"
  shows "\<exists>d'. run_work_loop callable
      (2 * length (dq_data (dw_actions d)) + 2 * length (dq_data (dw_empty_queue_actions d)) + 3) d = Inr d'
    \<and> dw_at d' = Returned"
proof (rule run_work_loop_returns)
  show "debug_inv callable s d" using assms(1) by (rule debug_reachable_inv)
  show "stopping d" using assms(2) by (simp add: stopping_def)
  show "debug_work d \<le> 2 * length (dq_data (dw_actions d)) + 2 * length (dq_data (dw_empty_queue_actions d)) + 3"
    by (cases "dw_at d") (simp_all add: debug_work_def)
qed

theorem debug_loop_returns_witness:
  "\<exists>d. sample_debug 0 = Inr d \<and> (\<exists>d'. run_work_loop sample_callable 9 d = Inr d' \<and> dw_at d' = Returned)"
proof -
  have "case sample_debug 0 of Inl e \<Rightarrow> False
      | Inr d \<Rightarrow> dq_data (dw_actions d) = [Some (AddUse 4), None] \<and> dq_data (dw_empty_queue_actions d) = [Some PrintState]"
    by code_simp
  then obtain d where d: "sample_debug 0 = Inr d"
    and q: "dq_data (dw_actions d) = [Some (AddUse 4), None]" "dq_data (dw_empty_queue_actions d) = [Some PrintState]"
    by (auto split: sum.splits)
  with debug_loop_returns [OF sample_debug_reachable [OF d]] show ?thesis by simp
qed

end
