(* ===== verification/Pointers.thy ===== *)
theory Pointers
  imports Prelude
begin

text \<open>
  The pointer that threads exchange and access under a lock (\<open>src/src/data_structures/pointers.hpp\<close>) and
  the locks that it takes (\<open>src/src/data_structures/mutex.hpp\<close>). Each thread makes one access; taking the
  lock, what is done under it and giving it back are a step each, so that accesses that hold the lock
  shared overlap. Objects are numbers, and what a thread hands in or gets back is a \<open>unique_ptr\<close>.
\<close>

section \<open>The locks\<close>

text \<open>
  How many hold the mutex shared, and whether it is held exclusively. The flag says that the mutex is a
  \<open>shared_timed_mutex\<close>; a plain \<open>mutex\<close> is held exclusively by both kinds of lock. Taking a lock that is
  not free has no result: the thread waits.
\<close>

record ts_ptr =
  tp_readers :: nat
  tp_writer :: bool
  tp_value :: "nat option"     \<comment> \<open>\<open>value_\<close>\<close>

definition unique_lock_in_scope :: "ts_ptr \<Rightarrow> ts_ptr option" where
  "unique_lock_in_scope p =
     (if tp_writer p \<or> tp_readers p \<noteq> 0 then None else Some (p\<lparr>tp_writer := True\<rparr>))"

definition shared_lock_in_scope :: "bool \<Rightarrow> ts_ptr \<Rightarrow> ts_ptr option" where
  "shared_lock_in_scope shared_mutex p =
     (if \<not> shared_mutex then unique_lock_in_scope p
      else if tp_writer p then None else Some (p\<lparr>tp_readers := tp_readers p + 1\<rparr>))"

definition unlock_unique :: "ts_ptr \<Rightarrow> ts_ptr" where
  "unlock_unique p = p\<lparr>tp_writer := False\<rparr>"

definition unlock_shared :: "bool \<Rightarrow> ts_ptr \<Rightarrow> ts_ptr" where
  "unlock_shared shared_mutex p =
     (if shared_mutex then p\<lparr>tp_readers := tp_readers p - 1\<rparr> else unlock_unique p)"

section \<open>The accesses\<close>

definition ptr_new :: "nat option \<Rightarrow> ts_ptr" where
  "ptr_new v = \<lparr>tp_readers = 0, tp_writer = False, tp_value = v\<rparr>"

text \<open>
  The move constructor holds the other's mutex while it moves the value, and makes a mutex of its own:
  the new pointer and what is left of the other.
\<close>

definition ptr_move :: "ts_ptr \<Rightarrow> (ts_ptr \<times> ts_ptr) option" where
  "ptr_move other =
     map_option (\<lambda>locked. (ptr_new (tp_value locked), unlock_unique (locked\<lparr>tp_value := None\<rparr>)))
       (unique_lock_in_scope other)"

datatype access = Exchange "nat option" | WithSharedAccess | WithExclusiveAccess

text \<open>A callable that is being run has been given the raw pointer.\<close>

datatype access_pc =
    Waiting access
  | Locked access
  | Calling access "nat option"
  | Leaving access "nat option"   \<comment> \<open>about to give the lock back, with what is returned\<close>
  | Completed "nat option"

fun lock_for :: "bool \<Rightarrow> access \<Rightarrow> ts_ptr \<Rightarrow> ts_ptr option" where
  "lock_for m (Exchange other) p = unique_lock_in_scope p"
| "lock_for m WithSharedAccess p = shared_lock_in_scope m p"
| "lock_for m WithExclusiveAccess p = unique_lock_in_scope p"

fun unlock_for :: "bool \<Rightarrow> access \<Rightarrow> ts_ptr \<Rightarrow> ts_ptr" where
  "unlock_for m (Exchange other) p = unlock_unique p"
| "unlock_for m WithSharedAccess p = unlock_shared m p"
| "unlock_for m WithExclusiveAccess p = unlock_unique p"

fun access_step :: "bool \<Rightarrow> access_pc \<Rightarrow> ts_ptr \<Rightarrow> (access_pc \<times> ts_ptr) option" where
  "access_step m (Waiting a) p = map_option (\<lambda>p'. (Locked a, p')) (lock_for m a p)"
| "access_step m (Locked (Exchange other)) p =
     Some (Leaving (Exchange other) (tp_value p), p\<lparr>tp_value := other\<rparr>)"
| "access_step m (Locked a) p = Some (Calling a (tp_value p), p)"
| "access_step m (Calling a v) p = Some (Leaving a None, p)"
| "access_step m (Leaving a r) p = Some (Completed r, unlock_for m a p)"
| "access_step m (Completed r) p = None"

record ptr_race =
  pt_ptr :: ts_ptr
  pt_threads :: "access_pc list"

inductive ptr_step :: "bool \<Rightarrow> ptr_race \<Rightarrow> ptr_race \<Rightarrow> bool" for m where
  "i < length (pt_threads s) \<Longrightarrow> access_step m (pt_threads s ! i) (pt_ptr s) = Some (pc, p)
    \<Longrightarrow> ptr_step m s \<lparr>pt_ptr = p, pt_threads = (pt_threads s)[i := pc]\<rparr>"

definition ptr_start :: "nat option \<Rightarrow> access list \<Rightarrow> ptr_race" where
  "ptr_start v accesses = \<lparr>pt_ptr = ptr_new v, pt_threads = map Waiting accesses\<rparr>"

inductive ptr_reachable :: "bool \<Rightarrow> nat option \<Rightarrow> access list \<Rightarrow> ptr_race \<Rightarrow> bool" for m v accesses where
  start: "ptr_reachable m v accesses (ptr_start v accesses)"
| step: "ptr_reachable m v accesses s \<Longrightarrow> ptr_step m s s' \<Longrightarrow> ptr_reachable m v accesses s'"

section \<open>The invariant\<close>

fun takes_shared :: "bool \<Rightarrow> access \<Rightarrow> bool" where
  "takes_shared m WithSharedAccess = m"
| "takes_shared m _ = False"

text \<open>The access that a thread is in the middle of.\<close>

fun inside :: "access_pc \<Rightarrow> access option" where
  "inside (Locked a) = Some a"
| "inside (Calling a v) = Some a"
| "inside (Leaving a r) = Some a"
| "inside _ = None"

definition shares :: "bool \<Rightarrow> access_pc \<Rightarrow> nat" where
  "shares m pc = (case inside pc of Some a \<Rightarrow> if takes_shared m a then 1 else 0 | None \<Rightarrow> 0)"

definition excludes :: "bool \<Rightarrow> access_pc \<Rightarrow> nat" where
  "excludes m pc = (case inside pc of Some a \<Rightarrow> if takes_shared m a then 0 else 1 | None \<Rightarrow> 0)"

text \<open>The objects that a thread owns: what it hands in, and what it got back.\<close>

definition object_of :: "nat option \<Rightarrow> nat multiset" where
  "object_of r = (case r of None \<Rightarrow> {#} | Some x \<Rightarrow> {#x#})"

fun handed_in :: "access \<Rightarrow> nat multiset" where
  "handed_in (Exchange other) = object_of other"
| "handed_in _ = {#}"

fun owned_by :: "access_pc \<Rightarrow> nat multiset" where
  "owned_by (Waiting a) = handed_in a"
| "owned_by (Locked a) = handed_in a"
| "owned_by (Leaving a r) = object_of r"
| "owned_by (Completed r) = object_of r"
| "owned_by (Calling a v) = {#}"

definition over_threads :: "(access_pc \<Rightarrow> 'b) \<Rightarrow> ptr_race \<Rightarrow> 'b :: comm_monoid_add" where
  "over_threads f s = sum_list (map f (pt_threads s))"

definition owned :: "ptr_race \<Rightarrow> nat multiset" where
  "owned s = object_of (tp_value (pt_ptr s)) + over_threads owned_by s"

text \<open>A callable that takes its raw pointer from another kind of access than an exchange.\<close>

fun calls_with :: "nat option \<Rightarrow> access_pc \<Rightarrow> bool" where
  "calls_with v (Calling a v') \<longleftrightarrow> v' = v \<and> handed_in a = {#}"
| "calls_with v _ \<longleftrightarrow> True"

definition ptr_inv :: "bool \<Rightarrow> ptr_race \<Rightarrow> bool" where
  "ptr_inv m s \<longleftrightarrow>
     tp_readers (pt_ptr s) = over_threads (shares m) s
     \<and> over_threads (excludes m) s = (if tp_writer (pt_ptr s) then 1 else 0)
     \<and> (tp_writer (pt_ptr s) \<longrightarrow> tp_readers (pt_ptr s) = 0)
     \<and> (\<forall>pc\<in>set (pt_threads s). calls_with (tp_value (pt_ptr s)) pc)"

lemma over_threads_update:
  assumes "i < length (pt_threads s)"
  shows "over_threads f \<lparr>pt_ptr = p, pt_threads = (pt_threads s)[i := pc]\<rparr> + f (pt_threads s ! i)
    = over_threads f s + f pc"
  using sum_list_update [OF assms, of f pc] by (simp add: over_threads_def)

lemma over_threads_ge: "i < length (pt_threads s) \<Longrightarrow> (f (pt_threads s ! i) :: nat) \<le> over_threads f s"
  unfolding over_threads_def by (rule elem_le_sum_list_map) simp

lemma over_threads_two:
  assumes "i < length (pt_threads s)" and "j < length (pt_threads s)" and "i \<noteq> j"
  shows "(f (pt_threads s ! i) :: nat) + f (pt_threads s ! j) \<le> over_threads f s"
proof -
  let ?xs = "map f (pt_threads s)"
  have "sum_list ?xs = (\<Sum>k<length ?xs. ?xs ! k)" by (simp add: sum_list_sum_nth atLeast0LessThan)
  moreover have "(\<Sum>k\<in>{i, j}. ?xs ! k) \<le> (\<Sum>k<length ?xs. ?xs ! k)"
    by (rule sum_mono2) (use assms in auto)
  ultimately show ?thesis using assms by (simp add: over_threads_def)
qed

text \<open>Who holds the lock exclusively is alone.\<close>

lemma exclusive_alone:
  assumes "ptr_inv m s" and "i < length (pt_threads s)" and "j < length (pt_threads s)" and "i \<noteq> j"
    and "excludes m (pt_threads s ! i) = 1"
  shows "inside (pt_threads s ! j) = None"
proof -
  from over_threads_two [OF assms(2-4), of "excludes m"] assms(1,5)
  have e: "excludes m (pt_threads s ! j) = 0" and w: "tp_writer (pt_ptr s)"
    by (auto simp: ptr_inv_def split: if_splits)
  with assms(1) have "over_threads (shares m) s = 0" by (simp add: ptr_inv_def)
  with over_threads_ge [OF assms(3), of "shares m"] have "shares m (pt_threads s ! j) = 0" by simp
  with e show ?thesis by (auto simp: shares_def excludes_def split: option.splits if_splits)
qed

lemma calls_with_outside: "inside pc = None \<Longrightarrow> calls_with v pc"
  by (cases pc) auto

lemma lock_for_eq:
  "lock_for m a p = Some p' \<longleftrightarrow> \<not> tp_writer p \<and>
     (if takes_shared m a then p' = p\<lparr>tp_readers := tp_readers p + 1\<rparr>
      else tp_readers p = 0 \<and> p' = p\<lparr>tp_writer := True\<rparr>)"
  by (cases a) (auto simp: unique_lock_in_scope_def shared_lock_in_scope_def)

lemma unlock_for_eq:
  "unlock_for m a p =
     (if takes_shared m a then p\<lparr>tp_readers := tp_readers p - 1\<rparr> else p\<lparr>tp_writer := False\<rparr>)"
  by (cases a) (auto simp: unlock_unique_def unlock_shared_def)

lemma ptr_step_inv:
  assumes "ptr_inv m s" and "ptr_step m s s'"
  shows "ptr_inv m s'"
proof -
  from assms(2) obtain i pc p where i: "i < length (pt_threads s)"
    and st: "access_step m (pt_threads s ! i) (pt_ptr s) = Some (pc, p)"
    and s': "s' = \<lparr>pt_ptr = p, pt_threads = (pt_threads s)[i := pc]\<rparr>"
    by (auto elim: ptr_step.cases)
  note up = over_threads_update [OF i, of "shares m" p pc] over_threads_update [OF i, of "excludes m" p pc]
    over_threads_ge [OF i, of "shares m"] over_threads_ge [OF i, of "excludes m"]
  have locks: "tp_readers p = over_threads (shares m) s'
     \<and> over_threads (excludes m) s' = (if tp_writer p then 1 else 0) \<and> (tp_writer p \<longrightarrow> tp_readers p = 0)"
    using assms(1) st up unfolding s'
    by (cases "(m, pt_threads s ! i, pt_ptr s)" rule: access_step.cases)
      (auto simp: ptr_inv_def shares_def excludes_def lock_for_eq unlock_for_eq split: if_splits)
  have others: "calls_with (tp_value p) (pt_threads s ! j)" if "j < length (pt_threads s)" "j \<noteq> i" for j
  proof (cases "tp_value p = tp_value (pt_ptr s)")
    case True
    then show ?thesis using assms(1) that(1) by (simp add: ptr_inv_def)
  next
    case False
    with st obtain other where "pt_threads s ! i = Locked (Exchange other)"
      by (cases "(m, pt_threads s ! i, pt_ptr s)" rule: access_step.cases)
        (auto simp: lock_for_eq unlock_for_eq split: if_splits)
    then have "excludes m (pt_threads s ! i) = 1" by (simp add: excludes_def)
    from exclusive_alone [OF assms(1) i that(1) that(2) [symmetric] this] show ?thesis
      by (rule calls_with_outside)
  qed
  have "calls_with (tp_value p) pc"
    using st by (cases "(m, pt_threads s ! i, pt_ptr s)" rule: access_step.cases) auto
  with others have "\<forall>pc'\<in>set ((pt_threads s)[i := pc]). calls_with (tp_value p) pc'"
    using i by (auto simp: in_set_conv_nth nth_list_update)
  with locks show ?thesis unfolding ptr_inv_def s' ptr_race.simps by blast
qed

lemma ptr_reachable_inv: "ptr_reachable m v accesses s \<Longrightarrow> ptr_inv m s"
proof (induction rule: ptr_reachable.induct)
  case start
  show ?case
    by (auto simp: ptr_inv_def ptr_start_def ptr_new_def over_threads_def shares_def excludes_def)
next
  case (step s s')
  then show ?case by (blast intro: ptr_step_inv)
qed

lemma ptr_step_owned:
  assumes "ptr_inv m s" and "ptr_step m s s'"
  shows "owned s' = owned s"
proof -
  from assms(2) obtain i pc p where i: "i < length (pt_threads s)"
    and st: "access_step m (pt_threads s ! i) (pt_ptr s) = Some (pc, p)"
    and s': "s' = \<lparr>pt_ptr = p, pt_threads = (pt_threads s)[i := pc]\<rparr>"
    by (auto elim: ptr_step.cases)
  have calls: "calls_with (tp_value (pt_ptr s)) (pt_threads s ! i)" using assms(1) i by (simp add: ptr_inv_def)
  have "object_of (tp_value p) + owned_by pc = object_of (tp_value (pt_ptr s)) + owned_by (pt_threads s ! i)"
    using st calls
    by (cases "(m, pt_threads s ! i, pt_ptr s)" rule: access_step.cases)
      (auto simp: lock_for_eq unlock_for_eq object_of_def split: if_splits)
  moreover have "over_threads owned_by s' + owned_by (pt_threads s ! i) = over_threads owned_by s + owned_by pc"
    unfolding s' by (rule over_threads_update [OF i])
  ultimately have "owned s' + (owned_by pc + owned_by (pt_threads s ! i))
      = owned s + (owned_by pc + owned_by (pt_threads s ! i))"
    unfolding owned_def s' by (simp add: ac_simps)
  then show ?thesis by (rule add_right_imp_eq)
qed

text \<open>
  C36. Accesses are safe, whether the mutex is shared or not and however they interleave: no object is lost
  or held twice, since the pointer and the threads together own what they owned at the start; a callable's
  raw pointer is that of the object that is there for as long as it runs, so no exchange can take the
  object away from under it; and two threads are inside an access at the same time only if both hold a
  shared mutex shared.
\<close>

theorem accesses_safe:
  assumes "ptr_reachable m v accesses s"
  shows "owned s = object_of v + sum_list (map handed_in accesses)
    \<and> (\<forall>a raw. Calling a raw \<in> set (pt_threads s) \<longrightarrow> raw = tp_value (pt_ptr s))
    \<and> (\<forall>i<length (pt_threads s). \<forall>j<length (pt_threads s). i \<noteq> j \<longrightarrow>
         (case (inside (pt_threads s ! i), inside (pt_threads s ! j)) of
            (Some a, Some b) \<Rightarrow> takes_shared m a \<and> takes_shared m b
          | _ \<Rightarrow> True))"
proof (intro conjI allI impI)
  have inv: "ptr_inv m s" using assms by (rule ptr_reachable_inv)
  show "owned s = object_of v + sum_list (map handed_in accesses)" using assms
  proof (induction rule: ptr_reachable.induct)
    case start
    show ?case by (simp add: owned_def over_threads_def ptr_start_def ptr_new_def comp_def)
  next
    case (step s s')
    then show ?case using ptr_step_owned ptr_reachable_inv by metis
  qed
  show "raw = tp_value (pt_ptr s)" if "Calling a raw \<in> set (pt_threads s)" for a raw
    using inv that by (fastforce simp: ptr_inv_def)
  fix i j
  assume i: "i < length (pt_threads s)" and j: "j < length (pt_threads s)" and ij: "i \<noteq> j"
  have "takes_shared m a" if "inside (pt_threads s ! i) = Some a" "inside (pt_threads s ! j) = Some b"
    "i < length (pt_threads s)" "j < length (pt_threads s)" "i \<noteq> j" for a b i j
    using exclusive_alone [OF inv that(3-5)] that(1,2) by (cases "takes_shared m a") (auto simp: excludes_def)
  from this [OF _ _ i j ij] this [OF _ _ j i ij [symmetric]]
  show "case (inside (pt_threads s ! i), inside (pt_threads s ! j)) of
      (Some a, Some b) \<Rightarrow> takes_shared m a \<and> takes_shared m b | _ \<Rightarrow> True"
    by (auto split: option.split)
qed

section \<open>Every access completes\<close>

fun steps_left :: "access_pc \<Rightarrow> nat" where
  "steps_left (Waiting a) = 4"
| "steps_left (Locked a) = 3"
| "steps_left (Calling a raw) = 2"
| "steps_left (Leaving a r) = 1"
| "steps_left (Completed r) = 0"

lemma access_step_left: "access_step m pc p = Some (pc', p') \<Longrightarrow> steps_left pc' < steps_left pc"
  by (cases "(m, pc, p)" rule: access_step.cases) auto

lemma ptr_step_left: "ptr_step m s s' \<Longrightarrow> over_threads steps_left s' < over_threads steps_left s"
proof (elim ptr_step.cases, clarify)
  fix i pc p
  assume i: "i < length (pt_threads s)" and st: "access_step m (pt_threads s ! i) (pt_ptr s) = Some (pc, p)"
  from over_threads_update [OF i, of steps_left p pc] access_step_left [OF st]
  show "over_threads steps_left \<lparr>pt_ptr = p, pt_threads = (pt_threads s)[i := pc]\<rparr> < over_threads steps_left s"
    by simp
qed

lemma inside_can_step: "inside pc \<noteq> None \<Longrightarrow> access_step m pc p \<noteq> None"
  by (cases "(m, pc, p)" rule: access_step.cases) auto

lemma some_thread_can_step:
  assumes "ptr_inv m s" and "pc \<in> set (pt_threads s)" and "\<forall>r. pc \<noteq> Completed r"
  shows "\<exists>s'. ptr_step m s s'"
proof (cases "\<exists>pc\<in>set (pt_threads s). inside pc \<noteq> None")
  case True
  then obtain i where "i < length (pt_threads s)" "inside (pt_threads s ! i) \<noteq> None"
    by (metis in_set_conv_nth)
  with inside_can_step [of "pt_threads s ! i" m "pt_ptr s"] show ?thesis by (auto intro: ptr_step.intros)
next
  case False
  then have "over_threads (shares m) s = 0" "over_threads (excludes m) s = 0"
    by (auto simp: over_threads_def shares_def excludes_def)
  with assms(1) have free: "tp_readers (pt_ptr s) = 0" "\<not> tp_writer (pt_ptr s)"
    by (auto simp: ptr_inv_def)
  from False assms(2,3) obtain a where "pc = Waiting a" by (cases pc) auto
  then have "\<exists>pc' p. access_step m pc (pt_ptr s) = Some (pc', p)"
    using free lock_for_eq [of m a "pt_ptr s"] by (cases "takes_shared m a") auto
  moreover obtain i where "i < length (pt_threads s)" "pt_threads s ! i = pc"
    using assms(2) by (metis in_set_conv_nth)
  ultimately show ?thesis by (auto intro: ptr_step.intros)
qed

lemma ptr_steps_bound:
  "(ptr_step m ^^ n) (ptr_start v accesses) s \<Longrightarrow>
     ptr_reachable m v accesses s \<and> n + over_threads steps_left s \<le> 4 * length accesses"
proof (induction n arbitrary: s)
  case 0
  then show ?case using ptr_reachable.start [of m v accesses]
    by (auto simp: over_threads_def ptr_start_def comp_def sum_list_triv)
next
  case (Suc n)
  from Suc.prems obtain s1 where "(ptr_step m ^^ n) (ptr_start v accesses) s1" and st: "ptr_step m s1 s" by auto
  with Suc.IH [of s1] ptr_step_left [OF st] show ?case by (auto intro: ptr_reachable.step)
qed

text \<open>
  C37. Every access completes: a run of the threads has at most four steps for each access, and while some
  access has not completed there is always a thread that can go on, so they never deadlock.
\<close>

theorem accesses_complete:
  assumes "(ptr_step m ^^ n) (ptr_start v accesses) s"
  shows "n \<le> 4 * length accesses \<and> ((\<exists>s'. ptr_step m s s') \<or> (\<forall>pc\<in>set (pt_threads s). \<exists>r. pc = Completed r))"
  using ptr_steps_bound [OF assms] some_thread_can_step [OF ptr_reachable_inv] by fastforce

text \<open>For the witnesses: one thread runs a callable while another one waits to exchange the object.\<close>

definition sample_accesses :: ptr_race where
  "sample_accesses =
     \<lparr>pt_ptr = \<lparr>tp_readers = 1, tp_writer = False, tp_value = Some 5\<rparr>,
      pt_threads = [Calling WithSharedAccess (Some 5), Waiting (Exchange (Some 6))]\<rparr>"

lemma sample_accesses_run:
  "(ptr_step True ^^ 2) (ptr_start (Some 5) [WithSharedAccess, Exchange (Some 6)]) sample_accesses"
proof -
  let ?s0 = "ptr_start (Some 5) [WithSharedAccess, Exchange (Some 6)]"
  let ?s1 = "\<lparr>pt_ptr = \<lparr>tp_readers = 1, tp_writer = False, tp_value = Some 5\<rparr>,
      pt_threads = [Locked WithSharedAccess, Waiting (Exchange (Some 6))]\<rparr>"
  have "ptr_step True ?s0 ?s1"
    using ptr_step.intros [of 0 ?s0 True "Locked WithSharedAccess" "pt_ptr ?s1"]
    by (simp add: ptr_start_def ptr_new_def shared_lock_in_scope_def)
  moreover have "ptr_step True ?s1 sample_accesses"
    using ptr_step.intros [of 0 ?s1 True "Calling WithSharedAccess (Some 5)" "pt_ptr ?s1"]
    by (simp add: sample_accesses_def)
  ultimately show ?thesis by (auto simp: numeral_2_eq_2)
qed

theorem accesses_safe_witness:
  "owned sample_accesses = {#5, 6#} \<and> tp_value (pt_ptr sample_accesses) = Some 5"
proof -
  have r: "ptr_reachable True (Some 5) [WithSharedAccess, Exchange (Some 6)] sample_accesses"
    using ptr_steps_bound [OF sample_accesses_run] by blast
  have "Calling WithSharedAccess (Some 5) \<in> set (pt_threads sample_accesses)"
    by (simp add: sample_accesses_def)
  with accesses_safe [OF r] show ?thesis by (auto simp: object_of_def)
qed

theorem accesses_complete_witness: "\<exists>s'. ptr_step True sample_accesses s'"
proof -
  have "\<not> (\<forall>pc\<in>set (pt_threads sample_accesses). \<exists>r. pc = Completed r)"
    by (simp add: sample_accesses_def)
  with accesses_complete [OF sample_accesses_run] show ?thesis by blast
qed

end
