(* ===== verification/Ordinary.thy ===== *)
theory Ordinary
  imports Work
begin

text \<open>
  What a quantity of the events' and the workers' queues needs in order not to grow in the ordinary steps
  of the backend, those that neither carry a message, nor shut down, nor start or end a work loop. The
  locale has one law for each primitive of the queues, and its lemmas go once through the procedures.
\<close>

section \<open>The ordinary commands\<close>

text \<open>The operations that close the backend down: the messages, and the one that joins the workers.\<close>

fun closing_op :: "ready_op \<Rightarrow> bool" where
  "closing_op (SpecialMessage k) = True"
| "closing_op (CallableOperation JoinWorkers s) = True"
| "closing_op _ = False"

fun shuts_down :: "action \<Rightarrow> bool" where
  "shuts_down ShutdownAction = True"
| "shuts_down RegionShutdownAction = True"
| "shuts_down _ = False"

fun ordinary_action :: "action \<Rightarrow> bool" where
  "ordinary_action (EnqueueAction op) = (\<not> closing_op op)"
| "ordinary_action a = (\<not> shuts_down a)"

fun ordinary :: "cmd \<Rightarrow> bool" where
  "ordinary (CAction a) = ordinary_action a"
| "ordinary (CAttach e a) = ordinary_action a"
| "ordinary (CEnqueueOrRun p op i allow) = (\<not> closing_op op)"
| "ordinary (CStackRun op) = (\<not> closing_op op)"
| "ordinary (CRun op) = (\<not> closing_op op)"
| "ordinary CSpinUp = False"
| "ordinary CLoopStart = False"
| "ordinary CLoop = False"
| "ordinary (CJoin i) = False"
| "ordinary _ = True"

lemma run_operation_ordinary: "run_operation me op w = Inr (b, cs, w') \<Longrightarrow> \<not> closing_op op \<Longrightarrow> \<not> b"
  by (cases op) (auto simp: run_operation_def)

text \<open>The operation that joins the workers is not up for stealing.\<close>

definition no_loose_join :: "'d world \<Rightarrow> bool" where
  "no_loose_join w \<longleftrightarrow> (\<forall>wk\<in>set (w_workers w). CallableOperation JoinWorkers True \<notin> set (wk_ready wk))"

lemma stolen_ordinary:
  assumes "no_loose_join w" and "v < crew w" and "wk_ready (w_workers w ! v) = op # rest" and "is_stealable op"
  shows "\<not> closing_op op"
proof -
  have "op \<noteq> CallableOperation JoinWorkers True" using assms(1-3) by (auto simp: no_loose_join_def dest!: bspec [OF _ nth_mem])
  with assms(4) show ?thesis by (cases op rule: closing_op.cases) auto
qed

section \<open>Quantities that only messages and shutting down increase\<close>

locale quantity =
  fixes amount :: "'d world \<Rightarrow> int" and cost :: "cmd \<Rightarrow> int"
  assumes amount_cong: "w_events w' = w_events w \<Longrightarrow> map wk_ready (w_workers w') = map wk_ready (w_workers w)
      \<Longrightarrow> amount w' = amount w"
    and new_event: "new_event k w = (e, w') \<Longrightarrow> amount w' \<le> amount w"
    and advance: "advance_count e k w = Inr w' \<Longrightarrow> amount w' \<le> amount w"
    and decrement: "decrement_count e w = Inr (cs, w') \<Longrightarrow> amount w' + todo cost cs \<le> amount w"
    and attach: "attach_action e a w = Inr (cs, w') \<Longrightarrow> ordinary_action a \<Longrightarrow> amount w' + todo cost cs \<le> amount w"
    and emplace: "emplace_ready i op w = Inr w' \<Longrightarrow> \<not> closing_op op \<Longrightarrow> amount w' \<le> amount w"
    and take: "i < crew w \<Longrightarrow> wk_ready (w_workers w ! i) = op # rest \<Longrightarrow> \<not> closing_op op
      \<Longrightarrow> amount (set_ready i rest w) \<le> amount w"
    and free: "ordinary c \<Longrightarrow> cost c = 0"
begin

lemma amount_fields [simp]:
  "amount (w\<lparr>w_flows := x1\<rparr>) = amount w" "amount (w\<lparr>w_aflows := x2\<rparr>) = amount w"
  "amount (w\<lparr>w_cblks := x3\<rparr>) = amount w" "amount (w\<lparr>w_mem := x4\<rparr>) = amount w"
  "amount (w\<lparr>w_uses := x5\<rparr>) = amount w" "amount (w\<lparr>w_pending_tasks := x6\<rparr>) = amount w"
  "amount (w\<lparr>w_registered := x7\<rparr>) = amount w" "amount (w\<lparr>w_tokens := x8\<rparr>) = amount w"
  "amount (w\<lparr>w_entries := x9\<rparr>) = amount w" "amount (w\<lparr>w_invocations := x10\<rparr>) = amount w"
  "amount (w\<lparr>w_dorment := x11\<rparr>) = amount w" "amount (w\<lparr>w_called := x12\<rparr>) = amount w"
  "amount (w\<lparr>w_handles := x13\<rparr>) = amount w" "amount (w\<lparr>w_next_key := x14\<rparr>) = amount w"
  "amount (w\<lparr>w_collection_token := x15\<rparr>) = amount w" "amount (w\<lparr>w_next_sequence := x16\<rparr>) = amount w"
  "amount (add_dorment d w) = amount w" "amount (update_use u f w) = amount w"
  by (rule amount_cong; simp add: add_dorment_def update_use_def)+

lemma amount_update_worker [simp]:
  "(\<And>wk. wk_ready (f wk) = wk_ready wk) \<Longrightarrow> amount (update_worker i f w) = amount w"
  by (intro amount_cong) (simp_all add: update_worker_def map_field_update)

lemma costs [simp]:
  "cost (CDecrement e) = 0" "cost (CApi a) = 0" "cost (CRegisterIn u) = 0" "cost (CRegisterAntiIn u) = 0"
  "cost (CRegisterOut u) = 0" "cost (CRegisterAntiOut u) = 0" "cost (CRelease u) = 0" "cost (CAliasFlows h e) = 0"
  "cost (CAddDependency p e) = 0" "cost (CTaskDependency p dep) = 0" "cost (CTaskAntiDependency p dep) = 0"
  "cost CStackExit = 0" "cost (CTaskFinished old) = 0" "cost (CCreateTasks name ts i) = 0"
  "cost (CEraseCollective t tag ip) = 0" "cost CDorment = 0"
  "ordinary_action x \<Longrightarrow> cost (CAttach e x) = 0" "ordinary_action x \<Longrightarrow> cost (CAction x) = 0"
  "\<not> closing_op op \<Longrightarrow> cost (CEnqueueOrRun p op i allow) = 0" "\<not> closing_op op \<Longrightarrow> cost (CStackRun op) = 0"
  "\<not> closing_op op \<Longrightarrow> cost (CRun op) = 0"
  by (simp_all add: free)

lemmas primitives = new_event advance decrement attach emplace

lemma increment: "increment_count e w = Inr w' \<Longrightarrow> amount w' \<le> amount w"
  unfolding increment_count_def by (rule advance)

lemma attach_decrement: "attach_decrement_of e e' w = Inr (cs, w') \<Longrightarrow> amount w' + todo cost cs \<le> amount w"
  unfolding attach_decrement_of_def by (drule attach) simp_all

lemma attach_or_do:
  assumes "attach_or_do_action e (EnqueueAction op) [CStackRun op] w = Inr (cs, w')" and "\<not> closing_op op"
  shows "amount w' + todo cost cs \<le> amount w"
proof (cases "ev_triggered (w_events w ! e)")
  case True
  with assms attach_or_do_frame [OF assms(1)] show ?thesis by simp
next
  case False
  then have "attach_action e (EnqueueAction op) w = Inr (cs, w')"
    using assms(1) by (auto simp: attach_action_def attach_or_do_action_def split: if_splits)
  with assms(2) show ?thesis by (auto dest: attach)
qed

lemma objects:
  "make_cblk cb w = (c, w') \<Longrightarrow> amount w' \<le> amount w"
  "make_flow co k w = Inr (f, w') \<Longrightarrow> amount w' \<le> amount w"
  "make_anti_flow k w = Inr (af, w') \<Longrightarrow> amount w' \<le> amount w"
  "make_entry w = (en, w') \<Longrightarrow> amount w' \<le> amount w"
  by (fastforce simp: make_cblk_def make_flow_def make_anti_flow_def make_entry_def Let_def split: prod.splits
      dest!: new_event)+

lemma ensure_entry: "ensure_entry t key w = Inr (en, w') \<Longrightarrow> amount w' \<le> amount w"
  by (erule ensure_entry_cases) (auto simp: set_published_entry_def Let_def dest!: objects(4))

lemmas makers = primitives increment attach_decrement attach_or_do objects ensure_entry

text \<open>The procedures.\<close>

lemma in_flow:
  "in_flow_next rel w = Inr (f, cs, w') \<Longrightarrow> amount w' + todo cost cs \<le> amount w"
  "in_flow_initial E us w = Inr (f, cs, w') \<Longrightarrow> amount w' + todo cost cs \<le> amount w"
  "in_flow_initial_collection E us w = Inr (f, cs, w') \<Longrightarrow> amount w' + todo cost cs \<le> amount w"
  "in_flow_indexed_local E rel w = Inr (f, cs, w') \<Longrightarrow> amount w' + todo cost cs \<le> amount w"
  "in_flow_indexed_fetching us w = Inr (f, cs, w') \<Longrightarrow> amount w' + todo cost cs \<le> amount w"
  by (auto simp: in_flow_next_def in_flow_initial_def in_flow_initial_collection_def in_flow_of_cblk_def
      in_flow_indexed_local_def in_flow_indexed_fetching_def Let_def split: prod.splits dest!: makers)

lemma registration:
  "register_in E u w = Inr (cs, w') \<Longrightarrow> amount w' + todo cost cs \<le> amount w"
  "register_anti_in u w = Inr (cs, w') \<Longrightarrow> amount w' + todo cost cs \<le> amount w"
  "register_out u w = Inr (cs, w') \<Longrightarrow> amount w' + todo cost cs \<le> amount w"
  "register_anti_out u w = Inr (cs, w') \<Longrightarrow> amount w' + todo cost cs \<le> amount w"
proof -
  show "register_in E u w = Inr (cs, w') \<Longrightarrow> amount w' + todo cost cs \<le> amount w"
    by (auto simp: register_in_def set_in_flow_def reuse_in_flow_def Let_def split: description.splits
        dest!: in_flow)
  show "register_anti_in u w = Inr (cs, w') \<Longrightarrow> amount w' + todo cost cs \<le> amount w"
    by (auto simp: register_anti_in_def anti_in_same_def anti_in_next_def anti_in_forwarding_def
        anti_in_indexed_local_def set_anti_in_flow_def
        split: description.splits option.splits if_splits dest!: makers)
  show "register_out u w = Inr (cs, w') \<Longrightarrow> amount w' + todo cost cs \<le> amount w"
    by (auto simp: register_out_def out_same_def out_next_def out_null_def out_indexed_local_def set_out_flow_def
        split: description.splits option.splits if_splits prod.splits dest!: makers)
  show "register_anti_out u w = Inr (cs, w') \<Longrightarrow> amount w' + todo cost cs \<le> amount w"
    by (auto simp: register_anti_out_def anti_out_initial_def anti_out_same_def anti_out_next_def Let_def
        anti_out_indexed_local_def anti_out_indexed_fetching_def set_anti_out_flow_def
        split: description.splits option.splits if_splits prod.splits dest!: makers)
qed

lemma uses:
  "register_use u w = Inr (cs, w') \<Longrightarrow> amount w' + todo cost cs \<le> amount w"
  "release_use u w = Inr (cs, w') \<Longrightarrow> amount w' + todo cost cs \<le> amount w"
  by (auto simp: register_use_def assign_key_def release_use_def handle_aliasing_for_released_use_def Let_def comp_def
      split: if_splits option.splits)

lemma operations:
  "add_dependency_on p e w = Inr (cs, w') \<Longrightarrow> amount w' + todo cost cs \<le> amount w"
  "enqueue_or_run me p op i allow w = Inr (cs, w') \<Longrightarrow> \<not> closing_op op \<Longrightarrow> amount w' + todo cost cs \<le> amount w"
  "run_enqueue_action me op w = Inr (cs, w') \<Longrightarrow> \<not> closing_op op \<Longrightarrow> amount w' + todo cost cs \<le> amount w"
  "stack_run me op w = Inr (cs, w') \<Longrightarrow> \<not> closing_op op \<Longrightarrow> amount w' + todo cost cs \<le> amount w"
  "stack_exit me w = Inr (cs, w') \<Longrightarrow> amount w' + todo cost cs \<le> amount w"
  by (fastforce simp: add_dependency_on_def enqueue_or_run_def run_enqueue_action_def stack_run_def stack_exit_def
      Let_def split: if_splits dest!: makers)+

lemma pending:
  "alias_flows me h e w = Inr (cs, w') \<Longrightarrow> amount w' + todo cost cs \<le> amount w"
  "make_pending_task tsk i w = (cs, w') \<Longrightarrow> amount w' + todo cost cs \<le> amount w"
  by (auto simp: alias_flows_def when_ready_do_def when_all_ready_do_def make_pending_task_def
      make_pending_operation_def Let_def comp_def split: prod.splits dest!: new_event increment)

lemma set_parent_tokens: "set_parent_tokens t ds w = Inr w' \<Longrightarrow> amount w' \<le> amount w"
  by (induction ds arbitrary: w) (fastforce split: if_splits)+

lemma setup_data: "setup_data ds w = Inr w' \<Longrightarrow> amount w' \<le> amount w"
  by (induction ds arbitrary: w) (fastforce split: if_splits)+

lemma tasks:
  "task_dependency p d w = Inr (cs, w') \<Longrightarrow> amount w' + todo cost cs \<le> amount w"
  "task_anti_dependency p d w = Inr (cs, w') \<Longrightarrow> amount w' + todo cost cs \<le> amount w"
  "task_finished me old w = Inr (cs, w') \<Longrightarrow> amount w' + todo cost cs \<le> amount w"
  "register_task me t w = Inr (cs, w') \<Longrightarrow> amount w' + todo cost cs \<le> amount w"
  "register_task_collection tc w = Inr (cs, w') \<Longrightarrow> amount w' + todo cost cs \<le> amount w"
  by (fastforce simp: task_dependency_def task_anti_dependency_def then_do_def task_finished_def register_task_def
      register_task_collection_def make_token_def Let_def split: if_splits
      dest!: makers operations pending set_parent_tokens)+

lemma create_tasks: "create_tasks me name ts i w = Inr (cs, w') \<Longrightarrow> amount w' + todo cost cs \<le> amount w"
  by (cases ts) (auto simp: Let_def split: prod.splits dest!: makers pending)

lemma run_operation:
  assumes "run_operation me op w = Inr (b, cs, w')" and "\<not> closing_op op"
  shows "amount w' + todo cost cs \<le> amount w"
  using assms
  by (cases op rule: closing_op.cases)
    (fastforce simp: run_operation_def run_task_def comp_def split: message_kind.splits dest!: setup_data)+

lemma communication:
  "publish_use u d w = Inr (cs, w') \<Longrightarrow> amount w' + todo cost cs \<le> amount w"
  "reduce_collection_use ui uo cd w = Inr (cs, w') \<Longrightarrow> amount w' + todo cost cs \<le> amount w"
  "allreduce_use u cd tag w = Inr (cs, w') \<Longrightarrow> amount w' + todo cost cs \<le> amount w"
proof -
  show "publish_use u d w = Inr (cs, w') \<Longrightarrow> amount w' + todo cost cs \<le> amount w"
    by (auto simp: publish_use_def publish_at_entry_def set_source_flow_def dest!: makers)
  show "reduce_collection_use ui uo cd w = Inr (cs, w') \<Longrightarrow> amount w' + todo cost cs \<le> amount w"
    by (auto simp: reduce_collection_use_def dest!: makers)
  show "allreduce_use u cd tag w = Inr (cs, w') \<Longrightarrow> amount w' + todo cost cs \<le> amount w"
    by (auto simp: allreduce_use_def evaluate_or_evaluate_first_def contribute_more_def contribute_first_def then_do_def
      push_input_use_def update_invocation_def make_invocation_def set_collectives_def Let_def
      split: option.splits prod.splits dest!: makers)
qed

lemma api: "run_api E me a w = Inr (cs, w') \<Longrightarrow> amount w' + todo cost cs \<le> amount w"
  by (auto simp: run_api_def user_code_def split: api.splits dest!: uses tasks communication)

lemma action:
  "run_action E me a w = Inr (cs, w') \<Longrightarrow> ordinary_action a \<Longrightarrow> amount w' + todo cost cs \<le> amount w"
  by (cases a)
    (auto simp: run_action_def run_fetched_def run_publish_copy_def run_collective_decrement_def run_contribute_def
      run_contribute_after_anti_def run_contribute_reduce_def run_allreduce_done_def run_reduce_in_ready_def
      run_reduce_anti_ready_def make_cblk_def update_invocation_def comp_def Let_def split: option.splits dest!: makers operations)

text \<open>A step, and a round of the work loop, which goes on or takes a message and stops the worker.\<close>

lemma step:
  assumes "step E me drawn c w = Inr (cs, w')" and "ordinary c"
  shows "amount w' + todo cost cs \<le> amount w"
  using assms
  by (cases c)
    (auto simp: step_def run_ignoring_message_def join_worker_def erase_collective_def set_collectives_def update_invocation_def Let_def
      dest: registration uses tasks operations pending(1) create_tasks api action makers run_operation)

lemma steal:
  assumes "try_to_steal_work E me drawn w = Inr (cs, w')" and "no_loose_join w"
  shows "amount w' + todo cost cs \<le> amount w"
proof (cases "en_stealing E")
  case True
  with assms obtain v where v: "worker_index (steal_from drawn me (crew w)) w = Inr v"
    by (auto simp: try_to_steal_work_def)
  then have "v < crew w" by (auto simp: worker_index_def split: if_splits)
  with assms True v show ?thesis
    by (cases "wk_ready (w_workers w ! v)")
      (fastforce simp: try_to_steal_work_def then_do_def run_ignoring_message_def split: if_splits
        dest: stolen_ordinary take run_operation)+
qed (use assms in \<open>auto simp: try_to_steal_work_def\<close>)

lemma loop:
  assumes "work_loop_round E me drawn w = Inr (cs, w')" and "no_loose_join w"
  obtains (goes_on) cs1 where "cs = cs1 @ [CLoop]" "amount w' + todo cost cs1 \<le> amount w"
      "map wk_stopped (w_workers w') = map wk_stopped (w_workers w)"
  | (message) k rest where "cs = []" "me < crew w" "wk_ready (w_workers w ! me) = SpecialMessage k # rest"
      "w' = add_dorment 1 (update_worker me (\<lambda>wk. wk\<lparr>wk_stopped := True\<rparr>) (add_dorment (- 1) (set_ready me rest w)))"
  | (joins) s rest where "cs = map CJoin [1..<crew w] @ [CDorment, CLoop]" "me < crew w"
      "wk_ready (w_workers w ! me) = CallableOperation JoinWorkers s # rest" "w' = add_dorment (- 1) (set_ready me rest w)"
proof -
  from assms have me: "me < crew w" by (auto simp: work_loop_round_def worker_at_def)
  show ?thesis
  proof (cases "wk_ready (w_workers w ! me)")
    case Nil
    with assms me obtain cs1 where "try_to_steal_work E me drawn w = Inr (cs1, w')" "cs = cs1 @ [CLoop]"
      by (auto simp: work_loop_round_def worker_at_def then_do_def)
    with assms(2) steal [of E me drawn w cs1 w'] steal_settings [of E me drawn w cs1 w']
      flags_split [of "w_workers w'" "w_workers w"] show ?thesis by (intro goes_on) simp_all
  next
    case (Cons op rest)
    let ?w1 = "add_dorment (- 1) (set_ready me rest w)"
    from Cons assms(1) me obtain b cs1 w1
      where r: "run_operation me op ?w1 = Inr (b, cs1, w1)"
        and e: "if b then cs = [] \<and> w' = add_dorment 1 (update_worker me (\<lambda>wk. wk\<lparr>wk_stopped := True\<rparr>) w1)
               else cs = cs1 @ [CDorment, CLoop] \<and> w' = w1"
      by (auto simp: work_loop_round_def worker_at_def split: if_splits)
    consider k where "op = SpecialMessage k" | s where "op = CallableOperation JoinWorkers s" | "\<not> closing_op op"
      by (cases op rule: closing_op.cases) simp_all
    then show ?thesis
    proof cases
      case 1
      with r have "b" "w1 = ?w1" by (auto simp: run_operation_def split: message_kind.splits)
      with 1 e me Cons show ?thesis by (intro message) simp_all
    next
      case 2
      with r have "\<not> b" "w1 = ?w1" "cs1 = map CJoin [1..<crew w]"
        by (auto simp: run_operation_def set_ready_def update_worker_def add_dorment_def)
      with 2 e me Cons show ?thesis by (intro joins) simp_all
    next
      case 3
      then have "\<not> b" using run_operation_ordinary [OF r] by simp
      with run_operation [OF r 3] take [OF me Cons 3] run_operation_settings [OF r] flags_split [of "w_workers w1" "w_workers w"] e show ?thesis
        by (intro goes_on [of "cs1 @ [CDorment]"]) simp_all
    qed
  qed
qed

end

section \<open>Quantities that are kept\<close>

lemma todo_uminus: "todo (\<lambda>c. - f c) cs = - todo f cs" for f :: "cmd \<Rightarrow> int"
  by (induction cs) simp_all

locale kept = below: quantity amount cost + above: quantity "\<lambda>w. - amount w" "\<lambda>c. - cost c"
  for amount :: "'d world \<Rightarrow> int" and cost :: "cmd \<Rightarrow> int"
begin

lemma step_keeps:
  assumes "step E me drawn c w = Inr (cs, w')" and "ordinary c"
  shows "amount w' + todo cost cs = amount w"
  using below.step [OF assms] above.step [OF assms] by (simp add: todo_uminus)

lemma loop_keeps:
  assumes "work_loop_round E me drawn w = Inr (cs, w')" and "no_loose_join w"
  obtains (goes_on) cs1 where "cs = cs1 @ [CLoop]" "amount w' + todo cost cs1 = amount w"
      "map wk_stopped (w_workers w') = map wk_stopped (w_workers w)"
  | (message) k rest where "cs = []" "me < crew w" "wk_ready (w_workers w ! me) = SpecialMessage k # rest"
      "w' = add_dorment 1 (update_worker me (\<lambda>wk. wk\<lparr>wk_stopped := True\<rparr>) (add_dorment (- 1) (set_ready me rest w)))"
  | (joins) s rest where "cs = map CJoin [1..<crew w] @ [CDorment, CLoop]" "me < crew w"
      "wk_ready (w_workers w ! me) = CallableOperation JoinWorkers s # rest" "w' = add_dorment (- 1) (set_ready me rest w)"
  using assms
proof (cases rule: below.loop)
  case below: (goes_on cs1)
  from assms show ?thesis
  proof (cases rule: above.loop)
    case (goes_on cs2)
    with below that(1) [of cs1] show ?thesis by (simp add: todo_uminus)
  qed (use that in blast)+
qed (use that in blast)+

end

lemma keptI:
  fixes amount :: "'d world \<Rightarrow> int"
  assumes "\<And>w w'. w_events w' = w_events w \<Longrightarrow> map wk_ready (w_workers w') = map wk_ready (w_workers w) \<Longrightarrow> amount w' = amount w"
    and "\<And>k w e w'. new_event k w = (e, w') \<Longrightarrow> amount w' = amount w"
    and "\<And>e k w w'. advance_count e k w = Inr w' \<Longrightarrow> amount w' = amount w"
    and "\<And>e w cs w'. decrement_count e w = Inr (cs, w') \<Longrightarrow> amount w' + todo cost cs = amount w"
    and "\<And>e a w cs w'. attach_action e a w = Inr (cs, w') \<Longrightarrow> ordinary_action a \<Longrightarrow> amount w' + todo cost cs = amount w"
    and "\<And>i op w w'. emplace_ready i op w = Inr w' \<Longrightarrow> \<not> closing_op op \<Longrightarrow> amount w' = amount w"
    and "\<And>i w op rest. i < crew w \<Longrightarrow> wk_ready (w_workers w ! i) = op # rest \<Longrightarrow> \<not> closing_op op
      \<Longrightarrow> amount (set_ready i rest w) = amount w"
    and "\<And>c. ordinary c \<Longrightarrow> cost c = 0"
  shows "kept amount cost"
proof unfold_locales
  fix w w' :: "'d world"
  show "w_events w' = w_events w \<Longrightarrow> map wk_ready (w_workers w') = map wk_ready (w_workers w) \<Longrightarrow> amount w' = amount w"
    and "w_events w' = w_events w \<Longrightarrow> map wk_ready (w_workers w') = map wk_ready (w_workers w) \<Longrightarrow> - amount w' = - amount w"
    using assms(1) [of w' w] by simp_all
qed (use assms(2-8) in \<open>fastforce simp: todo_uminus\<close>)+

text \<open>A tally that counts nothing ordinary is kept.\<close>

locale signal_tally = tally of_op of_action of_cmd
  for of_op :: "ready_op \<Rightarrow> nat" and of_action :: "action \<Rightarrow> nat" and of_cmd :: "cmd \<Rightarrow> nat" +
  assumes counts_closing: "\<not> closing_op op \<Longrightarrow> of_op op = 0"
    and ordinary_free: "ordinary c \<Longrightarrow> of_cmd c = 0"
begin

lemma int_todo: "todo (\<lambda>c. int (of_cmd c)) cs = int (todo of_cmd cs)"
  by (induction cs) simp_all

lemma taken:
  "wk_ready (w_workers w ! i) = op # ops \<Longrightarrow> i < crew w
    \<Longrightarrow> waiting of_op of_action (set_ready i ops w) + of_op op = waiting of_op of_action w"
  by (rule set_ready_waiting)

lemmas kept_by = new_event_waiting advance_waiting decrement_waiting attach_waiting emplace_waiting taken

lemma action_free: "ordinary_action a \<Longrightarrow> of_action a = 0"
  using ordinary_free [of "CAction a"] of_cmd_action by simp

end

sublocale signal_tally < kept "\<lambda>w. int (waiting of_op of_action w)" "\<lambda>c. int (of_cmd c)"
proof (rule keptI, goal_cases)
  case 1 then show ?case using waiting_cong by simp
qed (use ordinary_free in \<open>auto simp: int_todo action_free counts_closing simp flip: of_nat_add dest!: kept_by\<close>)

context signal_tally
begin

lemma tally_step:
  assumes "step E me drawn c w = Inr (cs, w')" and "ordinary c"
  shows "waiting of_op of_action w' + todo of_cmd cs = waiting of_op of_action w"
  using step_keeps [OF assms] by (simp add: int_todo)

end

end
