(* ===== verification/Shutdown.thy ===== *)
theory Shutdown
  imports Ordinary Placement
begin

text \<open>
  How the backend stops: the shutdown action, which waits for the shutdown counter, sends every worker
  one message, and a worker's loop returns when it takes one. For each worker there is at every moment
  exactly one of these: the action still to be run, the message in the worker's queue, or the worker that
  has stopped. So no worker can have stopped before the action was run, that is before the counter
  triggered, and none is left behind.
\<close>

section \<open>What is counted\<close>

text \<open>The shutdown actions that have not run.\<close>

definition pending_action :: "action \<Rightarrow> nat" where
  "pending_action a = (if shuts_down a then 1 else 0)"

fun pending_cmd :: "cmd \<Rightarrow> nat" where
  "pending_cmd (CAction a) = pending_action a"
| "pending_cmd (CAttach e a) = pending_action a"
| "pending_cmd _ = 0"

lemma pending_ordinary: "ordinary_action a \<Longrightarrow> pending_action a = 0"
  by (cases a) (simp_all add: pending_action_def)

interpretation pending: signal_tally "\<lambda>op. 0" pending_action pending_cmd
proof (unfold_locales, goal_cases)
  case (3 c) then show ?case by (cases c) (auto simp: pending_ordinary)
qed simp_all

abbreviation pending_in :: "'d world \<Rightarrow> nat" where
  "pending_in w \<equiv> waiting (\<lambda>op. 0) pending_action w"

text \<open>
  What never happens: an operation that closes the backend down and is carried around like another one,
  or is up for stealing, and a command that is about to attach the shutdown action.
\<close>

fun odd_op :: "ready_op \<Rightarrow> nat" where
  "odd_op (CallableOperation JoinWorkers True) = 1"
| "odd_op _ = 0"

fun odd_action :: "action \<Rightarrow> nat" where
  "odd_action (EnqueueAction op) = (if closing_op op then 1 else 0)"
| "odd_action _ = 0"

fun odd_cmd :: "cmd \<Rightarrow> nat" where
  "odd_cmd (CAction a) = odd_action a"
| "odd_cmd (CAttach e a) = odd_action a + pending_action a"
| "odd_cmd (CEnqueueOrRun p op i allow) = (if closing_op op then 1 else 0)"
| "odd_cmd (CStackRun op) = (if closing_op op then 1 else 0)"
| "odd_cmd (CRun op) = (if closing_op op then 1 else 0)"
| "odd_cmd _ = 0"

lemma odd_ordinary: "ordinary_action a \<Longrightarrow> odd_action a = 0"
  by (cases a) simp_all

interpretation odds: signal_tally odd_op odd_action odd_cmd
proof (unfold_locales, goal_cases)
  case (2 op) then show ?case by (cases op rule: odd_op.cases) simp_all
next
  case (3 c) then show ?case by (cases c) (auto simp: odd_ordinary pending_ordinary)
qed simp_all

abbreviation odd_in :: "'d world \<Rightarrow> nat" where
  "odd_in w \<equiv> waiting odd_op odd_action w"

text \<open>The loops that a thread is in or will be in, and the joins.\<close>

fun loop_cmd :: "cmd \<Rightarrow> nat" where
  "loop_cmd CSpinUp = 1"
| "loop_cmd CLoopStart = 1"
| "loop_cmd CLoop = 1"
| "loop_cmd _ = 0"

fun join_cmd :: "cmd \<Rightarrow> nat" where
  "join_cmd (CJoin i) = 1"
| "join_cmd _ = 0"

interpretation loops: signal_tally "\<lambda>op. 0" "\<lambda>a. 0" loop_cmd
proof (unfold_locales, goal_cases)
  case (3 c) then show ?case by (cases c) simp_all
qed simp_all

interpretation joins: signal_tally "\<lambda>op. 0" "\<lambda>a. 0" join_cmd
proof (unfold_locales, goal_cases)
  case (3 c) then show ?case by (cases c) simp_all
qed simp_all

text \<open>The messages in the queue of a worker, together with the pending actions.\<close>

fun is_message :: "ready_op \<Rightarrow> bool" where
  "is_message (SpecialMessage k) = True"
| "is_message _ = False"

lemma message_closing [simp]: "\<not> closing_op op \<Longrightarrow> \<not> is_message op"
  by (cases op) simp_all

definition mails :: "nat \<Rightarrow> 'd world \<Rightarrow> nat" where
  "mails i w = (if i < crew w then length (filter is_message (wk_ready (w_workers w ! i))) else 0)"

lemma mails_cong: "map wk_ready (w_workers w') = map wk_ready (w_workers w) \<Longrightarrow> mails i w' = mails i w"
proof -
  assume eq: "map wk_ready (w_workers w') = map wk_ready (w_workers w)"
  then have crew: "crew w' = crew w" by (rule map_eq_imp_length_eq)
  have "wk_ready (w_workers w' ! i) = wk_ready (w_workers w ! i)" if "i < crew w"
    using arg_cong [OF eq, of "\<lambda>qs. qs ! i"] that crew by simp
  with crew show "mails i w' = mails i w" by (simp add: mails_def)
qed

lemma mails_events [simp]: "mails i (w\<lparr>w_events := evs\<rparr>) = mails i w"
  by (simp add: mails_def)

lemma mails_emplace:
  "emplace_ready j op w = Inr w' \<Longrightarrow> mails i w' = mails i w + (if i = j \<and> is_message op then 1 else 0)"
  using emplace_ready_frame [of j op w w'] by (auto simp: mails_def nth_list_update)

lemma mails_take:
  assumes "j < crew w" and "wk_ready (w_workers w ! j) = op # rest"
  shows "mails i (set_ready j rest w) + (if i = j \<and> is_message op then 1 else 0) = mails i w"
  using assms by (auto simp: mails_def set_ready_def update_worker_def nth_list_update)

lemma mails_unchanged:
  "new_event k w = (e, w') \<Longrightarrow> mails i w' = mails i w"
  "advance_count e k w = Inr w' \<Longrightarrow> mails i w' = mails i w"
  "decrement_count e w = Inr (cs, w') \<Longrightarrow> mails i w' = mails i w"
  "attach_action e a w = Inr (cs, w') \<Longrightarrow> mails i w' = mails i w"
  by (auto dest!: frame split: if_splits)

abbreviation posts :: "nat \<Rightarrow> 'd world \<Rightarrow> int" where
  "posts i w \<equiv> int (mails i w) + int (pending_in w)"

interpretation mail: kept "posts i" "\<lambda>c. int (pending_cmd c)" for i
proof (rule keptI, goal_cases)
  case (1 w w') then show ?case using mails_cong [OF 1(2)] pending.waiting_cong [OF 1] by simp
next
  case (2 k w e w') then show ?case
    using mails_unchanged(1) [OF 2] pending.new_event_waiting [OF 2] by simp
next
  case (3 e k w w') then show ?case
    using mails_unchanged(2) [OF 3] pending.advance_waiting [OF 3] by simp
next
  case (4 e w cs w') then show ?case
    using mails_unchanged(3) [OF 4] pending.decrement_waiting [OF 4] by (simp add: pending.int_todo)
next
  case (5 e a w cs w') then show ?case
    using mails_unchanged(4) [OF 5(1)] pending.attach_waiting [OF 5(1)] by (simp add: pending.int_todo pending_ordinary)
next
  case (6 j op w w') then show ?case
    using mails_emplace [OF 6(1)] pending.emplace_waiting [OF 6(1)] by simp
next
  case (7 j w op rest) then show ?case
    using mails_take [OF 7(1,2), of i] pending.taken [OF 7(2,1)] by simp
next
  case (8 c) then show ?case using pending.ordinary_free by simp
qed

text \<open>The shutdown actions that wait for another event than the shutdown counter, the first event.\<close>

definition beyond_first :: "('x \<Rightarrow> bool) \<Rightarrow> 'x list list \<Rightarrow> nat" where
  "beyond_first p xss = length (filter p (concat (drop 1 xss)))"

lemma beyond_first_first [simp]: "beyond_first p (xss[0 := ys]) = beyond_first p xss"
  by (cases xss) (simp_all add: beyond_first_def)

lemma beyond_first_update:
  assumes "length (filter p ys) \<le> length (filter p (xss ! k))"
  shows "beyond_first p (xss[k := ys]) \<le> beyond_first p xss"
proof (cases "0 < k \<and> k < length xss")
  case True
  then obtain j where j: "k = Suc j" by (cases k) auto
  let ?xs = "drop 1 xss"
  have l: "j < length ?xs" and n: "?xs ! j = xss ! k" using True j by simp_all
  have "length (filter p (concat (?xs[j := ys]))) \<le> length (filter p (concat (take j ?xs @ ?xs ! j # drop (Suc j) ?xs)))"
    using assms unfolding upd_conv_take_nth_drop [OF l] n by simp
  also have "take j ?xs @ ?xs ! j # drop (Suc j) ?xs = ?xs" using id_take_nth_drop [OF l] by simp
  finally show ?thesis by (simp add: beyond_first_def j drop_update_swap)
qed (auto simp: list_update_beyond not_less)

definition misplaced :: "'d world \<Rightarrow> nat" where
  "misplaced w = beyond_first shuts_down (map ev_actions (w_events w))"

lemma odd_nonneg: "0 \<le> todo (\<lambda>c. int (odd_cmd c)) cs"
  by (simp add: odds.int_todo)

lemma misplaced_update:
  "length (filter shuts_down (ev_actions ev)) \<le> length (filter shuts_down (ev_actions (w_events w ! e)))
    \<Longrightarrow> e < length (w_events w) \<Longrightarrow> misplaced (w\<lparr>w_events := (w_events w)[e := ev]\<rparr>) \<le> misplaced w"
  by (simp add: misplaced_def map_update beyond_first_update)

interpretation places: quantity "\<lambda>w. int (misplaced w) + int (odd_in w)" "\<lambda>c. int (odd_cmd c)"
proof (unfold_locales, goal_cases)
  case (1 w' w) then show ?case using odds.waiting_cong [OF 1] by (simp add: misplaced_def)
next
  case (2 k w e w')
  then show ?case using odds.new_event_waiting [OF 2] by (cases "w_events w") (auto simp: misplaced_def beyond_first_def new_event_def)
next
  case (3 e k w w')
  have "misplaced w' \<le> misplaced w" using advance_count_frame [OF 3] by (auto intro: misplaced_update)
  then show ?case using odds.advance_waiting [OF 3] by simp
next
  case (4 e w cs w')
  have "misplaced w' \<le> misplaced w"
    using decrement_count_frame [OF 4] by (auto split: if_splits) (rule misplaced_update; simp)+
  then show ?case using odds.decrement_waiting [OF 4] by (simp add: odds.int_todo)
next
  case (5 e a w cs w')
  then have "\<not> shuts_down a" by (cases a) simp_all
  then have "misplaced w' \<le> misplaced w"
    using attach_action_frame [OF 5(1)] by (auto split: if_splits) (rule misplaced_update; simp)+
  then show ?case using odds.attach_waiting [OF 5(1)] odd_ordinary [OF 5(2)] by (simp add: odds.int_todo)
next
  case (6 i op w w')
  then show ?case using emplace_ready_frame [OF 6(1)] odds.emplace_waiting [OF 6(1)] odds.counts_closing [OF 6(2)]
    by (auto simp: misplaced_def)
next
  case (7 i w op rest)
  then show ?case using odds.taken [OF 7(2,1)] by (simp add: misplaced_def set_ready_def update_worker_def)
next
  case (8 c) then show ?case using odds.ordinary_free by simp
qed

text \<open>The operation that joins the workers, on another queue than the first worker's.\<close>

fun is_join :: "ready_op \<Rightarrow> bool" where
  "is_join (CallableOperation JoinWorkers s) = True"
| "is_join _ = False"

lemma join_closing [simp]: "\<not> closing_op op \<Longrightarrow> \<not> is_join op"
  by (cases op rule: is_join.cases) simp_all

definition strangers :: "'d world \<Rightarrow> nat" where
  "strangers w = beyond_first is_join (map wk_ready (w_workers w))"

lemma strangers_emplace:
  assumes "emplace_ready i op w = Inr w'"
  shows "\<not> is_join op \<or> i = 0 \<Longrightarrow> strangers w' \<le> strangers w"
proof -
  have "map wk_ready (w_workers w') = (map wk_ready (w_workers w))[i := wk_ready (w_workers w ! i) @ [op]]"
    and "i < crew w"
    using emplace_ready_frame [OF assms] by (simp_all add: map_update)
  moreover assume "\<not> is_join op \<or> i = 0"
  ultimately show ?thesis by (auto simp: strangers_def intro: beyond_first_update)
qed

lemma strangers_take:
  assumes "wk_ready (w_workers w ! i) = op # rest"
  shows "strangers (set_ready i rest w) \<le> strangers w"
proof (cases "i < crew w")
  case True
  have "map wk_ready (w_workers (set_ready i rest w)) = (map wk_ready (w_workers w))[i := rest]"
    by (simp add: set_ready_def update_worker_def map_update)
  with True assms show ?thesis by (simp add: strangers_def beyond_first_update)
qed (simp add: set_ready_def update_worker_def list_update_beyond strangers_def)

lemma strangers_member:
  assumes "strangers w = 0" and "0 < i" and "i < crew w"
  shows "CallableOperation JoinWorkers s \<notin> set (wk_ready (w_workers w ! i))"
proof -
  have "wk_ready (w_workers w ! i) \<in> set (drop 1 (map wk_ready (w_workers w)))"
    using assms(2,3) by (auto simp: in_set_conv_nth intro!: exI [of _ "i - 1"])
  with assms(1) show ?thesis by (force simp: strangers_def beyond_first_def filter_empty_conv)
qed

interpretation strangers: quantity "\<lambda>w. int (strangers w) + int (odd_in w)" "\<lambda>c. int (odd_cmd c)"
proof (unfold_locales, goal_cases)
  case (1 w' w) then show ?case using odds.waiting_cong [OF 1] by (simp add: strangers_def)
next
  case (2 k w e w')
  then show ?case using odds.new_event_waiting [OF 2] new_event_frame [OF 2] by (auto simp: strangers_def)
next
  case (3 e k w w')
  show ?case using odds.advance_waiting [OF 3] advance_count_frame [OF 3] by (auto simp: strangers_def)
next
  case (4 e w cs w')
  have "strangers w' = strangers w" using decrement_count_frame [OF 4] by (auto simp: strangers_def split: if_splits)
  then show ?case using odds.decrement_waiting [OF 4] by (simp add: odds.int_todo)
next
  case (5 e a w cs w')
  have "strangers w' = strangers w" using attach_action_frame [OF 5(1)] by (auto simp: strangers_def split: if_splits)
  then show ?case using odds.attach_waiting [OF 5(1)] odd_ordinary [OF 5(2)] by (simp add: odds.int_todo)
next
  case (6 i op w w')
  then show ?case using strangers_emplace [OF 6(1)] odds.emplace_waiting [OF 6(1)] odds.counts_closing [OF 6(2)] by simp
next
  case (7 i w op rest)
  then show ?case using odds.taken [OF 7(2,1)] strangers_take [OF 7(2)] by simp
next
  case (8 c) then show ?case using odds.ordinary_free by simp
qed

section \<open>The commands that are not ordinary\<close>

lemma odd_cases:
  assumes "odd_cmd c = 0"
  obtains (ordinary) "ordinary c" | (start) "c = CSpinUp \<or> c = CLoopStart" | (loop) "c = CLoop" | (join) i where "c = CJoin i"
  | (shuts_down) a where "c = CAction a" "shuts_down a"
proof (cases "ordinary c \<or> c = CSpinUp \<or> c = CLoopStart \<or> c = CLoop \<or> (\<exists>i. c = CJoin i) \<or> (\<exists>a. c = CAction a \<and> shuts_down a)")
  case False
  have "odd_action a = 0 \<longleftrightarrow> ordinary_action a \<or> shuts_down a" for a by (cases a) (simp_all split: if_splits)
  moreover have "ordinary_action a" if "odd_action a = 0" "pending_action a = 0" for a
    using that by (cases a) (simp_all add: pending_action_def split: if_splits)
  ultimately show ?thesis using False assms by (cases c) (auto split: if_splits)
qed (use that in blast)

lemma emplace_message_shape:
  assumes "emplace_all is (SpecialMessage k) w = Inr w'"
  shows "w_events w' = w_events w" and "crew w' = crew w" and "odd_in w' = odd_in w" and "strangers w' \<le> strangers w"
    and "mails i w' = mails i w + count_list is i"
proof -
  have "w_events w' = w_events w \<and> crew w' = crew w \<and> odd_in w' = odd_in w \<and> strangers w' \<le> strangers w
      \<and> mails i w' = mails i w + count_list is i"
    using assms
  proof (induction "is" arbitrary: w)
    case (Cons j "is")
    then obtain w1 where e: "emplace_ready j (SpecialMessage k) w = Inr w1" and r: "emplace_all is (SpecialMessage k) w1 = Inr w'"
      by auto
    show ?case
      using Cons.IH [OF r] emplace_ready_frame [OF e] odds.emplace_waiting [OF e] strangers_emplace [OF e]
        mails_emplace [OF e, of i] by auto
  qed simp
  then show "w_events w' = w_events w" "crew w' = crew w" "odd_in w' = odd_in w" "strangers w' \<le> strangers w"
    "mails i w' = mails i w + count_list is i" by simp_all
qed

lemma count_upt: "i < n \<Longrightarrow> count_list [0..<n] i = 1"
  by (induction n) (auto simp: less_Suc_eq)

lemma shutdown_shape:
  assumes "run_action E me a w = Inr (cs, w')" and "shuts_down a"
  shows "cs = []" and "w_events w' = w_events w" and "odd_in w' = odd_in w" and "strangers w' \<le> strangers w"
    and "i < crew w \<Longrightarrow> mails i w' = mails i w + 1"
proof -
  from assms consider "run_shutdown_action w = Inr (cs, w')" | "run_region_shutdown_action w = Inr (cs, w')"
    by (cases a) (simp_all add: run_action_def)
  then have "cs = [] \<and> w_events w' = w_events w \<and> odd_in w' = odd_in w \<and> strangers w' \<le> strangers w
      \<and> (i < crew w \<longrightarrow> mails i w' = mails i w + 1)"
  proof cases
    case 1
    then show ?thesis using emplace_message_shape [of "[0..<crew w]" AllTasksDone w w'] by (auto simp: run_shutdown_action_def count_upt)
  next
    case 2
    then obtain w1 w2 where e: "emplace_ready 0 (CallableOperation JoinWorkers False) w = Inr w1"
      and r: "emplace_all [0..<crew w1] (SpecialMessage AllTasksDone) w1 = Inr w2"
      and w': "cs = []" "w' = w2\<lparr>w_called := w_called w2 @ w_callbacks w2\<rparr>"
      by (auto simp: run_region_shutdown_action_def)
    have "odd_in w' = odd_in w2" "mails i w' = mails i w2" "strangers w' = strangers w2" "w_events w' = w_events w2"
      unfolding w' by (rule odds.waiting_cong mails_cong | simp add: strangers_def)+
    then show ?thesis
      using emplace_message_shape [OF r] emplace_ready_frame [OF e] odds.emplace_waiting [OF e] strangers_emplace [OF e]
        mails_emplace [OF e, of i] by (auto simp: count_upt w'(1))
  qed
  then show "cs = []" "w_events w' = w_events w" "odd_in w' = odd_in w" "strangers w' \<le> strangers w"
    and "i < crew w \<Longrightarrow> mails i w' = mails i w + 1" by simp_all
qed

lemma start_shape:
  assumes "step E me drawn c w = Inr (cs, w')" and "c = CSpinUp \<or> c = CLoopStart"
  shows "cs = [CLoopStart] \<or> cs = [CLoop]"
    and "w_events w' = w_events w" and "map wk_ready (w_workers w') = map wk_ready (w_workers w)"
proof -
  have "map wk_ready (take 1 ws @ map (\<lambda>wk. wk\<lparr>wk_thread := True\<rparr>) (drop 1 ws)) = map wk_ready ws" for ws
    by (cases ws) simp_all
  with assms show "cs = [CLoopStart] \<or> cs = [CLoop]" "w_events w' = w_events w"
    "map wk_ready (w_workers w') = map wk_ready (w_workers w)"
    by (auto simp: step_def spin_up_worker_threads_def work_loop_start_def add_dorment_def)
qed

lemma join_shape: "step E me drawn (CJoin i) w = Inr (cs, w') \<Longrightarrow> cs = [] \<and> w' = w"
  by (auto simp: step_def join_worker_def)

text \<open>A round of the loop in which the worker stops, and one in which it joins the others.\<close>

lemma message_shape:
  assumes "wk_ready (w_workers w ! me) = SpecialMessage k # rest" and "me < crew w"
    and "w' = add_dorment 1 (update_worker me (\<lambda>wk. wk\<lparr>wk_stopped := True\<rparr>) (add_dorment (- 1) (set_ready me rest w)))"
  shows "w_events w' = w_events w" and "odd_in w' = odd_in w" and "strangers w' \<le> strangers w"
    and "mails i w' + (if i = me then 1 else 0) = mails i w"
    and "map wk_stopped (w_workers w') = (map wk_stopped (w_workers w))[me := True]"
proof -
  let ?w1 = "set_ready me rest w"
  have same: "w_events w' = w_events ?w1" "map wk_ready (w_workers w') = map wk_ready (w_workers ?w1)"
    unfolding assms(3) by (simp_all add: add_dorment_def update_worker_def map_field_update)
  show "w_events w' = w_events w" using same(1) by (simp add: set_ready_def update_worker_def)
  show "odd_in w' = odd_in w" using odds.waiting_cong [OF same] odds.taken [OF assms(1,2)] by simp
  show "strangers w' \<le> strangers w" using strangers_take [OF assms(1)] same(2) by (simp add: strangers_def)
  show "mails i w' + (if i = me then 1 else 0) = mails i w"
    using mails_cong [OF same(2)] mails_take [OF assms(2,1), of i] by simp
  show "map wk_stopped (w_workers w') = (map wk_stopped (w_workers w))[me := True]"
    unfolding assms(3) using assms(2) by (simp add: add_dorment_def update_worker_def set_ready_def map_update)
qed

lemma joins_shape:
  assumes "wk_ready (w_workers w ! me) = CallableOperation JoinWorkers s # rest" and "me < crew w"
    and "w' = add_dorment (- 1) (set_ready me rest w)"
  shows "w_events w' = w_events w" and "odd_in w' \<le> odd_in w" and "strangers w' \<le> strangers w"
    and "mails i w' = mails i w" and "map wk_stopped (w_workers w') = map wk_stopped (w_workers w)"
proof -
  let ?w1 = "set_ready me rest w"
  have same: "w_events w' = w_events ?w1" "map wk_ready (w_workers w') = map wk_ready (w_workers ?w1)"
    unfolding assms(3) by (simp_all add: add_dorment_def)
  show "w_events w' = w_events w" using same(1) by (simp add: set_ready_def update_worker_def)
  show "odd_in w' \<le> odd_in w" using odds.waiting_cong [OF same] odds.taken [OF assms(1,2)] by simp
  show "strangers w' \<le> strangers w" using strangers_take [OF assms(1)] same(2) by (simp add: strangers_def)
  show "mails i w' = mails i w"
    using mails_cong [OF same(2)] mails_take [OF assms(2,1), of i] by simp
  show "map wk_stopped (w_workers w') = map wk_stopped (w_workers w)"
    unfolding assms(3) by (simp add: add_dorment_def update_worker_def set_ready_def map_field_update)
qed

section \<open>One step\<close>

lemma pending_events: "w_events w' = w_events w \<Longrightarrow> pending_in w' = pending_in w"
  by (simp add: waiting_def)

lemma pending_shuts: "shuts_down a \<Longrightarrow> pending_action a = 1"
  by (simp add: pending_action_def)

lemma odd_no_loose: "odd_in w = 0 \<Longrightarrow> no_loose_join w"
  by (fastforce simp: waiting_def no_loose_join_def)

text \<open>The loop of a thread, and its worker that has stopped.\<close>

abbreviation stopped_at :: "'d world \<Rightarrow> nat \<Rightarrow> nat" where
  "stopped_at w i \<equiv> of_bool (map wk_stopped (w_workers w) ! i)"

lemma step_odds:
  assumes s: "step E me drawn c w = Inr (cs, w')" and c: "odd_cmd c = 0" and "odd_in w = 0"
  shows "odd_in w' = 0" and "todo odd_cmd cs = 0"
proof -
  have "odd_in w' + todo odd_cmd cs \<le> odd_in w"
    using c
  proof (cases rule: odd_cases)
    case ordinary
    with odds.tally_step [OF s] show ?thesis by simp
  next
    case loop
    with s have "work_loop_round E me drawn w = Inr (cs, w')" by (simp add: step_def)
    from this odd_no_loose [OF assms(3)] show ?thesis
    proof (cases rule: odds.loop_keeps)
      case (goes_on cs1)
      then show ?thesis by (simp add: odds.int_todo)
    next
      case (message k rest)
      from message_shape(2) [OF message(3,2,4)] message(1) show ?thesis by simp
    next
      case (joins b rest)
      from joins_shape(2) [OF joins(3,2,4)] joins(1) show ?thesis by (simp add: comp_def)
    qed
  next
    case start
    from start_shape(1) [OF s this] odds.waiting_cong [OF start_shape(2,3) [OF s this]] show ?thesis by auto
  next
    case (join i)
    with s join_shape show ?thesis by fastforce
  next
    case (shuts_down a)
    with s shutdown_shape(1,3) [of E me a w cs w'] show ?thesis by (simp add: step_def)
  qed
  with assms(3) show "odd_in w' = 0" "todo odd_cmd cs = 0" by simp_all
qed

lemma step_misplaced:
  assumes s: "step E me drawn c w = Inr (cs, w')" and c: "odd_cmd c = 0" and "odd_in w = 0"
  shows "misplaced w' \<le> misplaced w"
  using c
proof (cases rule: odd_cases)
  case ordinary
  with places.step [OF s] odd_nonneg [of cs] assms(3) show ?thesis by simp
next
  case loop
  with s have "work_loop_round E me drawn w = Inr (cs, w')" by (simp add: step_def)
  from this odd_no_loose [OF assms(3)] show ?thesis
  proof (cases rule: places.loop)
    case (goes_on cs1)
    with odd_nonneg [of cs1] assms(3) show ?thesis by simp
  next
    case (message k rest)
    from message_shape(1) [OF message(3,2,4)] show ?thesis by (simp add: misplaced_def)
  next
    case (joins b rest)
    from joins_shape(1) [OF joins(3,2,4)] show ?thesis by (simp add: misplaced_def)
  qed
next
  case start
  from start_shape(2) [OF s this] show ?thesis by (simp add: misplaced_def)
next
  case (join i)
  with s join_shape show ?thesis by fastforce
next
  case (shuts_down a)
  with s shutdown_shape(2) [of E me a w cs w'] show ?thesis by (simp add: step_def misplaced_def)
qed

lemma step_strangers:
  assumes s: "step E me drawn c w = Inr (cs, w')" and c: "odd_cmd c = 0" and "odd_in w = 0"
  shows "strangers w' \<le> strangers w"
  using c
proof (cases rule: odd_cases)
  case ordinary
  with strangers.step [OF s] odd_nonneg [of cs] assms(3) show ?thesis by simp
next
  case loop
  with s have "work_loop_round E me drawn w = Inr (cs, w')" by (simp add: step_def)
  from this odd_no_loose [OF assms(3)] show ?thesis
  proof (cases rule: strangers.loop)
    case (goes_on cs1)
    with odd_nonneg [of cs1] assms(3) show ?thesis by simp
  next
    case (message k rest)
    from message_shape(3) [OF message(3,2,4)] show ?thesis .
  next
    case (joins b rest)
    from joins_shape(3) [OF joins(3,2,4)] show ?thesis .
  qed
next
  case start
  from start_shape(3) [OF s this] show ?thesis by (simp add: strangers_def)
next
  case (join i)
  with s join_shape show ?thesis by fastforce
next
  case (shuts_down a)
  with s shutdown_shape(4) [of E me a w cs w'] show ?thesis by (simp add: step_def)
qed

lemma step_posts:
  assumes s: "step E me drawn c w = Inr (cs, w')" and c: "odd_cmd c = 0" and "odd_in w = 0"
    and i: "i < crew w" and me: "c = CLoop \<Longrightarrow> stopped_at w me = 0"
  shows "mails i w' + pending_in w' + todo pending_cmd cs + stopped_at w' i
    = mails i w + pending_in w + pending_cmd c + stopped_at w i"
proof (cases "c = CLoop")
  case True
  with s have "work_loop_round E me drawn w = Inr (cs, w')" by (simp add: step_def)
  from this odd_no_loose [OF assms(3)] show ?thesis
  proof (cases rule: mail.loop_keeps [where i = i])
    case (goes_on cs1)
    with True show ?thesis by (simp add: pending.int_todo del: nth_map)
  next
    case (message k rest)
    note shape = message_shape [OF message(3,2,4)]
    have "stopped_at w' i = stopped_at w i + (if i = me then 1 else 0)"
      using i me [OF True] by (simp add: shape(5) nth_list_update del: nth_map)
    with shape(4) [of i] pending_events [OF shape(1)] message(1) True show ?thesis by (simp del: nth_map)
  next
    case (joins b rest)
    note shape = joins_shape [OF joins(3,2,4)]
    have "todo pending_cmd cs = 0" unfolding joins(1) by (simp add: comp_def)
    with shape(4) [of i] shape(5) pending_events [OF shape(1)] True show ?thesis by (simp del: nth_map)
  qed
next
  case False
  have flags: "map wk_stopped (w_workers w') = map wk_stopped (w_workers w)" using step_fixtures(2) [OF s False] .
  have "mails i w' + pending_in w' + todo pending_cmd cs = mails i w + pending_in w + pending_cmd c"
    using c
  proof (cases rule: odd_cases)
    case ordinary
    with mail.step_keeps [OF s, of i] pending.ordinary_free show ?thesis by (simp add: pending.int_todo)
  next
    case start
    from start_shape(1) [OF s this] start mails_cong [OF start_shape(3) [OF s this]]
      pending_events [OF start_shape(2) [OF s this]] show ?thesis by auto
  next
    case (join j)
    with s join_shape show ?thesis by fastforce
  next
    case (shuts_down a)
    with s have r: "run_action E me a w = Inr (cs, w')" by (simp add: step_def)
    show ?thesis
      using shutdown_shape(1) [OF r shuts_down(2)] shutdown_shape(5) [OF r shuts_down(2) i]
        pending_events [OF shutdown_shape(2) [OF r shuts_down(2)]] shuts_down by (simp add: pending_shuts)
  qed (use False in simp)
  then show ?thesis unfolding flags by simp
qed

lemma step_loops:
  assumes s: "step E me drawn c w = Inr (cs, w')" and c: "odd_cmd c = 0" and "odd_in w = 0"
    and me: "c = CLoop \<Longrightarrow> stopped_at w me = 0"
  shows "todo loop_cmd cs + stopped_at w' me = loop_cmd c + stopped_at w me"
    and "i \<noteq> me \<Longrightarrow> stopped_at w' i = stopped_at w i"
proof -
  have "todo loop_cmd cs + stopped_at w' me = loop_cmd c + stopped_at w me \<and> (i \<noteq> me \<longrightarrow> stopped_at w' i = stopped_at w i)"
  proof (cases "c = CLoop")
    case True
    with s have "work_loop_round E me drawn w = Inr (cs, w')" by (simp add: step_def)
    from this odd_no_loose [OF assms(3)] show ?thesis
    proof (cases rule: loops.loop_keeps)
      case (goes_on cs1)
      with True show ?thesis by (simp add: loops.int_todo waiting_def del: nth_map)
    next
      case (message k rest)
      with True me [OF True] show ?thesis unfolding message_shape(5) [OF message(3,2,4)] by (simp del: nth_map)
    next
      case (joins b rest)
      have "todo loop_cmd cs = 1" unfolding joins(1) by (simp add: comp_def)
      with True joins_shape(5) [OF joins(3,2,4)] show ?thesis by simp
    qed
  next
    case False
    have flags: "map wk_stopped (w_workers w') = map wk_stopped (w_workers w)" using step_fixtures(2) [OF s False] .
    have "todo loop_cmd cs = loop_cmd c"
      using c
    proof (cases rule: odd_cases)
      case ordinary
      with loops.tally_step [OF s] loops.ordinary_free show ?thesis by (simp add: waiting_def)
    next
      case start
      with start_shape(1) [OF s this] show ?thesis by auto
    next
      case (join j)
      with s join_shape show ?thesis by fastforce
    next
      case (shuts_down a)
      with s shutdown_shape(1) [of E me a w cs w'] show ?thesis by (simp add: step_def)
    qed (use False in simp)
    then show ?thesis unfolding flags by simp
  qed
  then show "todo loop_cmd cs + stopped_at w' me = loop_cmd c + stopped_at w me"
    and "i \<noteq> me \<Longrightarrow> stopped_at w' i = stopped_at w i" by blast+
qed

section \<open>Every run\<close>

text \<open>As long as the shutdown counter has not triggered, the shutdown action waits for it.\<close>

definition armed :: "'d world \<Rightarrow> bool" where
  "armed w \<longleftrightarrow> is_triggered shutdown_counter w
     \<or> (\<exists>a\<in>set (ev_actions (w_events w ! shutdown_counter)). shuts_down a)"

text \<open>A thread is in its loop, or will be, exactly as long as its worker has not stopped.\<close>

definition loops_once :: "'d config \<Rightarrow> bool" where
  "loops_once g \<longleftrightarrow> crew (cf_world g) \<le> length (cf_stacks g)
     \<and> (\<forall>i<crew (cf_world g). todo loop_cmd (cf_stacks g ! i) + stopped_at (cf_world g) i = 1)"

definition one_post :: "'d config \<Rightarrow> bool" where
  "one_post g \<longleftrightarrow> (\<forall>i<crew (cf_world g). mails i (cf_world g) + pending_in (cf_world g)
     + all_todo pending_cmd (cf_stacks g) + stopped_at (cf_world g) i = 1)"

definition stopping_inv :: "'d config \<Rightarrow> bool" where
  "stopping_inv g \<longleftrightarrow> odd_in (cf_world g) = 0 \<and> all_todo odd_cmd (cf_stacks g) = 0
     \<and> misplaced (cf_world g) = 0 \<and> strangers (cf_world g) = 0
     \<and> loops_once g \<and> one_post g \<and> armed (cf_world g)"

lemma fresh_world:
  assumes "w_workers w = create_workers n" and "w_events w = [\<lparr>ev_count = 1, ev_triggered = False, ev_actions = as\<rparr>]"
    and "as = [] \<or> as = [ShutdownAction] \<or> as = [RegionShutdownAction]"
  shows "crew w = n" and "i < n \<Longrightarrow> \<not> wk_stopped (w_workers w ! i)" and "mails i w = 0"
    and "pending_in w = length as" and "odd_in w = 0" and "misplaced w = 0" and "strangers w = 0"
    and "as \<noteq> [] \<Longrightarrow> armed w"
proof -
  have "map wk_ready (w_workers w) = replicate n []"
    using assms(1) by (simp add: create_workers_def new_worker_def comp_def map_replicate_const)
  then show "strangers w = 0" by (simp add: strangers_def beyond_first_def)
  show "crew w = n" "i < n \<Longrightarrow> \<not> wk_stopped (w_workers w ! i)" "mails i w = 0"
    using assms(1) by (auto simp: create_workers_def new_worker_def mails_def)
  show "pending_in w = length as" "odd_in w = 0" "misplaced w = 0" "as \<noteq> [] \<Longrightarrow> armed w"
    using assms by (auto simp: waiting_def create_workers_def new_worker_def comp_def pending_action_def misplaced_def
        beyond_first_def armed_def shutdown_counter_def)
qed

lemma fresh_loops:
  assumes "todo loop_cmd cs = 1" and "crew w = n" and "\<And>i. i < n \<Longrightarrow> \<not> wk_stopped (w_workers w ! i)"
  shows "loops_once \<lparr>cf_stacks = cs # map (\<lambda>_. [CLoopStart]) [1..<n], cf_world = w\<rparr>"
proof -
  have "todo loop_cmd ((cs # map (\<lambda>_. [CLoopStart]) [1..<n]) ! i) = 1" if "i < n" for i
    using that assms(1) by (cases i) simp_all
  with assms(2,3) show ?thesis by (auto simp: loops_once_def)
qed

lemma starts_stopping:
  assumes "starts g"
  shows "stopping_inv g"
  using assms unfolding starts_def
proof (elim conjE disjE exE)
  fix n uses handles t
  assume "top_level_config n uses handles t = Inr g"
  then obtain w where e: "emplace_ready 0 (ReadyTaskOperation t) (init_shutdown_counter (region_runtime n uses handles)) = Inr w"
    and g: "g = \<lparr>cf_stacks = (CSpinUp # wait_for_top_level_instance_to_shut_down w) # map (\<lambda>_. [CLoopStart]) [1..<n],
      cf_world = w\<rparr>"
    by (auto simp: top_level_config_def top_level_runtime_def)
  let ?w0 = "init_shutdown_counter (region_runtime n uses handles) :: 'a world"
  have "w_workers ?w0 = create_workers n" "w_events ?w0 = [\<lparr>ev_count = 1, ev_triggered = False, ev_actions = [ShutdownAction]\<rparr>]"
    by (simp_all add: init_shutdown_counter_def region_runtime_def shutdown_counter_def)
  note init = fresh_world [OF this, simplified]
  note frame = emplace_ready_frame [OF e]
  have crew: "crew w = n" and same: "w_events w = w_events ?w0" and up: "\<And>i. i < n \<Longrightarrow> \<not> wk_stopped (w_workers w ! i)"
    using frame init(1,2) by (auto simp: nth_list_update)
  have "loops_once g"
    unfolding g by (rule fresh_loops [OF _ crew up]) (simp_all add: wait_for_top_level_instance_to_shut_down_def comp_def)
  moreover have "mails i w = 0" for i using mails_emplace [OF e, of i] init(3) by simp
  moreover have "odd_in w = 0" "strangers w = 0"
    using odds.emplace_waiting [OF e] strangers_emplace [OF e] init(5,7) by simp_all
  moreover have "pending_in w = 1" "misplaced w = 0" "armed w"
    using pending_events [OF same] init(4,6,8) by (simp_all add: misplaced_def armed_def is_triggered_def same)
  ultimately show ?thesis
    using crew up by (simp add: stopping_inv_def one_post_def g wait_for_top_level_instance_to_shut_down_def comp_def)
next
  fix n uses handles callbacks body
  assume "region_config n uses handles callbacks body = Inr g"
  then obtain w0 cs0 w where w0: "w0 = fold register_quiescence_callback callbacks (region_runtime n uses handles)"
    and a: "attach_action shutdown_counter RegionShutdownAction w0 = Inr (cs0, w)"
    and g: "g = \<lparr>cf_stacks = (cs0 @ map CApi body @ [CDecrement shutdown_counter, CSpinUp])
      # map (\<lambda>_. [CLoopStart]) [1..<n], cf_world = w\<rparr>"
    by (auto simp: region_config_def with_active_runtime_instance_def then_do_def)
  have "w_events w0 = [\<lparr>ev_count = 1, ev_triggered = False, ev_actions = []\<rparr>] \<and> w_workers w0 = create_workers n"
    unfolding w0
    by (induction callbacks rule: rev_induct) (simp_all add: region_runtime_def register_quiescence_callback_def)
  with attach_action_frame [OF a] have cs0: "cs0 = []" and "w_workers w = create_workers n"
    "w_events w = [\<lparr>ev_count = 1, ev_triggered = False, ev_actions = [RegionShutdownAction]\<rparr>]"
    by (auto simp: shutdown_counter_def)
  note init = fresh_world [OF this(2,3), simplified]
  have "loops_once g"
    unfolding g cs0 by (rule fresh_loops [OF _ init(1,2)]) (simp_all add: comp_def)
  with init show ?thesis by (simp add: stopping_inv_def one_post_def g cs0 comp_def)
qed

lemma armed_kept:
  assumes "armed w" and "events_kept (w_events w) (w_events w')" and "shutdown_counter < length (w_events w)"
  shows "armed w'"
proof -
  from assms(2,3) have len: "shutdown_counter < length (w_events w')"
    and k: "ev_triggered (w_events w' ! shutdown_counter)
      \<or> \<not> ev_triggered (w_events w ! shutdown_counter)
        \<and> (\<exists>as. ev_actions (w_events w' ! shutdown_counter) = ev_actions (w_events w ! shutdown_counter) @ as)"
    by (auto simp: events_kept_def)
  with assms(1) show ?thesis by (auto simp: armed_def is_triggered_def)
qed



lemma reaches_stopping: "reaches E g \<Longrightarrow> stopping_inv g"
proof (induction rule: reaches_invariant)
  case (start g)
  then show ?case by (rule starts_stopping)
next
  case (step g g')
  from step.hyps(2) obtain i c cs drawn cs' w' where i: "i < length (cf_stacks g)" and top: "cf_stacks g ! i = c # cs"
    and s: "step E i drawn c (cf_world g) = Inr (cs', w')"
    and g': "g' = \<lparr>cf_stacks = (cf_stacks g)[i := cs' @ cs], cf_world = w'\<rparr>"
    by (auto elim!: disciplinedE)
  let ?w = "cf_world g"
  note pop = all_todo_pop [OF i top] and push = all_todo_push [OF i, of _ cs' cs]
  from step.IH have inv: "odd_in ?w = 0" "all_todo odd_cmd (cf_stacks g) = 0" "misplaced ?w = 0" "strangers ?w = 0"
      "loops_once g" "one_post g" "armed ?w"
    by (simp_all add: stopping_inv_def)
  have odd: "odd_cmd c = 0" and rest: "all_todo odd_cmd ((cf_stacks g)[i := cs]) = 0"
    using inv(2) pop [of odd_cmd] by simp_all
  have crew: "crew w' = crew ?w" using step_settings [OF s] by simp
  have loops: "todo loop_cmd (cf_stacks g ! j) + stopped_at ?w j = 1" if "j < crew ?w" for j
    using inv(5) that by (simp add: loops_once_def)
  have me: "stopped_at ?w i = 0" if "c = CLoop"
  proof -
    have "i < crew ?w" using s that by (auto simp: step_def work_loop_round_def worker_at_def)
    from loops [OF this] show ?thesis using top that by (simp del: nth_map)
  qed
  have "todo loop_cmd (cf_stacks g' ! j) + stopped_at w' j = 1" if "j < crew ?w" for j
    using loops [OF that] step_loops [OF s odd inv(1) me] top i by (cases "j = i") (simp_all add: g' del: nth_map)
  then have "loops_once g'" using inv(5) by (simp add: loops_once_def g' crew del: nth_map)
  moreover have "mails j w' + pending_in w' + all_todo pending_cmd (cf_stacks g') + stopped_at w' j = 1" if "j < crew ?w" for j
  proof -
    have "mails j ?w + pending_in ?w + all_todo pending_cmd (cf_stacks g) + stopped_at ?w j = 1"
      using inv(6) that by (simp add: one_post_def)
    with step_posts [OF s odd inv(1) that me] pop [of pending_cmd] push [of pending_cmd]
    show ?thesis by (simp add: g' del: nth_map)
  qed
  then have "one_post g'" by (simp add: one_post_def g' crew del: nth_map)
  moreover have "all_todo odd_cmd (cf_stacks g') = 0" "odd_in w' = 0"
    using step_odds [OF s odd inv(1)] rest push [of odd_cmd] by (simp_all add: g')
  moreover have "misplaced w' = 0" "strangers w' = 0"
    using step_misplaced [OF s odd inv(1)] step_strangers [OF s odd inv(1)] inv(3,4) by simp_all
  moreover have good: "good_flows ?w" "plain_event ?w shutdown_counter" using reaches_good [OF step.hyps(1)] by simp_all
  have "armed w'"
    by (rule armed_kept [of ?w]) (use inv(7) step_good_flows(1) [OF s good(1)] good(2) in
      \<open>auto simp: grows_def plain_event_def\<close>)
  ultimately show ?case by (simp add: stopping_inv_def g')
qed

section \<open>No worker too early, and none left behind\<close>

lemma counter_ok:
  assumes "reaches E g"
  shows "shutdown_counter < length (w_events (cf_world g))"
    and "is_triggered shutdown_counter (cf_world g) \<Longrightarrow> ev_actions (w_events (cf_world g) ! shutdown_counter) = []"
proof -
  have p: "plain_event (cf_world g) shutdown_counter" using reaches_good [OF assms] ..
  then show "shutdown_counter < length (w_events (cf_world g))" by (simp add: plain_event_def)
  show "ev_actions (w_events (cf_world g) ! shutdown_counter) = []" if "is_triggered shutdown_counter (cf_world g)"
    using reaches_balanced [OF assms, of shutdown_counter] p that
    by (auto simp: plain_event_def balanced_event_def is_triggered_def split: if_splits)
qed

lemma pending_armed:
  assumes "reaches E g" and "\<not> is_triggered shutdown_counter (cf_world g)"
  shows "0 < pending_in (cf_world g)"
proof -
  let ?w = "cf_world g" and ?acts = "ev_actions (w_events (cf_world g) ! shutdown_counter)"
  from reaches_stopping [OF assms(1)] assms(2) obtain a where a: "shuts_down a" "a \<in> set ?acts"
    by (auto simp: stopping_inv_def armed_def)
  have "1 \<le> pending_action a" using a(1) by (simp add: pending_shuts)
  also have "\<dots> \<le> sum_list (map pending_action ?acts)" using a(2) by (rule elem_le_sum_list_map)
  also have "\<dots> \<le> sum_list (map (\<lambda>ev. sum_list (map pending_action (ev_actions ev))) (w_events ?w))"
    using elem_le_sum_list_map [OF nth_mem [OF counter_ok(1) [OF assms(1)]], of "\<lambda>ev. sum_list (map pending_action (ev_actions ev))"] .
  finally show ?thesis by (simp add: waiting_def)
qed

lemma pending_none:
  assumes "reaches E g" and "is_triggered shutdown_counter (cf_world g)"
  shows "pending_in (cf_world g) = 0"
proof -
  let ?w = "cf_world g"
  have "pending_action a = 0" if "ev \<in> set (w_events ?w)" "a \<in> set (ev_actions ev)" for ev a
  proof -
    obtain e where e: "e < length (w_events ?w)" "ev = w_events ?w ! e" using \<open>ev \<in> _\<close> by (auto simp: in_set_conv_nth)
    have "e \<noteq> shutdown_counter" using counter_ok(2) [OF assms] that e by auto
    then have "ev \<in> set (drop 1 (w_events ?w))"
      using e by (auto simp: in_set_conv_nth shutdown_counter_def intro!: exI [of _ "e - 1"])
    moreover have "misplaced ?w = 0" using reaches_stopping [OF assms(1)] by (simp add: stopping_inv_def)
    ultimately show ?thesis
      using that(2) by (auto simp: misplaced_def beyond_first_def filter_empty_conv pending_action_def drop_map)
  qed
  then show ?thesis by (simp add: waiting_def)
qed

lemma reaches_post:
  assumes "reaches E g" and "i < length (w_workers (cf_world g))"
  shows "mails i (cf_world g) + pending_in (cf_world g) + all_todo pending_cmd (cf_stacks g) + stopped_at (cf_world g) i = 1"
    and "todo loop_cmd (cf_stacks g ! i) + stopped_at (cf_world g) i = 1"
  using reaches_stopping [OF assms(1)] assms(2) by (auto simp: stopping_inv_def one_post_def loops_once_def)

lemma stopped_triggered:
  assumes "reaches E g" and "wk \<in> set (w_workers (cf_world g))" and "wk_stopped wk"
  shows "is_triggered shutdown_counter (cf_world g)"
proof (rule ccontr)
  assume "\<not> ?thesis"
  from pending_armed [OF assms(1) this] have "0 < pending_in (cf_world g)" .
  moreover from assms(2,3) obtain i where "i < length (w_workers (cf_world g))" "stopped_at (cf_world g) i = 1"
    by (auto simp: in_set_conv_nth)
  ultimately show False using reaches_post(1) [OF assms(1), of i] by simp
qed

text \<open>
  C5. No worker stops while there is work: when the loop of any worker has returned, the shutdown counter
  has triggered and no task is queued on a worker, waits for an event, runs or is being registered, on any
  thread. A thread that has been joined has therefore left no task behind.
\<close>

theorem workers_stop_last:
  assumes "reaches E g" and "wk \<in> set (w_workers (cf_world g))" and "wk_stopped wk"
  shows "is_triggered shutdown_counter (cf_world g) \<and> no_task_left g"
  using stopped_triggered [OF assms] triggered_no_task_left [OF assms(1)] by blast

theorem workers_stop_last_witness:
  "\<exists>g. reaches sample_env g \<and> wk_stopped (w_workers (cf_world g) ! 0) \<and> no_task_left g"
proof -
  have "holds (\<lambda>g. w_workers (cf_world g) \<noteq> [] \<and> wk_stopped (w_workers (cf_world g) ! 0)) (sample_run 26)"
    by code_simp
  then obtain g where r: "reaches sample_env g" and g: "w_workers (cf_world g) \<noteq> []" "wk_stopped (w_workers (cf_world g) ! 0)"
    by (rule sample_run_reaches) blast
  have "w_workers (cf_world g) ! 0 \<in> set (w_workers (cf_world g))" using g(1) by simp
  from workers_stop_last [OF r this g(2)] r g(2) show ?thesis by blast
qed

end
