(* ===== verification/Startup.thy ===== *)
theory Startup
  imports Shutdown Arguments
begin

text \<open>
  From the command line to a running backend: \<open>Runtime::initialize_top_level_instance\<close>
  (\<open>src/src/runtime/runtime.cpp\<close>) and \<open>main\<close> (\<open>src/src/main/main.cpp\<close>). The frontend makes the top level
  task from the arguments that the backend leaves to it.
\<close>

definition initialize_top_level_instance ::
  "(string list \<Rightarrow> task) \<Rightarrow> use list \<Rightarrow> handle list \<Rightarrow> string list \<Rightarrow> rt_error + 'd world" where
  "initialize_top_level_instance darma_top_level_setup uses handles argv =
     bindE (parse_args argv) (\<lambda>(options, args).
       top_level_runtime (unat (n_threads options)) uses handles (darma_top_level_setup args))"

definition main_config ::
  "(string list \<Rightarrow> task) \<Rightarrow> use list \<Rightarrow> handle list \<Rightarrow> string list \<Rightarrow> rt_error + 'd config" where
  "main_config darma_top_level_setup uses handles argv =
     bindE (initialize_top_level_instance darma_top_level_setup uses handles argv) (\<lambda>w.
       Inr \<lparr>cf_stacks = (CSpinUp # wait_for_top_level_instance_to_shut_down w)
                         # map (\<lambda>_. [CLoopStart]) [1..<length (w_workers w)],
            cf_world = w\<rparr>)"

lemma top_level_runtime_workers:
  "top_level_runtime n uses handles t =
     (if n = 0 then Inl NoSuchWorker
      else Inr ((init_shutdown_counter (region_runtime n uses handles))
                 \<lparr>w_workers := new_worker\<lparr>wk_ready := [ReadyTaskOperation t]\<rparr> # map (\<lambda>_. new_worker) [1..<n]\<rparr>))"
  by (cases n) (auto simp: top_level_runtime_def emplace_ready_def worker_at_def update_worker_def at_def
      init_shutdown_counter_def region_runtime_def create_workers_def new_worker_def upt_rec comp_def
      simp flip: map_Suc_upt)

text \<open>What \<open>main\<close> starts is what the machine calls a start.\<close>

lemma main_config_eq:
  "main_config setup' uses handles argv =
     bindE (parse_args argv) (\<lambda>(options, args). top_level_config (unat (n_threads options)) uses handles (setup' args))"
  by (cases "parse_args argv")
    (auto simp: main_config_def initialize_top_level_instance_def top_level_config_def top_level_runtime_workers
      init_shutdown_counter_def split: prod.splits)

text \<open>
  C29. A program starts as its command line says: whatever worker counts, lookaheads and other arguments
  come before the separator, \<open>main\<close> makes as many workers as the last count given says, 8 if none is, with
  the top level task, made from the program's own arguments, in the queue of the first one and nothing in
  the others, a thread for each of them, and the shutdown counter holding the top level task; with a count
  of 0 it puts the task on a worker that does not exist.
\<close>

theorem main_starts_as_told:
  assumes "list_all proper items" and "sep = ''--'' \<or> sep = ''--app-argv''"
  shows "let n = unat (n_threads (fold set_option items \<lparr>n_threads = 8, lookahead = 20\<rparr>));
      top_level_task = setup' (prog # concat (map plain items) @ app)
    in case main_config setup' uses handles (prog # concat (map render items) @ sep # app) of
        Inl err \<Rightarrow> n = 0 \<and> err = NoSuchWorker
      | Inr g \<Rightarrow> 0 < n \<and> map wk_ready (w_workers (cf_world g)) = [ReadyTaskOperation top_level_task] # replicate (n - 1) []
          \<and> length (cf_stacks g) = n
          \<and> w_events (cf_world g) = [\<lparr>ev_count = 1, ev_triggered = False, ev_actions = [ShutdownAction]\<rparr>]
          \<and> (list_all without_flows uses \<longrightarrow> starts g)"
proof -
  have "parse_args (prog # concat (map render items) @ sep # app)
      = Inr (fold set_option items \<lparr>n_threads = 8, lookahead = 20\<rparr>, prog # concat (map plain items) @ app)"
    using assms by (auto simp: parse_args_def parse_loop_render parse_loop_app n_threads_default_def lookahead_default_def)
  then show ?thesis
    by (auto simp: main_config_eq top_level_config_def top_level_runtime_workers new_worker_def comp_def
        init_shutdown_counter_def region_runtime_def shutdown_counter_def map_replicate_const starts_def Let_def)
qed

theorem main_starts_as_told_witness:
  "\<exists>g :: nat config. main_config (\<lambda>args. Task [] False EmptyKey []) [sample_use] [sample_handle]
       [''app'', ''--ranks'', print_nat 2, ''--''] = Inr g
     \<and> starts g \<and> length (cf_stacks g) = 2"
proof -
  have "list_all proper [Workers False 2]" by simp
  note m = main_starts_as_told [OF this, of "''--''" "\<lambda>args. Task [] False EmptyKey []" "''app''" "[]"
      "[sample_use]" "[sample_handle]", where ?'a = nat]
  then show ?thesis
    by (auto simp: sample_use_def without_flows_def split: sum.splits)
qed

end
