(* ===== verification/Finish.thy ===== *)
theory Finish
  imports Shutdown Progress
begin

text \<open>
  The end of a run in which every thread that can go on does so again and again: either all workers have
  stopped, all threads have been joined and all stacks are empty, or the shutdown counter has not
  triggered and all threads idle in their work loops, looking for operations that are not there.
\<close>

section \<open>Turns\<close>

text \<open>The steps of the machine with the thread that takes them.\<close>

inductive takes_turn :: "'d env \<Rightarrow> nat \<Rightarrow> 'd config \<Rightarrow> 'd config \<Rightarrow> bool" for E i where
  turn: "i < length (cf_stacks g) \<Longrightarrow> cf_stacks g ! i = c # cs \<Longrightarrow> may_run (cf_world g) i c
    \<Longrightarrow> 0 \<le> drawn \<Longrightarrow> drawn < 2 ^ 31 \<Longrightarrow> frontend_ok g c \<Longrightarrow> fits (cf_world g) (stack_credits g)
    \<Longrightarrow> step E i drawn c (cf_world g) = Inr (cs', w')
    \<Longrightarrow> takes_turn E i g \<lparr>cf_stacks = (cf_stacks g)[i := cs' @ cs], cf_world = w'\<rparr>"

inductive_cases takes_turnE: "takes_turn E i g g'"

lemma takes_turn_disciplined: "takes_turn E i g g' \<Longrightarrow> disciplined E g g'"
  by (auto elim!: takes_turnE intro: disciplined.disciplined)

lemma takes_turn_length: "takes_turn E i g g' \<Longrightarrow> length (cf_stacks g') = length (cf_stacks g)"
  by (auto elim!: takes_turnE)

text \<open>A thread that has nothing to run, has not been started, or waits for a worker to stop.\<close>

definition blocked :: "nat \<Rightarrow> 'd config \<Rightarrow> bool" where
  "blocked i g = (case cf_stacks g ! i of [] \<Rightarrow> True | c # cs \<Rightarrow> \<not> may_run (cf_world g) i c)"

definition fair_run :: "'d env \<Rightarrow> (nat \<Rightarrow> 'd config) \<Rightarrow> bool" where
  "fair_run E run \<longleftrightarrow>
     (\<forall>k. run (Suc k) = run k \<or> (\<exists>i. takes_turn E i (run k) (run (Suc k))))
     \<and> (\<forall>i<length (cf_stacks (run 0)). \<forall>k. \<exists>j\<ge>k. blocked i (run j) \<or> takes_turn E i (run j) (run (Suc j)))"

text \<open>A turn that changes nothing is a round of the work loop with nothing to do.\<close>

lemma idle_turn:
  assumes "backend_inv g" and "takes_turn E i g g"
  obtains cs where "cf_stacks g ! i = CLoop # cs" and "i < length (w_workers (cf_world g))"
    and "wk_ready (w_workers (cf_world g) ! i) = []"
proof -
  from assms(2) obtain c cs drawn cs' w' where i: "i < length (cf_stacks g)" and top: "cf_stacks g ! i = c # cs"
    and s: "step E i drawn c (cf_world g) = Inr (cs', w')"
    and g: "g = \<lparr>cf_stacks = (cf_stacks g)[i := cs' @ cs], cf_world = w'\<rparr>"
    by (auto elim!: takes_turnE)
  let ?w = "cf_world g" and ?n = "crew (cf_world g)" and ?rest = "(cf_stacks g)[i := cs]"
  have w': "w' = ?w" using arg_cong [OF g, of cf_world] by simp
  have "cs' @ cs = c # cs" using arg_cong [OF arg_cong [OF g, of cf_stacks], of "\<lambda>css. css ! i"] i top by simp
  then have cs': "cs' = [c]" by simp
  have pop: "all_todo f (cf_stacks g) = all_todo f ?rest + f c" for f :: "cmd \<Rightarrow> nat multiset"
    using all_todo_pop [OF i top] .
  have "claimed ?w (all_todo claim_cmd ?rest + claim_cmd c) (all_todo done_cmd ?rest + done_cmd c)" "tables_ok ?w"
    using assms(1) by (simp_all add: backend_inv_def wf_world_def pop del: all_todo_pop)
  from step_work [OF s refl this] have "c = CLoop" by (simp add: cs' w')
  with s have r: "work_loop_round E i drawn ?w = Inr ([CLoop], w')" by (simp add: step_def cs')
  then have "i < ?n" by (auto simp: work_loop_round_def worker_at_def)
  moreover have "wk_ready (w_workers ?w ! i) = []"
    using r \<open>i < ?n\<close> by (cases "wk_ready (w_workers ?w ! i)") (auto simp: work_loop_round_def worker_at_def split: if_splits)
  ultimately show thesis using that top \<open>c = CLoop\<close> by simp
qed

section \<open>The shape of the stacks\<close>

fun waits_for_other :: "cmd \<Rightarrow> bool" where
  "waits_for_other (CJoin i) = (0 < i)"
| "waits_for_other _ = False"

text \<open>
  A stack is what is left of its loop and, below it, joins. Above the loop there are neither joins nor
  loops, or, in the loop of the worker that joins the others, only joins and the end of that operation.
\<close>

definition tidy :: "cmd list \<Rightarrow> bool" where
  "tidy cs \<longleftrightarrow>
     list_all waits_for_other cs
     \<or> (\<exists>xs l js. cs = xs @ l # js \<and> loop_cmd l = 1 \<and> list_all waits_for_other js
          \<and> (\<forall>c\<in>set xs. loop_cmd c = 0 \<and> join_cmd c = 0))
     \<or> (\<exists>xs js. cs = xs @ CLoop # js \<and> list_all waits_for_other js
          \<and> (\<forall>c\<in>set xs. c = CDorment \<or> waits_for_other c))"

text \<open>The threads of the other workers are started by the first one.\<close>

definition threads_started :: "'d config \<Rightarrow> bool" where
  "threads_started g \<longleftrightarrow> list_all wk_thread (drop 1 (w_workers (cf_world g))) \<or> CSpinUp \<in> set (cf_stacks g ! 0)"

text \<open>Only the first worker joins the others, and only after the shutdown action of its region has run.\<close>

fun join_op :: "ready_op \<Rightarrow> nat" where
  "join_op (CallableOperation JoinWorkers s) = 1"
| "join_op _ = 0"

interpretation join_ops: signal_tally join_op odd_action odd_cmd
proof (unfold_locales, goal_cases)
  case (1 op) then show ?case by (cases op rule: join_op.cases) simp_all
qed (simp add: odds.ordinary_free)

abbreviation join_ops_in :: "'d world \<Rightarrow> nat" where
  "join_ops_in w \<equiv> waiting join_op odd_action w"

definition joining :: "cmd list \<Rightarrow> bool" where
  "joining cs \<longleftrightarrow> (\<exists>xs j js. cs = xs @ CJoin j # js \<and> CLoop \<in> set js)"

abbreviation pendings :: "'d config \<Rightarrow> nat" where
  "pendings g \<equiv> pending_in (cf_world g) + all_todo pending_cmd (cf_stacks g)"

definition finishing_inv :: "'d config \<Rightarrow> bool" where
  "finishing_inv g \<longleftrightarrow> length (cf_stacks g) = max 1 (crew (cf_world g))
     \<and> (\<forall>cs\<in>set (cf_stacks g). tidy cs) \<and> threads_started g
     \<and> (\<forall>i<length (cf_stacks g). 0 < i \<longrightarrow> todo join_cmd (cf_stacks g ! i) = 0)
     \<and> (0 < join_ops_in (cf_world g) \<or> joining (cf_stacks g ! 0) \<longrightarrow> pendings g = 0)"

section \<open>A step\<close>

lemma todo_zeroD: "todo f cs = (0 :: nat) \<Longrightarrow> c \<in> set cs \<Longrightarrow> f c = 0"
  by (induction cs) auto

lemma tidy_pushed:
  assumes "tidy (c # cs)" and "loop_cmd c = 0" and "c = CDorment \<or> join_cmd c = 1 \<Longrightarrow> cs' = []"
    and "todo loop_cmd cs' = 0" and "todo join_cmd cs' = 0"
  shows "tidy (cs' @ cs)"
proof -
  have new: "loop_cmd d = 0 \<and> join_cmd d = 0" if "d \<in> set cs'" for d
    using todo_zeroD [OF assms(4) that] todo_zeroD [OF assms(5) that] by simp
  have w: "join_cmd d = 1" if "waits_for_other d" for d using that by (cases d) simp_all
  consider "list_all waits_for_other (c # cs)"
    | xs l js where "cs = xs @ l # js" "loop_cmd l = 1" "list_all waits_for_other js" "\<forall>c\<in>set xs. loop_cmd c = 0 \<and> join_cmd c = 0"
    | xs js where "cs = xs @ CLoop # js" "list_all waits_for_other js" "c = CDorment \<or> waits_for_other c"
        "\<forall>c\<in>set xs. c = CDorment \<or> waits_for_other c"
    using assms(1,2) unfolding tidy_def by (fastforce simp: Cons_eq_append_conv)
  then show ?thesis
  proof cases
    case 1
    with assms(3) w show ?thesis by (simp add: tidy_def)
  next
    case (2 xs l js)
    then have "cs' @ cs = (cs' @ xs) @ l # js" "\<forall>c\<in>set (cs' @ xs). loop_cmd c = 0 \<and> join_cmd c = 0" using new by auto
    with 2(2,3) show ?thesis unfolding tidy_def by blast
  next
    case (3 xs js)
    with assms(3) w have "cs' = []" by blast
    with 3 show ?thesis unfolding tidy_def by auto
  qed
qed

text \<open>Below a loop there are only joins.\<close>

lemma tidy_loop:
  assumes "tidy (c # cs)" and "loop_cmd c = 1"
  shows "list_all waits_for_other cs"
proof -
  have w: "loop_cmd d = 0" if "d = CDorment \<or> waits_for_other d" for d using that by (cases d) simp_all
  from assms(1) show ?thesis
    unfolding tidy_def
  proof (elim disjE exE conjE)
    fix xs l js
    assume "c # cs = xs @ l # js" "list_all waits_for_other js" "\<forall>c\<in>set xs. loop_cmd c = 0 \<and> join_cmd c = 0"
    with assms(2) show ?thesis by (cases xs) auto
  next
    fix xs js
    assume "c # cs = xs @ CLoop # js" "list_all waits_for_other js" "\<forall>c\<in>set xs. c = CDorment \<or> waits_for_other c"
    with assms(2) w show ?thesis by (cases xs) auto
  qed (use assms(2) w in auto)
qed

lemma tidy_joins: "list_all waits_for_other js \<Longrightarrow> tidy (map CJoin [1..<n] @ [CDorment, CLoop] @ js)"
  unfolding tidy_def by (intro disjI2 exI [of _ "map CJoin [1..<n] @ [CDorment]"] exI [of _ js]) auto

lemma tidy_start: "list_all waits_for_other js \<Longrightarrow> loop_cmd l = 1 \<Longrightarrow> \<forall>c\<in>set xs. loop_cmd c = 0 \<and> join_cmd c = 0 \<Longrightarrow> tidy (xs @ l # js)"
  unfolding tidy_def by blast

lemma pushed_plain:
  assumes s: "step E i drawn c w = Inr (cs', w')" and c: "odd_cmd c = 0" and "loop_cmd c = 0" and "join_cmd c = 0"
  shows "todo loop_cmd cs' = 0" and "todo join_cmd cs' = 0"
proof -
  have "todo loop_cmd cs' = 0 \<and> todo join_cmd cs' = 0"
    using c
  proof (cases rule: odd_cases)
    case ordinary
    from loops.tally_step [OF s this] joins.tally_step [OF s this] show ?thesis by (simp add: waiting_def)
  next
    case (shuts_down a)
    with s shutdown_shape(1) [of E i a w cs' w'] show ?thesis by (simp add: step_def)
  qed (use assms(3,4) in auto)
  then show "todo loop_cmd cs' = 0" "todo join_cmd cs' = 0" by simp_all
qed

text \<open>A round of the loop, with the joins that it may push.\<close>

lemma pushed_by_loop:
  assumes "work_loop_round E i drawn w = Inr (cs', w')" and "odd_in w = 0"
  obtains (goes_on) cs1 where "cs' = cs1 @ [CLoop]" "todo loop_cmd cs1 = 0" "todo join_cmd cs1 = 0"
      "join_ops_in w' \<le> join_ops_in w"
  | (message) "cs' = []" "join_ops_in w' = join_ops_in w"
  | (joins) "cs' = map CJoin [1..<crew w] @ [CDorment, CLoop]" "0 < join_ops_in w" "join_ops_in w' \<le> join_ops_in w"
      "i < crew w" "\<exists>s. CallableOperation JoinWorkers s \<in> set (wk_ready (w_workers w ! i))"
  using assms(1) odd_no_loose [OF assms(2)]
proof (cases rule: joins.loop_keeps)
  case (goes_on cs1)
  from assms(1) odd_no_loose [OF assms(2)] have "todo loop_cmd cs1 = 0"
    by (cases rule: loops.loop_keeps) (use goes_on(1) in \<open>auto simp: waiting_def loops.int_todo\<close>)
  moreover have "todo join_cmd cs1 = 0" using goes_on(2) by (simp add: waiting_def joins.int_todo)
  moreover from assms(1) odd_no_loose [OF assms(2)] have "join_ops_in w' \<le> join_ops_in w"
  proof (cases rule: join_ops.loop_keeps)
    case (goes_on cs2)
    then show ?thesis by (simp add: odds.int_todo)
  next
    case (joins b rest)
    have "join_ops_in w' = join_ops_in (set_ready i rest w)"
      unfolding joins(4) by (rule join_ops.waiting_cong) (simp_all add: add_dorment_def)
    with join_ops.taken [OF joins(3,2)] show ?thesis by simp
  qed (use goes_on(1) in simp)
  ultimately show ?thesis using goes_on(1) that(1) by simp
next
  case (message k rest)
  have "join_ops_in w' = join_ops_in (set_ready i rest w)"
    unfolding message(4) by (rule join_ops.waiting_cong) (simp_all add: add_dorment_def update_worker_def map_field_update)
  then show ?thesis using join_ops.taken [OF message(3,2)] message(1) that(2) by simp
next
  case (joins b rest)
  have "join_ops_in w' = join_ops_in (set_ready i rest w)"
    unfolding joins(4) by (rule join_ops.waiting_cong) (simp_all add: add_dorment_def)
  with join_ops.taken [OF joins(3,2)] joins show ?thesis by (intro that(3)) auto
qed

lemma step_tidy:
  assumes s: "step E i drawn c w = Inr (cs', w')" and c: "odd_cmd c = 0" and o: "odd_in w = 0"
    and tidy: "tidy (c # cs)"
  shows "tidy (cs' @ cs)"
proof -
  consider (loop) "c = CLoop" | (start) "c = CSpinUp \<or> c = CLoopStart" | (plain) "loop_cmd c = 0"
    by (cases c) simp_all
  then show ?thesis
  proof cases
    case loop
    with tidy_loop [OF tidy] have js: "list_all waits_for_other cs" by simp
    from loop s have "work_loop_round E i drawn w = Inr (cs', w')" by (simp add: step_def)
    from this o show ?thesis
    proof (cases rule: pushed_by_loop)
      case (goes_on cs1)
      then have "\<forall>c\<in>set cs1. loop_cmd c = 0 \<and> join_cmd c = 0" using todo_zeroD by metis
      from tidy_start [OF js _ this, of CLoop] goes_on(1) show ?thesis by simp
    next
      case message
      with js show ?thesis by (simp add: tidy_def)
    next
      case joins
      with tidy_joins [OF js] show ?thesis by simp
    qed
  next
    case start
    then have "loop_cmd c = 1" by auto
    from tidy_loop [OF tidy this] have js: "list_all waits_for_other cs" .
    with start_shape(1) [OF s start] show ?thesis
      using tidy_start [OF js, of CLoopStart "[]"] tidy_start [OF js, of CLoop "[]"] by auto
  next
    case plain
    show ?thesis
    proof (cases "join_cmd c = 0")
      case True
      have "cs' = []" if "c = CDorment" using s that by (simp add: step_def)
      with pushed_plain [OF s c plain True] True plain tidy show ?thesis by (intro tidy_pushed) auto
    next
      case False
      then obtain j where "c = CJoin j" by (cases c) simp_all
      with s join_shape have "cs' = []" by fastforce
      with plain tidy show ?thesis using tidy_pushed [of c cs "[]"] by simp
    qed
  qed
qed

lemma joining_pushed:
  assumes "todo join_cmd xs = 0" and "joining (xs @ cs)"
  shows "joining cs"
proof -
  from assms(2) obtain ys j js where eq: "xs @ cs = ys @ CJoin j # js" and l: "CLoop \<in> set js" by (auto simp: joining_def)
  have "CJoin j \<notin> set xs" using todo_zeroD [OF assms(1)] by force
  then have "length xs \<le> length ys"
    using arg_cong [OF eq, of "\<lambda>zs. zs ! length ys"] by (auto simp: nth_append split: if_splits dest: nth_mem)
  then have "cs = drop (length xs) ys @ CJoin j # js"
    using arg_cong [OF eq, of "drop (length xs)"] by simp
  with l show ?thesis by (auto simp: joining_def)
qed

lemma joining_Cons: "joining cs \<Longrightarrow> joining (c # cs)"
  unfolding joining_def by (metis append_Cons)

lemma list_all_loop: "list_all waits_for_other js \<Longrightarrow> CLoop \<notin> set js"
  by (induction js) auto

lemma not_joining: "list_all waits_for_other cs \<Longrightarrow> \<not> joining cs"
  by (auto simp: joining_def dest: list_all_loop)

lemma step_joining:
  assumes s: "step E i drawn c w = Inr (cs', w')" and c: "odd_cmd c = 0" and o: "odd_in w = 0"
    and tidy: "tidy (c # cs)" and j: "joining (cs' @ cs)"
  shows "joining (c # cs) \<or> 0 < join_ops_in w"
proof -
  consider (loop) "c = CLoop" | (start) "c = CSpinUp \<or> c = CLoopStart" | (join) k where "c = CJoin k"
    | (plain) "loop_cmd c = 0" "join_cmd c = 0"
    by (cases c) simp_all
  then show ?thesis
  proof cases
    case loop
    with tidy_loop [OF tidy] have js: "list_all waits_for_other cs" by simp
    from loop s have "work_loop_round E i drawn w = Inr (cs', w')" by (simp add: step_def)
    from this o show ?thesis
    proof (cases rule: pushed_by_loop)
      case (goes_on cs1)
      with joining_pushed [of cs' cs] j not_joining [OF js] show ?thesis by simp
    next
      case message
      with j not_joining [OF js] show ?thesis by simp
    qed simp
  next
    case start
    then have js: "list_all waits_for_other cs" using tidy_loop [OF tidy] by auto
    have "todo join_cmd cs' = 0" using start_shape(1) [OF s start] by auto
    from joining_pushed [OF this j] not_joining [OF js] show ?thesis by simp
  next
    case join
    with s join_shape have "cs' = []" by fastforce
    with j joining_Cons show ?thesis by simp
  next
    case plain
    from joining_pushed [OF pushed_plain(2) [OF s c plain] j] joining_Cons show ?thesis by blast
  qed
qed

lemma step_join_ops:
  assumes s: "step E i drawn c w = Inr (cs', w')" and c: "odd_cmd c = 0" and o: "odd_in w = 0"
  shows "join_ops_in w' \<le> join_ops_in w \<or> (\<exists>a. c = CAction a \<and> shuts_down a \<and> cs' = [] \<and> pending_in w' = pending_in w)"
  using c
proof (cases rule: odd_cases)
  case ordinary
  from join_ops.tally_step [OF s this] show ?thesis by simp
next
  case start
  from join_ops.waiting_cong [OF start_shape(2,3) [OF s this]] show ?thesis by simp
next
  case loop
  with s have "work_loop_round E i drawn w = Inr (cs', w')" by (simp add: step_def)
  from this o show ?thesis by (cases rule: pushed_by_loop) auto
next
  case (join k)
  with s join_shape show ?thesis by fastforce
next
  case (shuts_down a)
  with s shutdown_shape(1,2) [of E i a w cs' w'] pending_events [of w' w] show ?thesis by (simp add: step_def)
qed

lemma step_pending:
  assumes s: "step E i drawn c w = Inr (cs', w')" and c: "odd_cmd c = 0" and o: "odd_in w = 0"
  shows "pending_in w' + todo pending_cmd cs' \<le> pending_in w + pending_cmd c"
  using c
proof (cases rule: odd_cases)
  case ordinary
  from pending.tally_step [OF s this] show ?thesis by simp
next
  case start
  from start_shape(1) [OF s this] pending_events [OF start_shape(2) [OF s this]] show ?thesis by auto
next
  case loop
  with s have "work_loop_round E i drawn w = Inr (cs', w')" by (simp add: step_def)
  from this odd_no_loose [OF o] show ?thesis
  proof (cases rule: pending.loop_keeps)
    case (goes_on cs1)
    then show ?thesis by (simp add: pending.int_todo)
  next
    case (message k rest)
    with pending_events [OF message_shape(1) [OF message(3,2,4)]] show ?thesis by simp
  next
    case (joins b rest)
    then have none: "todo pending_cmd cs' = 0" by (simp add: comp_def)
    show ?thesis unfolding none using pending_events [OF joins_shape(1) [OF joins(3,2,4)]] by simp
  qed
next
  case (join k)
  with s join_shape show ?thesis by fastforce
next
  case (shuts_down a)
  with s shutdown_shape(1,2) [of E i a w cs' w'] pending_events [of w' w] show ?thesis by (simp add: step_def)
qed

lemma pushed_no_join:
  assumes s: "step E i drawn c w = Inr (cs', w')" and c: "odd_cmd c = 0" and o: "odd_in w = 0"
    and "strangers w = 0" and "0 < i" and "join_cmd c = 0"
  shows "todo join_cmd cs' = 0"
proof -
  consider (loop) "c = CLoop" | (start) "c = CSpinUp \<or> c = CLoopStart" | (plain) "loop_cmd c = 0"
    by (cases c) simp_all
  then show ?thesis
  proof cases
    case loop
    with s have "work_loop_round E i drawn w = Inr (cs', w')" by (simp add: step_def)
    from this o show ?thesis
      by (cases rule: pushed_by_loop) (use strangers_member [OF assms(4,5)] in auto)
  next
    case start
    from start_shape(1) [OF s this] show ?thesis by auto
  next
    case plain
    from pushed_plain(2) [OF s c this assms(6)] show ?thesis .
  qed
qed

lemma step_threads:
  assumes s: "step E i drawn c w = Inr (cs', w')"
  shows "list_all wk_thread (drop 1 (w_workers w')) \<longleftrightarrow> c = CSpinUp \<or> list_all wk_thread (drop 1 (w_workers w))"
proof (cases "c = CSpinUp")
  case True
  with s settings_spin_up [of w cs' w'] show ?thesis by (simp add: step_def)
next
  case False
  have flags: "list_all wk_thread (drop 1 ws) \<longleftrightarrow> list_all id (drop 1 (map wk_thread ws))" for ws
    by (simp add: drop_map list.pred_map)
  show ?thesis unfolding flags step_fixtures(4) [OF s False] using False by simp
qed

section \<open>Every run\<close>

lemma fresh_finishing:
  assumes "g = \<lparr>cf_stacks = (xs @ CSpinUp # js) # map (\<lambda>_. [CLoopStart]) [1..<n], cf_world = w\<rparr>" and "crew w = n"
    and "\<forall>c\<in>set xs. loop_cmd c = 0 \<and> join_cmd c = 0" and "list_all waits_for_other js" and "join_ops_in w = 0"
  shows "finishing_inv g"
proof -
  have "tidy (xs @ CSpinUp # js)" using tidy_start [OF assms(4) _ assms(3)] by simp
  moreover have "tidy [CLoopStart]" using tidy_start [of "[]" CLoopStart "[]"] by simp
  moreover have "todo join_cmd (xs @ [CSpinUp]) = 0" using assms(3) by (intro todo_zero) auto
  then have "\<not> joining (xs @ CSpinUp # js)" using joining_pushed [of "xs @ [CSpinUp]" js] not_joining [OF assms(4)] by auto
  moreover have "todo join_cmd (((xs @ CSpinUp # js) # map (\<lambda>_. [CLoopStart]) [1..<n]) ! i) = 0" if "0 < i" "i < Suc (n - 1)" for i
    using that by (cases i) simp_all
  ultimately show ?thesis
    using assms(2,5) by (auto simp: finishing_inv_def assms(1) threads_started_def)
qed

lemma starts_finishing:
  assumes "starts g"
  shows "finishing_inv g"
  using assms unfolding starts_def
proof (elim conjE disjE exE)
  fix n uses handles t
  assume "top_level_config n uses handles t = Inr g"
  then obtain w where e: "emplace_ready 0 (ReadyTaskOperation t) (init_shutdown_counter (region_runtime n uses handles)) = Inr w"
    and g: "g = \<lparr>cf_stacks = (CSpinUp # wait_for_top_level_instance_to_shut_down w) # map (\<lambda>_. [CLoopStart]) [1..<n],
      cf_world = w\<rparr>"
    by (auto simp: top_level_config_def top_level_runtime_def)
  let ?w0 = "init_shutdown_counter (region_runtime n uses handles) :: 'a world"
  have ev: "w_events ?w0 = [\<lparr>ev_count = 1, ev_triggered = False, ev_actions = [ShutdownAction]\<rparr>]"
    and "w_workers ?w0 = create_workers n"
    by (simp_all add: init_shutdown_counter_def region_runtime_def shutdown_counter_def)
  then have "crew w = n" "join_ops_in ?w0 = 0"
    using emplace_ready_frame [OF e] by (auto simp: create_workers_def new_worker_def waiting_def comp_def)
  with join_ops.emplace_waiting [OF e] show ?thesis
    by (intro fresh_finishing [of g "[]" "map CJoin [1..<n]" n w])
      (auto simp: g wait_for_top_level_instance_to_shut_down_def list_all_iff)
next
  fix n uses handles callbacks body
  assume "region_config n uses handles callbacks body = Inr g"
  then obtain w0 cs0 w where w0: "w0 = fold register_quiescence_callback callbacks (region_runtime n uses handles)"
    and a: "attach_action shutdown_counter RegionShutdownAction w0 = Inr (cs0, w)"
    and g: "g = \<lparr>cf_stacks = (cs0 @ map CApi body @ [CDecrement shutdown_counter, CSpinUp])
      # map (\<lambda>_. [CLoopStart]) [1..<n], cf_world = w\<rparr>"
    by (auto simp: region_config_def with_active_runtime_instance_def then_do_def)
  have "w_events w0 = [\<lparr>ev_count = 1, ev_triggered = False, ev_actions = []\<rparr>] \<and> w_workers w0 = create_workers n"
    unfolding w0
    by (induction callbacks rule: rev_induct) (simp_all add: region_runtime_def register_quiescence_callback_def)
  with attach_action_frame [OF a] have cs0: "cs0 = []" and "w_workers w = create_workers n"
    "w_events w = [\<lparr>ev_count = 1, ev_triggered = False, ev_actions = [RegionShutdownAction]\<rparr>]"
    by (auto simp: shutdown_counter_def)
  then have "crew w = n" "join_ops_in w = 0"
    by (auto simp: create_workers_def new_worker_def waiting_def comp_def)
  then show ?thesis
    by (intro fresh_finishing [of g "map CApi body @ [CDecrement shutdown_counter]" "[]" n w]) (auto simp: g cs0)
qed

lemma reaches_finishing: "reaches E g \<Longrightarrow> finishing_inv g"
proof (induction rule: reaches_invariant)
  case (start g)
  then show ?case by (rule starts_finishing)
next
  case (step g g')
  from step.hyps(2) obtain i c cs drawn cs' w' where i: "i < length (cf_stacks g)" and top: "cf_stacks g ! i = c # cs"
    and s: "step E i drawn c (cf_world g) = Inr (cs', w')"
    and g': "g' = \<lparr>cf_stacks = (cf_stacks g)[i := cs' @ cs], cf_world = w'\<rparr>"
    by (auto elim!: disciplinedE)
  let ?w = "cf_world g"
  note pop = all_todo_pop [OF i top] and push = all_todo_push [OF i, of _ cs' cs]
  from reaches_stopping [OF step.hyps(1)] have o: "odd_in ?w = 0" "all_todo odd_cmd (cf_stacks g) = 0" "strangers ?w = 0"
    and post: "one_post g"
    by (simp_all add: stopping_inv_def)
  have odd: "odd_cmd c = 0" using o(2) pop [of odd_cmd] by simp
  from step.IH have inv: "length (cf_stacks g) = max 1 (crew ?w)" "\<And>cs. cs \<in> set (cf_stacks g) \<Longrightarrow> tidy cs" "threads_started g"
      "\<And>j. j < length (cf_stacks g) \<Longrightarrow> 0 < j \<Longrightarrow> todo join_cmd (cf_stacks g ! j) = 0"
      "0 < join_ops_in ?w \<or> joining (cf_stacks g ! 0) \<Longrightarrow> pendings g = 0"
    unfolding finishing_inv_def by blast+
  have crew: "crew w' = crew ?w" using step_settings [OF s] by simp
  have tidy: "tidy (c # cs)" using inv(2) nth_mem [OF i] top by simp
  have "\<forall>cs\<in>set (cf_stacks g'). tidy cs"
    using step_tidy [OF s odd o(1) tidy] inv(2) by (auto simp: g' dest: set_update_subset_insert [THEN subsetD])
  moreover have "threads_started g'"
    using inv(3) step_threads [OF s] top i by (cases "i = 0") (auto simp: threads_started_def g')
  moreover have len: "length (cf_stacks g') = length (cf_stacks g)" by (simp add: g')
  have "todo join_cmd (cf_stacks g' ! j) = 0" if "j < length (cf_stacks g)" "0 < j" for j
  proof (cases "j = i")
    case True
    then have "join_cmd c = 0" "todo join_cmd cs = 0" using inv(4) [OF that] top by simp_all
    with pushed_no_join [OF s odd o(1,3)] True that i show ?thesis by (simp add: g')
  qed (use inv(4) [OF that] in \<open>simp add: g'\<close>)
  then have "\<forall>j<length (cf_stacks g'). 0 < j \<longrightarrow> todo join_cmd (cf_stacks g' ! j) = 0" unfolding len by blast
  moreover have cw: "cf_world g' = w'" by (simp add: g')
  have "pendings g' = 0" if "0 < join_ops_in w' \<or> joining (cf_stacks g' ! 0)"
  proof (cases "pendings g = 0")
    case True
    then show ?thesis
      using step_pending [OF s odd o(1)] pop [of pending_cmd] push [of pending_cmd] by (simp add: g')
  next
    case False
    from False inv(5) have "\<not> (0 < join_ops_in ?w \<or> joining (cf_stacks g ! 0))" by (rule contrapos_nn)
    then have none: "join_ops_in ?w = 0" "\<not> joining (cf_stacks g ! 0)" by simp_all
    have "\<not> joining (cf_stacks g' ! 0)"
      using step_joining [OF s odd o(1) tidy] none top i by (cases "i = 0") (auto simp: g')
    with that have "0 < join_ops_in w'" by simp
    with step_join_ops [OF s odd o(1)] none(1) obtain a where a: "c = CAction a" "shuts_down a" "cs' = []" "pending_in w' = pending_in ?w"
      by auto
    have "join_ops_in w' = odd_in w'" if "w_workers w' = []" using that by (simp add: waiting_def)
    then have "crew ?w \<noteq> 0" using \<open>0 < join_ops_in w'\<close> step_odds(1) [OF s odd o(1)] crew by auto
    then have "pendings g \<le> 1" using post by (auto simp: one_post_def)
    then show ?thesis using a pop [of pending_cmd] push [of pending_cmd] by (simp add: g' pending_shuts)
  qed
  ultimately show ?case using inv(1) unfolding finishing_inv_def cw len crew by blast
qed

section \<open>Rest\<close>

text \<open>Every thread is blocked, or would only idle.\<close>

definition resting :: "'d env \<Rightarrow> 'd config \<Rightarrow> bool" where
  "resting E g \<longleftrightarrow> (\<forall>i<length (cf_stacks g). blocked i g \<or> takes_turn E i g g)"

lemma wait_idle: "waits_for_other c \<Longrightarrow> idle_cmd c"
  by (cases c) simp_all

lemma wait_no_loop: "waits_for_other c \<Longrightarrow> loop_cmd c = 0"
  by (cases c) simp_all

lemma waits_idle: "list_all waits_for_other cs \<Longrightarrow> list_all idle_cmd cs"
  by (auto simp: list_all_iff wait_idle)

lemma tidy_join_top:
  assumes "tidy (CJoin j # cs)"
  shows "0 < j" and "list_all idle_cmd cs" and "list_all waits_for_other cs \<or> joining (CJoin j # cs)"
proof -
  have idle: "list_all idle_cmd xs" if "\<forall>c\<in>set xs. c = CDorment \<or> waits_for_other c" for xs
    using that by (auto simp: list_all_iff wait_idle)
  have "0 < j \<and> list_all idle_cmd cs \<and> (list_all waits_for_other cs \<or> joining (CJoin j # cs))"
    using assms unfolding tidy_def
  proof (elim disjE exE conjE)
    assume "list_all waits_for_other (CJoin j # cs)"
    with waits_idle [of cs] show ?thesis by simp
  next
    fix xs l js
    assume "CJoin j # cs = xs @ l # js" "loop_cmd l = 1" "\<forall>c\<in>set xs. loop_cmd c = 0 \<and> join_cmd c = 0"
    then have False by (cases xs) auto
    then show ?thesis ..
  next
    fix xs js
    assume eq: "CJoin j # cs = xs @ CLoop # js" and js: "list_all waits_for_other js"
      and xs: "\<forall>c\<in>set xs. c = CDorment \<or> waits_for_other c"
    from eq obtain ys where ys: "xs = CJoin j # ys" "cs = ys @ CLoop # js" by (cases xs) auto
    then have "joining (CJoin j # cs)" unfolding joining_def by (intro exI [of _ "[]"]) auto
    with xs ys idle [of ys] waits_idle [OF js] show ?thesis by simp
  qed
  then show "0 < j" "list_all idle_cmd cs" "list_all waits_for_other cs \<or> joining (CJoin j # cs)" by simp_all
qed

lemma rest_shape:
  assumes "reaches E g" and "resting E g" and i: "i < length (cf_stacks g)"
  obtains (empty) "cf_stacks g ! i = []"
  | (loop) cs where "cf_stacks g ! i = CLoop # cs" "i < crew (cf_world g)" "wk_ready (w_workers (cf_world g) ! i) = []"
      "list_all waits_for_other cs"
  | (unstarted) "0 < i" "\<not> list_all wk_thread (drop 1 (w_workers (cf_world g)))"
  | (join) j cs where "i = 0" "cf_stacks g ! 0 = CJoin j # cs" "0 < j" "j < crew (cf_world g)"
      "\<not> wk_stopped (w_workers (cf_world g) ! j)" "list_all idle_cmd cs" "list_all waits_for_other cs \<or> joining (cf_stacks g ! 0)"
proof -
  let ?w = "cf_world g"
  from reaches_finishing [OF assms(1)] i have fin: "tidy (cf_stacks g ! i)" "length (cf_stacks g) = max 1 (crew ?w)"
      "0 < i \<Longrightarrow> todo join_cmd (cf_stacks g ! i) = 0"
    unfolding finishing_inv_def using nth_mem by blast+
  from assms(2) i consider "blocked i g" | "takes_turn E i g g" by (auto simp: resting_def)
  then show thesis
  proof cases
    case 1
    show thesis
    proof (cases "cf_stacks g ! i")
      case (Cons c cs)
      with 1 have m: "\<not> may_run ?w i c" by (simp add: blocked_def)
      show thesis
      proof (cases "i = 0 \<or> wk_thread (w_workers ?w ! i)")
        case True
        with m i fin(2) obtain j where c: "c = CJoin j" "j < crew ?w" "\<not> wk_stopped (w_workers ?w ! j)"
          by (cases c) (auto simp: may_run_def)
        then have "i = 0" using fin(3) Cons by (cases "i = 0") auto
        with join [of j cs] tidy_join_top [of j cs] fin(1) Cons c show thesis by simp
      next
        case False
        moreover from this fin(2) i have "w_workers ?w ! i \<in> set (drop 1 (w_workers ?w))"
          by (auto simp: in_set_conv_nth intro!: exI [of _ "i - 1"])
        ultimately show thesis by (intro unstarted) (auto simp: list_all_iff)
      qed
    qed (rule empty)
  next
    case 2
    from reaches_inv [OF assms(1)] this show thesis
    proof (rule idle_turn)
      fix cs
      assume "cf_stacks g ! i = CLoop # cs" "i < length (w_workers ?w)" "wk_ready (w_workers ?w ! i) = []"
      with loop [of cs] tidy_loop [of CLoop cs] fin(1) show thesis by simp
    qed
  qed
qed

lemma rest_started:
  assumes "reaches E g" and "resting E g"
  shows "list_all wk_thread (drop 1 (w_workers (cf_world g)))"
proof (rule ccontr)
  assume "\<not> ?thesis"
  with reaches_finishing [OF assms(1)] have s: "CSpinUp \<in> set (cf_stacks g ! 0)" and l: "0 < length (cf_stacks g)"
    by (auto simp: finishing_inv_def threads_started_def)
  have n: "CSpinUp \<notin> set cs" if "list_all idle_cmd cs" for cs using that by (auto simp: list_all_iff)
  from assms l show False
    by (cases rule: rest_shape) (use s n waits_idle in auto)
qed

section \<open>The end\<close>

definition all_returned :: "'d config \<Rightarrow> bool" where
  "all_returned g \<longleftrightarrow> (\<forall>cs\<in>set (cf_stacks g). cs = []) \<and> (\<forall>wk\<in>set (w_workers (cf_world g)). wk_stopped wk)"

definition all_idle :: "'d config \<Rightarrow> bool" where
  "all_idle g \<longleftrightarrow> (\<forall>cs\<in>set (cf_stacks g). list_all idle_cmd cs)
     \<and> (\<forall>wk\<in>set (w_workers (cf_world g)). \<not> wk_stopped wk \<and> wk_ready wk = [])"

lemma rest_cases:
  assumes "reaches E g" and "resting E g" and i: "i < length (cf_stacks g)"
  obtains (empty) "cf_stacks g ! i = []"
  | (loop) "i < crew (cf_world g)" "wk_ready (w_workers (cf_world g) ! i) = []"
  | (join) j where "i = 0" "0 < j" "j < crew (cf_world g)" "\<not> wk_stopped (w_workers (cf_world g) ! j)"
      "list_all waits_for_other (cf_stacks g ! 0) \<or> joining (cf_stacks g ! 0)"
  using assms
proof (cases rule: rest_shape)
  case (unstarted)
  with rest_started [OF assms(1,2)] show ?thesis by simp
qed (use that in auto)

lemma rest_idle:
  assumes "reaches E g" and "resting E g"
  shows "\<forall>cs\<in>set (cf_stacks g). list_all idle_cmd cs"
proof
  fix cs
  assume "cs \<in> set (cf_stacks g)"
  then obtain i where i: "i < length (cf_stacks g)" and cs: "cs = cf_stacks g ! i" by (auto simp: in_set_conv_nth)
  from assms i show "list_all idle_cmd cs"
    unfolding cs by (cases rule: rest_shape) (use rest_started [OF assms] waits_idle in auto)
qed

text \<open>When the shutdown counter has triggered, a worker that idles has stopped.\<close>

lemma rest_stopped:
  assumes "reaches E g" and "resting E g" and "is_triggered shutdown_counter (cf_world g)"
    and i: "i < crew (cf_world g)" and "\<not> wk_stopped (w_workers (cf_world g) ! i)"
  shows "i = 0 \<and> (\<exists>j. 0 < j \<and> j < crew (cf_world g) \<and> \<not> wk_stopped (w_workers (cf_world g) ! j))"
proof -
  let ?w = "cf_world g"
  have pend: "pending_cmd c = 0" if "idle_cmd c" for c using that by (cases c) simp_all
  have none: "all_todo pending_cmd (cf_stacks g) = 0"
    using rest_idle [OF assms(1,2)] pend by (auto intro!: all_todo_zero simp: list_all_iff)
  have mail: "mails i ?w = 1"
    using reaches_post(1) [OF assms(1) i] assms(5) i unfolding none pending_none [OF assms(1,3)] by simp
  have "todo loop_cmd (cf_stacks g ! i) = 1" using reaches_post(2) [OF assms(1) i] assms(5) i by simp
  then have "cf_stacks g ! i \<noteq> []" by auto
  moreover have "i < length (cf_stacks g)" using reaches_finishing [OF assms(1)] i by (auto simp: finishing_inv_def)
  with assms(1,2) show ?thesis
    by (cases rule: rest_cases) (use mail \<open>cf_stacks g ! i \<noteq> []\<close> in \<open>auto simp: mails_def\<close>)
qed

lemma rest_ends:
  assumes "reaches E g" and "resting E g"
  shows "all_returned g \<or> \<not> is_triggered shutdown_counter (cf_world g) \<and> all_idle g"
proof (cases "is_triggered shutdown_counter (cf_world g)")
  case True
  let ?w = "cf_world g"
  have stop: "wk_stopped (w_workers ?w ! i)" if "i < crew ?w" for i
    using rest_stopped [OF assms True that] rest_stopped [OF assms True] by (metis less_numeral_extra(3))
  have "cf_stacks g ! i = []" if "i < length (cf_stacks g)" for i
    using assms that
  proof (cases rule: rest_shape)
    case (loop cs)
    with reaches_post(2) [OF assms(1) loop(2)] stop [OF loop(2)] show ?thesis by simp
  qed (use stop rest_started [OF assms] in auto)
  with stop show ?thesis by (auto simp: all_returned_def in_set_conv_nth)
next
  case False
  let ?w = "cf_world g"
  have up: "\<not> wk_stopped wk" if "wk \<in> set (w_workers ?w)" for wk
    using stopped_triggered [OF assms(1) that] False by blast
  have "wk_ready (w_workers ?w ! i) = []" if i: "i < crew ?w" for i
  proof -
    have loop: "todo loop_cmd (cf_stacks g ! i) = 1" using reaches_post(2) [OF assms(1) i] up i by simp
    then have ne: "cf_stacks g ! i \<noteq> []" by auto
    have "\<not> list_all waits_for_other (cf_stacks g ! i)"
    proof
      assume "list_all waits_for_other (cf_stacks g ! i)"
      then have "todo loop_cmd (cf_stacks g ! i) = 0"
        by (intro todo_zero) (auto simp: list_all_iff wait_no_loop)
      with loop show False by simp
    qed
    moreover have "\<not> joining (cf_stacks g ! 0)"
      using reaches_finishing [OF assms(1)] pending_armed [OF assms(1) False] by (auto simp: finishing_inv_def)
    moreover have "i < length (cf_stacks g)" using reaches_finishing [OF assms(1)] i by (auto simp: finishing_inv_def)
    with assms show ?thesis by (cases rule: rest_cases) (use ne calculation in auto)
  qed
  with up rest_idle [OF assms] False show ?thesis by (auto simp: all_idle_def in_set_conv_nth)
qed

text \<open>
  C4. Fair runs end well: in a run of a disciplined program in which every thread that is not blocked
  takes its turn again and again, whatever the order of the turns and the draws of the work stealing,
  the configuration eventually stays the same. Then either every worker has stopped and all threads have
  returned, that of \<open>main\<close> from the joins of all the others, or the shutdown counter has not triggered
  and all threads idle in their loops with nothing left in any queue. A step that fails, such as an
  attempt to steal whose draw overflows, is no turn.
\<close>

theorem fair_runs_end:
  assumes "reaches E (run 0)" and "fair_run E run"
  shows "\<exists>k. (\<forall>j\<ge>k. run j = run k)
    \<and> (all_returned (run k) \<or> \<not> is_triggered shutdown_counter (cf_world (run k)) \<and> all_idle (run k))"
proof -
  have turns: "\<forall>k. run (Suc k) = run k \<or> (\<exists>i. takes_turn E i (run k) (run (Suc k)))"
    using assms(2) by (simp add: fair_run_def)
  then have steps: "\<forall>k. run (Suc k) = run k \<or> disciplined E (run k) (run (Suc k))"
    using takes_turn_disciplined by blast
  obtain k where k: "run j = run k" if "k \<le> j" for j
    using run_settles [OF assms(1) steps] by blast
  have r: "reaches E (run k)" using run_reaches [OF assms(1) steps] .
  have len: "length (cf_stacks (run i)) = length (cf_stacks (run 0))" for i
  proof (induction i)
    case (Suc i)
    with turns show ?case by (metis takes_turn_length)
  qed simp
  have "resting E (run k)"
    unfolding resting_def
  proof (intro allI impI)
    fix i
    assume "i < length (cf_stacks (run k))"
    with assms(2) obtain j where j: "k \<le> j" "blocked i (run j) \<or> takes_turn E i (run j) (run (Suc j))"
      unfolding len [of k] fair_run_def by blast
    with k [OF j(1)] k [of "Suc j"] show "blocked i (run k) \<or> takes_turn E i (run k) (run k)" by simp
  qed
  from rest_ends [OF r this] k show ?thesis by blast
qed

text \<open>The sample program, run by its only thread until it has returned.\<close>

lemma check_step_turn:
  assumes "check_step E i g = Some g'"
  shows "takes_turn E i g g'"
  using assms outstanding_fits [of g]
  by (auto simp: check_step_def split: if_splits list.splits sum.splits prod.splits
      intro!: takes_turn.turn [where drawn = 0])

lemma check_run_snoc: "check_run E (is @ [i]) g = (case check_run E is g of None \<Rightarrow> None | Some g' \<Rightarrow> check_step E i g')"
  by (induction "is" arbitrary: g) (auto split: option.splits)

lemma sample_run_Suc: "sample_run (Suc n) = (case sample_run n of None \<Rightarrow> None | Some g \<Rightarrow> check_step sample_env 0 g)"
proof -
  have e: "replicate (Suc n) 0 = replicate n 0 @ [0 :: nat]" by (simp add: replicate_append_same)
  show ?thesis unfolding sample_run_def region_run_def e by (auto simp: check_run_snoc split: sum.splits)
qed

definition whole_run :: "nat \<Rightarrow> nat config" where
  "whole_run k = the (sample_run (min k 26))"

theorem fair_runs_end_witness:
  "reaches sample_env (whole_run 0) \<and> fair_run sample_env whole_run \<and> \<not> all_returned (whole_run 0)
     \<and> (\<exists>k. (\<forall>j\<ge>k. whole_run j = whole_run k) \<and> all_returned (whole_run k))"
proof -
  have "holds (\<lambda>g. cf_stacks g = [[]] \<and> is_triggered shutdown_counter (cf_world g)) (sample_run 26)" by code_simp
  then obtain g where g: "sample_run 26 = Some g" "cf_stacks g = [[]]" "is_triggered shutdown_counter (cf_world g)"
    by (auto elim: holdsE)
  have "sample_run n = None \<Longrightarrow> sample_run (n + m) = None" for n m by (induction m) (simp_all add: sample_run_Suc)
  then have some: "sample_run n \<noteq> None" if "n \<le> 26" for n using g(1) that by (metis le_add_diff_inverse option.discI)
  have step: "takes_turn sample_env 0 (whole_run k) (whole_run (Suc k))" if "k < 26" for k
    using that some [of k] some [of "Suc k"] check_step_turn
    by (auto simp: whole_run_def min_def sample_run_Suc split: option.splits)
  have final: "whole_run k = g" if "26 \<le> k" for k using that g by (simp add: whole_run_def min_def)
  have "length (cf_stacks (whole_run k)) = length (cf_stacks g)" for k
  proof (induction "26 - k" arbitrary: k)
    case (Suc m)
    then have "length (cf_stacks (whole_run (Suc k))) = length (cf_stacks g)" by (intro Suc.hyps(1)) simp
    with takes_turn_length [OF step [of k]] Suc.hyps(2) show ?case by simp
  qed (simp add: final)
  then have one: "length (cf_stacks (whole_run 0)) = 1" using g(2) by simp
  have f: "fair_run sample_env whole_run"
    unfolding fair_run_def one
  proof (intro conjI allI impI)
    fix k
    show "whole_run (Suc k) = whole_run k \<or> (\<exists>i. takes_turn sample_env i (whole_run k) (whole_run (Suc k)))"
      using step [of k] final [of k] final [of "Suc k"] by (cases "k < 26") auto
    fix i :: nat
    assume "i < 1"
    then have "blocked i (whole_run (max k 26))" using g(2) by (simp add: final blocked_def)
    then show "\<exists>j\<ge>k. blocked i (whole_run j) \<or> takes_turn sample_env i (whole_run j) (whole_run (Suc j))"
      by (intro exI [of _ "max k 26"]) simp
  qed
  have "holds (\<lambda>g. cf_stacks g \<noteq> [[]]) (sample_run 0)" by code_simp
  then obtain g0 where g0: "sample_run 0 = Some g0" "cf_stacks g0 \<noteq> [[]]" by (auto elim: holdsE)
  then have w0: "whole_run 0 = g0" by (simp add: whole_run_def)
  with g0 have r: "reaches sample_env (whole_run 0)" by (simp add: sample_run_def region_run_reaches)
  have "\<not> all_returned (whole_run 0)" using one w0 g0(2) by (auto simp: all_returned_def length_Suc_conv)
  moreover from fair_runs_end [OF r f] obtain k where k: "\<forall>j\<ge>k. whole_run j = whole_run k"
    "all_returned (whole_run k) \<or> \<not> is_triggered shutdown_counter (cf_world (whole_run k)) \<and> all_idle (whole_run k)" by blast
  moreover have "whole_run k = g" using k(1) final [of "max k 26"] by (metis max.cobounded1 max.cobounded2)
  ultimately show ?thesis using r f g(3) by metis
qed

end
