(* ===== verification/Unimplemented.thy ===== *)
theory Unimplemented
  imports Collectives
begin

text \<open>
  What the runtime offers to the frontend without an implementation: the migration functions of
  \<open>src/src/runtime/runtime.hpp\<close> and the \<open>allreduce_use\<close> with an input and an output use of
  \<open>src/src/collectives.cpp\<close> fail an assertion as their first statement, whatever their arguments. With
  them the one query of the runtime that computes something.
\<close>

definition get_execution_resource_count :: "nat \<Rightarrow> 'd world \<Rightarrow> nat" where
  "get_execution_resource_count depth w = (if depth = 0 then length (w_workers w) else 1)"

definition reregister_migrated_use :: "nat \<Rightarrow> 'd world \<Rightarrow> 'd world res" where
  "reregister_migrated_use u w = Inl NotImplemented"

definition get_packed_flow_size :: "nat \<Rightarrow> 'd world \<Rightarrow> nat res" where
  "get_packed_flow_size f w = Inl NotImplemented"

definition pack_flow :: "nat \<Rightarrow> 'b \<Rightarrow> 'd world \<Rightarrow> ('b \<times> 'd world) res" where
  "pack_flow f buffer w = Inl NotImplemented"

definition make_unpacked_flow :: "'b \<Rightarrow> 'd world \<Rightarrow> (nat \<times> 'b \<times> 'd world) res" where
  "make_unpacked_flow buffer w = Inl NotImplemented"

definition get_packed_anti_flow_size :: "nat \<Rightarrow> 'd world \<Rightarrow> nat res" where
  "get_packed_anti_flow_size f w = Inl NotImplemented"

definition pack_anti_flow :: "nat \<Rightarrow> 'b \<Rightarrow> 'd world \<Rightarrow> ('b \<times> 'd world) res" where
  "pack_anti_flow f buffer w = Inl NotImplemented"

definition make_unpacked_anti_flow :: "'b \<Rightarrow> 'd world \<Rightarrow> (nat \<times> 'b \<times> 'd world) res" where
  "make_unpacked_anti_flow buffer w = Inl NotImplemented"

definition allreduce_use_in_out :: "nat \<Rightarrow> nat \<Rightarrow> collective_details \<Rightarrow> key \<Rightarrow> 'd world \<Rightarrow> 'd outcome" where
  "allreduce_use_in_out use_in use_out d tag w = Inl NotImplemented"

end
