(* ===== verification/Partitions.thy ===== *)
theory Partitions
  imports ConcurrentContainers
begin

text \<open>
  \<open>src/src/worker/worker_openmp.cpp\<close>: the workers of the build with Kokkos (and without fcontext).
  The workers are divided into partitions of equal size. The threads of a partition run
  \<open>run_work_loop\<close> inside one OpenMP parallel region; a worker that meets a data-parallel task puts it
  aside, tells the other workers of its partition to leave the region and leaves it, and the
  partition's master then runs what was put aside while no worker of the partition is inside.

  A thread takes one step at a time, each step one access to shared state. What the file uses and the
  repository does not define is a parameter: \<open>ReadyTaskHolder\<close>, declared nowhere, and \<open>Worker::run_task\<close>,
  declared in \<open>worker.hpp\<close> and only there. Of a holder the file uses whether its task is null; of
  \<open>run_task\<close> it uses nothing but that it is called and returns, so a call of it is any number of
  steps that do anything to the queues of the workers and to the shutdown trigger, as running a task
  does that registers other tasks and may be the last one. The queues of the workers have the
  operations of \<open>ConcurrentDeque\<close>. As documented by their projects, \<open>partition_master\<close> of Kokkos calls the
  function once per partition, a parallel region of OpenMP ends when all its threads have, and
  the lock-free queue of boost in \<open>ready_kokkos_tasks\<close> is FIFO, one step per access. The build has no work
  stealing: \<open>try_to_steal_work\<close> of \<open>work_stealing_off.cpp\<close> returns false. The file was left behind when the
  classes it uses changed; its \<open>shutdown_trigger\<close> is what is now \<open>shutdown_counter\<close>.
\<close>

section \<open>State\<close>

text \<open>What others may change while a task runs: the queues of all workers and the trigger.\<close>

record 'h shared =
  sh_ready :: "'h deque list"               \<comment> \<open>\<open>workers[i].ready_tasks\<close>\<close>
  sh_triggered :: bool                      \<comment> \<open>\<open>shutdown_trigger.get_triggered()\<close>\<close>

text \<open>
  The code that is not in the repository: of a holder \<open>'h\<close> its task \<open>'t\<close>, if not null, and the holder
  that \<open>NeededForKokkosWork\<close> becomes; of a task whether it is data-parallel; and \<open>run_task\<close>, called on a worker
  and then run step by step until it returns \<open>None\<close>.
\<close>

record ('h, 't, 'a) kokkos_env =
  holder_task :: "'h \<Rightarrow> 't option"
  needed_for_kokkos_work :: 'h
  data_parallel :: "'t \<Rightarrow> bool"
  call_run_task :: "nat \<Rightarrow> 't \<Rightarrow> 'a"
  run_task_step :: "'a \<Rightarrow> 'h shared \<Rightarrow> ('a option \<times> 'h shared) res"

datatype ('h, 'a) worker_phase =
    AtLoop                  \<comment> \<open>at the head of \<open>while(true)\<close>\<close>
  | Popped 'h               \<comment> \<open>holds a data-parallel task, before the \<open>push\<close>\<close>
  | Tells nat               \<comment> \<open>in the \<open>for\<close> loop, at this \<open>iworker\<close>\<close>
  | InTask 'a               \<comment> \<open>in \<open>run_task\<close>\<close>
  | OutOfRegion             \<comment> \<open>not in the parallel region\<close>

datatype 'a master_phase =
    AtCheck                 \<comment> \<open>at the head of \<open>while(not ... get_triggered())\<close>\<close>
  | InRegion                \<comment> \<open>in the parallel region, with the workers of the partition\<close>
  | AfterRegion             \<comment> \<open>at the second \<open>get_triggered()\<close>\<close>
  | Consuming               \<comment> \<open>in the loop of \<open>consume_all\<close>\<close>
  | InKokkosTask 'a         \<comment> \<open>in \<open>run_task\<close>, called by the functor\<close>
  | MasterReturned          \<comment> \<open>out of the loop\<close>

text \<open>
  \<open>ks_taken\<close> and \<open>ks_begun\<close> record what happened: what workers got from their queues, and the calls of
  \<open>run_task\<close> with the thread that made them.
\<close>

datatype kokkos_thread = WorkerThread nat | MasterThread nat

record ('h, 't, 'a) kokkos_state =
  ks_shared :: "'h shared"
  ks_waiting :: "'h list list"                 \<comment> \<open>\<open>ready_kokkos_tasks[p]\<close>\<close>
  ks_phase :: "('h, 'a) worker_phase list"
  ks_master :: "'a master_phase list"
  ks_taken :: "(nat \<times> 'h) list"
  ks_begun :: "(kokkos_thread \<times> 't) list"

abbreviation ready_of :: "('h, 't, 'a) kokkos_state \<Rightarrow> 'h deque list" where
  "ready_of s \<equiv> sh_ready (ks_shared s)"

section \<open>The loop of a worker\<close>

definition set_phase :: "nat \<Rightarrow> ('h, 'a) worker_phase \<Rightarrow> ('h, 't, 'a) kokkos_state \<Rightarrow> ('h, 't, 'a) kokkos_state" where
  "set_phase w ph s = s\<lparr>ks_phase := (ks_phase s)[w := ph]\<rparr>"

definition set_queue :: "nat \<Rightarrow> 'h deque \<Rightarrow> ('h, 't, 'a) kokkos_state \<Rightarrow> ('h, 't, 'a) kokkos_state" where
  "set_queue w q s = s\<lparr>ks_shared := (ks_shared s)\<lparr>sh_ready := (ready_of s)[w := q]\<rparr>\<rparr>"

definition begin_task :: "kokkos_thread \<Rightarrow> 't \<Rightarrow> ('h, 't, 'a) kokkos_state \<Rightarrow> ('h, 't, 'a) kokkos_state" where
  "begin_task th t s = s\<lparr>ks_begun := ks_begun s @ [(th, t)]\<rparr>"

text \<open>
  What \<open>run_work_loop\<close> does with what it got from its queue: a null task ends the loop whatever its
  message, a data-parallel task is put aside, another one is run. Without an operation the worker
  tries to steal, which does nothing, and goes round.
\<close>

definition handle_ready ::
    "('h, 't, 'a) kokkos_env \<Rightarrow> nat \<Rightarrow> 'h option \<Rightarrow> ('h, 't, 'a) kokkos_state \<Rightarrow> ('h, 't, 'a) kokkos_state" where
  "handle_ready E w ready s =
     (case ready of
        None \<Rightarrow> s
      | Some h \<Rightarrow>
          let s1 = s\<lparr>ks_taken := ks_taken s @ [(w, h)]\<rparr>
          in (case holder_task E h of
                None \<Rightarrow> set_phase w OutOfRegion s1
              | Some t \<Rightarrow>
                  if data_parallel E t then set_phase w (Popped h) s1
                  else set_phase w (InTask (call_run_task E w t)) (begin_task (WorkerThread w) t s1)))"

text \<open>
  The worker's number is a \<open>size_t\<close>, to which the \<open>int\<close> argument \<open>threads_per_partition\<close> is converted in
  \<open>id / threads_per_partition\<close> and in the bound of the loop: a negative one becomes a large number.
\<close>

definition as_size_t :: "int \<Rightarrow> nat" where
  "as_size_t i = unat (word_of_int i :: u64)"

definition partition_of :: "int \<Rightarrow> nat \<Rightarrow> nat" where
  "partition_of tpp w = w div as_size_t tpp"

definition partition_first :: "int \<Rightarrow> nat \<Rightarrow> nat" where
  "partition_first tpp w = partition_of tpp w * as_size_t tpp"

definition partition_end :: "int \<Rightarrow> nat \<Rightarrow> nat" where
  "partition_end tpp w = unat (of_nat (partition_first tpp w) + word_of_int tpp :: u64)"

text \<open>
  One step of worker \<open>w\<close>. The message goes to the front of the queue of every worker of the partition
  but \<open>w\<close>.
\<close>

definition worker_step ::
    "('h, 't, 'a) kokkos_env \<Rightarrow> int \<Rightarrow> nat \<Rightarrow> ('h, 't, 'a) kokkos_state \<Rightarrow> ('h, 't, 'a) kokkos_state res" where
  "worker_step E tpp w s =
     (case ks_phase s ! w of
        AtLoop \<Rightarrow>
          bindE (at NoSuchWorker (ready_of s) w) (\<lambda>q.
          bindE (get_and_pop_front q) (\<lambda>(ready, q').
            Inr (handle_ready E w ready (set_queue w q' s))))
      | Popped h \<Rightarrow>
          bindE (require DivisionByZero (as_size_t tpp \<noteq> 0)) (\<lambda>_.
          bindE (at NoSuchPartition (ks_waiting s) (partition_of tpp w)) (\<lambda>hs.
            Inr (set_phase w (Tells (partition_first tpp w))
                   (s\<lparr>ks_waiting := (ks_waiting s)[partition_of tpp w := hs @ [h]]\<rparr>))))
      | Tells i \<Rightarrow>
          if i < partition_end tpp w then
            if i \<noteq> w then
              bindE (at NoSuchWorker (ready_of s) i) (\<lambda>q.
              bindE (emplace_front (needed_for_kokkos_work E) q) (\<lambda>q'.
                Inr (set_phase w (Tells (Suc i)) (set_queue i q' s))))
            else Inr (set_phase w (Tells (Suc i)) s)
          else Inr (set_phase w OutOfRegion s)
      | InTask a \<Rightarrow>
          bindE (run_task_step E a (ks_shared s)) (\<lambda>(a', sh).
            Inr (set_phase w (case a' of None \<Rightarrow> AtLoop | Some a' \<Rightarrow> InTask a') (s\<lparr>ks_shared := sh\<rparr>)))
      | OutOfRegion \<Rightarrow> Inr s)"

section \<open>The loop of a partition's master\<close>

text \<open>The workers whose loops the threads of the region run, \<open>partition_id * threads_per_partition + i\<close>.\<close>

definition workers_of :: "int \<Rightarrow> nat \<Rightarrow> nat list" where
  "workers_of tpp p = map (\<lambda>i. p * nat tpp + i) [0..<nat tpp]"

definition set_master :: "nat \<Rightarrow> 'a master_phase \<Rightarrow> ('h, 't, 'a) kokkos_state \<Rightarrow> ('h, 't, 'a) kokkos_state" where
  "set_master p m s = s\<lparr>ks_master := (ks_master s)[p := m]\<rparr>"

text \<open>
  Entering the region starts the loop of every worker of the partition: the number of threads must be
  positive, the products of \<open>int\<close> must fit and the workers must exist. The region ends when all of
  them have left their loops. Then, unless the program is over, everything that was put aside is run.
\<close>

definition enter_region :: "int \<Rightarrow> nat \<Rightarrow> ('h, 't, 'a) kokkos_state \<Rightarrow> ('h, 't, 'a) kokkos_state res" where
  "enter_region tpp p s =
     bindE (require BadTeamSize (0 < tpp)) (\<lambda>_.
     bindE (require IntOverflow (int p * tpp + tpp \<le> 2 ^ 31)) (\<lambda>_.
     bindE (require NoSuchWorker (p * nat tpp + nat tpp \<le> length (ks_phase s))) (\<lambda>_.
       Inr (set_master p InRegion (fold (\<lambda>w. set_phase w AtLoop) (workers_of tpp p) s)))))"

definition region_over :: "int \<Rightarrow> nat \<Rightarrow> ('h, 't, 'a) kokkos_state \<Rightarrow> bool" where
  "region_over tpp p s \<longleftrightarrow> (\<forall>w\<in>set (workers_of tpp p). case ks_phase s ! w of OutOfRegion \<Rightarrow> True | _ \<Rightarrow> False)"

definition master_step ::
    "('h, 't, 'a) kokkos_env \<Rightarrow> int \<Rightarrow> nat \<Rightarrow> ('h, 't, 'a) kokkos_state \<Rightarrow> ('h, 't, 'a) kokkos_state res" where
  "master_step E tpp p s =
     (case ks_master s ! p of
        AtCheck \<Rightarrow> if sh_triggered (ks_shared s) then Inr (set_master p MasterReturned s) else enter_region tpp p s
      | InRegion \<Rightarrow> Inr (if region_over tpp p s then set_master p AfterRegion s else s)
      | AfterRegion \<Rightarrow> Inr (set_master p (if sh_triggered (ks_shared s) then MasterReturned else Consuming) s)
      | Consuming \<Rightarrow>
          bindE (at NoSuchPartition (ks_waiting s) p) (\<lambda>hs.
            case hs of
              [] \<Rightarrow> Inr (set_master p AtCheck s)
            | h # hs' \<Rightarrow>
                bindE (deref NullPointer (holder_task E h)) (\<lambda>t.
                  Inr (set_master p (InKokkosTask (call_run_task E (p * nat tpp) t))
                    (begin_task (MasterThread p) t (s\<lparr>ks_waiting := (ks_waiting s)[p := hs']\<rparr>)))))
      | InKokkosTask a \<Rightarrow>
          bindE (run_task_step E a (ks_shared s)) (\<lambda>(a', sh).
            Inr (set_master p (case a' of None \<Rightarrow> Consuming | Some a' \<Rightarrow> InKokkosTask a') (s\<lparr>ks_shared := sh\<rparr>)))
      | MasterReturned \<Rightarrow> Inr s)"

section \<open>Threads and schedules\<close>

text \<open>A schedule names the thread that takes the next step; a thread that does not exist takes none.\<close>

fun kokkos_step ::
    "('h, 't, 'a) kokkos_env \<Rightarrow> int \<Rightarrow> kokkos_thread \<Rightarrow> ('h, 't, 'a) kokkos_state \<Rightarrow> ('h, 't, 'a) kokkos_state res" where
  "kokkos_step E tpp (WorkerThread w) s =
     (if w < length (ks_phase s) then worker_step E tpp w s else Inr s)"
| "kokkos_step E tpp (MasterThread p) s =
     (if p < length (ks_master s) then master_step E tpp p s else Inr s)"

fun kokkos_run ::
    "('h, 't, 'a) kokkos_env \<Rightarrow> int \<Rightarrow> kokkos_thread list \<Rightarrow> ('h, 't, 'a) kokkos_state \<Rightarrow> ('h, 't, 'a) kokkos_state res" where
  "kokkos_run E tpp [] s = Inr s"
| "kokkos_run E tpp (th # ths) s = bindE (kokkos_step E tpp th s) (kokkos_run E tpp ths)"

text \<open>
  The start of \<open>spin_up_worker_threads\<close> with the queues that the workers have then. The quotient of the
  two \<open>size_t\<close> is narrowed to an \<open>int\<close>; the loop over the partitions has an \<open>int\<close> index; the masters
  are at the heads of their loops and no worker is in a region.
\<close>

definition threads_per_partition :: "u64 \<Rightarrow> u64 \<Rightarrow> int" where
  "threads_per_partition nthreads partitions = sint (ucast (nthreads div partitions) :: 32 word)"

definition kokkos_spin_up :: "u64 \<Rightarrow> u64 \<Rightarrow> 'h shared \<Rightarrow> (int \<times> ('h, 't, 'a) kokkos_state) res" where
  "kokkos_spin_up nthreads partitions sh =
     bindE (require DivisionByZero (partitions \<noteq> 0)) (\<lambda>_.
     bindE (int_loop partitions) (\<lambda>is.
       Inr (threads_per_partition nthreads partitions,
            \<lparr>ks_shared = sh, ks_waiting = map (\<lambda>_. []) is,
             ks_phase = map (\<lambda>_. OutOfRegion) (sh_ready sh), ks_master = map (\<lambda>_. AtCheck) is,
             ks_taken = [], ks_begun = []\<rparr>)))"

text \<open>The threads are OpenMP's: \<open>spawn_work_loop\<close> must not be called and \<open>join\<close> does nothing.\<close>

definition kokkos_spawn_work_loop :: "int \<Rightarrow> ('h, 't, 'a) kokkos_state \<Rightarrow> ('h, 't, 'a) kokkos_state res" where
  "kokkos_spawn_work_loop tpp s = Inl NotImplemented"

definition kokkos_join :: "('h, 't, 'a) kokkos_state \<Rightarrow> ('h, 't, 'a) kokkos_state res" where
  "kokkos_join s = Inr s"

end
