(* ===== verification/PartitionRun.thy ===== *)
theory PartitionRun
  imports Partitions Arguments
begin

text \<open>
  What holds in every run of the partitions, whatever \<open>run_task\<close> does to the queues and however the
  threads are scheduled: the workers of a partition are outside their loops whenever its master is not
  in the region, data-parallel tasks are run by the masters alone, and no task that a worker took from its
  queue is lost or run twice. Then what one worker does to its partition when it meets a data-parallel
  task, and how the partitions of a command line divide the workers.
\<close>

section \<open>Where the tasks are\<close>







section \<open>The invariant\<close>








subsection \<open>Updates\<close>

lemma partition_frames [simp]:
  "ks_phase (set_queue w q s) = ks_phase s" "ks_master (set_queue w q s) = ks_master s"
  "ks_waiting (set_queue w q s) = ks_waiting s" "ks_taken (set_queue w q s) = ks_taken s"
  "ks_begun (set_queue w q s) = ks_begun s"
  "ks_phase (begin_task th t s) = ks_phase s" "ks_master (begin_task th t s) = ks_master s"
  "ks_waiting (begin_task th t s) = ks_waiting s" "ks_taken (begin_task th t s) = ks_taken s"
  "ks_begun (begin_task th t s) = ks_begun s @ [(th, t)]"
  "ks_phase (set_phase w ph s) = (ks_phase s)[w := ph]" "ks_master (set_phase w ph s) = ks_master s"
  "ks_waiting (set_phase w ph s) = ks_waiting s" "ks_taken (set_phase w ph s) = ks_taken s"
  "ks_begun (set_phase w ph s) = ks_begun s" "ks_shared (set_phase w ph s) = ks_shared s"
  "ks_phase (set_master p m s) = ks_phase s" "ks_master (set_master p m s) = (ks_master s)[p := m]"
  "ks_waiting (set_master p m s) = ks_waiting s" "ks_taken (set_master p m s) = ks_taken s"
  "ks_begun (set_master p m s) = ks_begun s"
  by (simp_all add: set_queue_def begin_task_def set_phase_def set_master_def)





lemma set_workers_of: "set (workers_of tpp p) = {p * nat tpp..<p * nat tpp + nat tpp}"
proof -
  have "workers_of tpp p = [p * nat tpp..<p * nat tpp + nat tpp]"
    unfolding workers_of_def by (rule nth_equalityI) simp_all
  then show ?thesis by simp
qed





subsection \<open>Steps\<close>














section \<open>What holds in every run\<close>

text \<open>
  A small environment: a holder is a task or null, even tasks are data-parallel, a task is over after
  one step, in which it registers nothing.
\<close>

definition sample_kokkos_env :: "(nat option, nat, nat) kokkos_env" where
  "sample_kokkos_env = \<lparr>holder_task = (\<lambda>h. h), needed_for_kokkos_work = None, data_parallel = even,
     call_run_task = (\<lambda>w t. t), run_task_step = (\<lambda>a sh. Inr (None, sh))\<rparr>"









section \<open>A worker that meets a data-parallel task\<close>

text \<open>What is in a queue once the loop has come to \<open>iworker\<close>.\<close>

definition told_upto :: "('h, 't, 'a) kokkos_env \<Rightarrow> nat \<Rightarrow> nat \<Rightarrow> nat \<Rightarrow> 'h deque list \<Rightarrow> 'h deque list" where
  "told_upto E w first i qs = map (\<lambda>v. if first \<le> v \<and> v < i \<and> v \<noteq> w
     then (qs ! v)\<lparr>dq_data := needed_for_kokkos_work E # dq_data (qs ! v)\<rparr> else qs ! v) [0..<length qs]"

lemma told_upto_Suc:
  "first \<le> i \<Longrightarrow> i < length qs \<Longrightarrow> told_upto E w first (Suc i) qs =
     (if i = w then told_upto E w first i qs
      else (told_upto E w first i qs)[i := (qs ! i)\<lparr>dq_data := needed_for_kokkos_work E # dq_data (qs ! i)\<rparr>])"
  by (auto simp: told_upto_def nth_list_update intro!: nth_equalityI)

lemma told_upto_start: "told_upto E w first first qs = qs"
  by (auto simp: told_upto_def intro!: nth_equalityI)

definition telling :: "('h, 't, 'a) kokkos_env \<Rightarrow> nat \<Rightarrow> nat \<Rightarrow> nat \<Rightarrow> 'h deque list \<Rightarrow> 'h list list
    \<Rightarrow> ('h, 't, 'a) kokkos_state \<Rightarrow> ('h, 't, 'a) kokkos_state" where
  "telling E w first i qs waiting s = s\<lparr>ks_shared := (ks_shared s)\<lparr>sh_ready := told_upto E w first i qs\<rparr>,
     ks_waiting := waiting, ks_phase := (ks_phase s)[w := Tells i]\<rparr>"

lemma tells_one:
  assumes "w < length (ks_phase s)" and "first \<le> i" "i < partition_end tpp w" "i < length qs" "dq_mutex (qs ! i)"
  shows "worker_step E tpp w (telling E w first i qs waiting s) = Inr (telling E w first (Suc i) qs waiting s)"
proof -
  have "told_upto E w first i qs ! i = qs ! i" "length (told_upto E w first i qs) = length qs"
    using assms(4) by (simp_all add: told_upto_def)
  with assms show ?thesis
    by (simp add: worker_step_def telling_def told_upto_Suc set_phase_def set_queue_def emplace_front_def)
qed

lemma tells_all:
  assumes "w < length (ks_phase s)" and "first \<le> i" "i + k = partition_end tpp w" "partition_end tpp w \<le> length qs"
    and "\<forall>q\<in>set qs. dq_mutex q"
  shows "kokkos_run E tpp (replicate k (WorkerThread w)) (telling E w first i qs waiting s)
    = Inr (telling E w first (partition_end tpp w) qs waiting s)"
  using assms(2,3)
proof (induction k arbitrary: i)
  case 0
  then show ?case by simp
next
  case (Suc k)
  have "worker_step E tpp w (telling E w first i qs waiting s) = Inr (telling E w first (Suc i) qs waiting s)"
    using Suc.prems assms by (intro tells_one) simp_all
  moreover have "w < length (ks_phase (telling E w first i qs waiting s))" using assms(1) by (simp add: telling_def)
  ultimately show ?case using Suc by simp
qed

lemma kokkos_run_append:
  "kokkos_run E tpp (ths @ ths') s = bindE (kokkos_run E tpp ths s) (kokkos_run E tpp ths')"
proof (induction ths arbitrary: s)
  case (Cons th ths)
  then show ?case by (cases "kokkos_step E tpp th s") simp_all
qed simp

text \<open>A worker of partition \<open>p\<close> computes the bounds of its partition.\<close>

lemma partition_bounds:
  assumes w: "w \<in> set (workers_of tpp p)" and tpp: "0 < tpp" "tpp < 2 ^ 31" and fits: "p * nat tpp + nat tpp < 2 ^ 64"
  shows "as_size_t tpp = nat tpp" "partition_of tpp w = p" "partition_first tpp w = p * nat tpp"
    "partition_end tpp w = p * nat tpp + nat tpp"
proof -
  have "word_of_int tpp = (of_nat (nat tpp) :: u64)" by (rule word_of_int_nat) (use tpp(1) in simp)
  moreover have "nat tpp < 2 ^ 64" using fits by simp
  ultimately have word: "unat (word_of_int tpp :: u64) = nat tpp" by (simp add: unat_u64_of_nat)
  then show size: "as_size_t tpp = nat tpp" by (simp add: as_size_t_def)
  show part: "partition_of tpp w = p"
    unfolding partition_of_def size
    using w by (intro div_nat_eqI) (auto simp: set_workers_of mult.commute)
  show first: "partition_first tpp w = p * nat tpp" by (simp add: partition_first_def part size)
  have "unat (of_nat (p * nat tpp) :: u64) = p * nat tpp" using fits by (intro unat_u64_of_nat) simp
  with word fits show "partition_end tpp w = p * nat tpp + nat tpp"
    unfolding partition_end_def first by (subst unat_u64_add) simp_all
qed

text \<open>
  C31. A worker that meets a data-parallel task calls its partition out of the region: in its next
  steps it puts the task at the end of what waits for the partition's master, puts
  \<open>NeededForKokkosWork\<close> at the front of the queue of every other worker of its partition, of these
  only and once each, and leaves its loop; nothing else changes.
\<close>

theorem worker_tells_partition:
  assumes "w \<in> set (workers_of tpp p)" and "0 < tpp" and "tpp < 2 ^ 31"
    and "p * nat tpp + nat tpp \<le> length (ready_of s)" and "length (ready_of s) < 2 ^ 64"
    and "length (ks_phase s) = length (ready_of s)" and "p < length (ks_waiting s)"
    and "\<forall>q\<in>set (ready_of s). dq_mutex q" and "ks_phase s ! w = Popped h"
  shows "kokkos_run E tpp (replicate (nat tpp + 2) (WorkerThread w)) s
    = Inr (s\<lparr>ks_shared := (ks_shared s)\<lparr>sh_ready := map (\<lambda>v.
               let q = ready_of s ! v
               in if v \<in> set (workers_of tpp p) \<and> v \<noteq> w
                  then q\<lparr>dq_data := needed_for_kokkos_work E # dq_data q\<rparr> else q) [0..<length (ready_of s)]\<rparr>,
             ks_waiting := (ks_waiting s)[p := ks_waiting s ! p @ [h]],
             ks_phase := (ks_phase s)[w := OutOfRegion]\<rparr>)"
proof -
  let ?first = "p * nat tpp" and ?waiting = "(ks_waiting s)[p := ks_waiting s ! p @ [h]]"
  have w: "w < length (ks_phase s)" using assms(1,4,6) by (simp add: set_workers_of)
  note b = partition_bounds [OF assms(1-3)]
  have fits: "p * nat tpp + nat tpp < 2 ^ 64" using assms(4,5) by simp
  note b = b [OF fits]
  let ?at = "\<lambda>i. telling E w ?first i (ready_of s) ?waiting s"
  have push: "worker_step E tpp w s = Inr (?at ?first)"
    using assms(2,7,9) w by (simp add: worker_step_def b telling_def told_upto_start set_phase_def)
  have loop: "kokkos_run E tpp (replicate (nat tpp) (WorkerThread w)) (?at ?first) = Inr (?at (?first + nat tpp))"
    using tells_all [of w s ?first ?first "nat tpp" tpp "ready_of s" E ?waiting] w assms(4,8) by (simp add: b)
  have leave: "worker_step E tpp w (?at (?first + nat tpp)) = Inr (set_phase w OutOfRegion (?at (?first + nat tpp)))"
    using w by (simp add: worker_step_def telling_def b)
  have "replicate (nat tpp + 2) (WorkerThread w) = WorkerThread w # replicate (nat tpp) (WorkerThread w) @ [WorkerThread w]"
    by (simp add: replicate_append_same)
  moreover have "w < length (ks_phase (?at i))" for i using w by (simp add: telling_def)
  ultimately have "kokkos_run E tpp (replicate (nat tpp + 2) (WorkerThread w)) s = Inr (set_phase w OutOfRegion (?at (?first + nat tpp)))"
    using w push loop leave by (simp add: kokkos_run_append)
  then show ?thesis
    by (simp add: telling_def told_upto_def set_phase_def set_workers_of Let_def conj_assoc)
qed

text \<open>
  Worker 2 of the small environment, called out of the loop by its data-parallel task, tells worker 3
  and nobody else.
\<close>

theorem worker_tells_partition_witness:
  "\<exists>s s' :: (nat option, nat, nat) kokkos_state. ks_phase s ! 2 = Popped (Some 4)
    \<and> kokkos_run sample_kokkos_env 2 (replicate 4 (WorkerThread 2)) s = Inr s'
    \<and> ks_waiting s' = [[], [Some 4]] \<and> map dq_data (ready_of s') = [[Some 5], [], [], [None]]
    \<and> ks_phase s' ! 2 = OutOfRegion"
proof -
  define s :: "(nat option, nat, nat) kokkos_state" where
    "s = \<lparr>ks_shared = \<lparr>sh_ready = map (\<lambda>ts. \<lparr>dq_mutex = True, dq_data = ts\<rparr>) [[Some 5], [], [], []],
        sh_triggered = False\<rparr>, ks_waiting = [[], []], ks_phase = [OutOfRegion, OutOfRegion, Popped (Some 4), AtLoop],
      ks_master = [InKokkosTask 2, InRegion], ks_taken = [(2, Some 4)], ks_begun = []\<rparr>"
  have "kokkos_run sample_kokkos_env 2 (replicate (nat 2 + 2) (WorkerThread 2)) s
    = Inr (s\<lparr>ks_shared := (ks_shared s)\<lparr>sh_ready := map (\<lambda>v.
               let q = ready_of s ! v
               in if v \<in> set (workers_of 2 1) \<and> v \<noteq> 2
                  then q\<lparr>dq_data := needed_for_kokkos_work sample_kokkos_env # dq_data q\<rparr> else q) [0..<length (ready_of s)]\<rparr>,
             ks_waiting := (ks_waiting s)[1 := ks_waiting s ! 1 @ [Some 4]],
             ks_phase := (ks_phase s)[2 := OutOfRegion]\<rparr>)" (is "_ = Inr ?s'")
    by (rule worker_tells_partition) (simp_all add: s_def set_workers_of)
  moreover have "ks_phase s ! 2 = Popped (Some 4)" "ks_waiting ?s' = [[], [Some 4]]" "ks_phase ?s' ! 2 = OutOfRegion"
    "map dq_data (ready_of ?s') = [[Some 5], [], [], [None]]"
    by (simp_all add: s_def set_workers_of sample_kokkos_env_def upt_rec Let_def)
  ultimately show ?thesis by (intro exI [of _ s] exI [of _ ?s']) simp
qed

section \<open>The partitions of a command line\<close>

lemma workers_tile: "concat (map (workers_of tpp) [0..<k]) = [0..<k * nat tpp]"
proof (induction k)
  case 0
  then show ?case by simp
next
  case (Suc k)
  have "workers_of tpp k = [k * nat tpp..<k * nat tpp + nat tpp]"
    unfolding workers_of_def by (rule nth_equalityI) simp_all
  with Suc show ?case using upt_add_eq_append [of 0 "k * nat tpp" "nat tpp"] by (simp add: add.commute)
qed

text \<open>The narrowing keeps a quotient that fits an \<open>int\<close>.\<close>

lemma threads_per_partition_small:
  assumes "unat n < 2 ^ 31"
  shows "threads_per_partition n k = int (unat n div unat k)"
proof -
  have "unat (n div k) < 2 ^ 31"
    using assms by (metis div_le_dividend le_less_trans unat_div)
  then have small: "uint (n div k) < 2 ^ 31"
    unfolding uint_nat by (metis of_nat_less_iff of_nat_numeral of_nat_power)
  have "uint (ucast (n div k) :: 32 word) = uint (n div k)"
    using small by (simp add: unsigned_ucast_eq take_bit_int_eq_self)
  moreover have "sint (x :: 32 word) = uint x" if "uint x < 2 ^ 31" for x
  proof -
    have "- (2 ^ 31) \<le> uint x" by (rule order.trans [OF _ uint_ge_0]) simp
    with that have "signed_take_bit 31 (uint x) = uint x" by (intro signed_take_bit_int_eq_self)
    then show ?thesis by (simp add: sint_uint)
  qed
  ultimately have "threads_per_partition n k = uint (n div k)"
    using small by (simp add: threads_per_partition_def)
  then show ?thesis by (simp add: uint_nat unat_div)
qed

text \<open>
  C32. The partitions of an accepted command line with fewer than 2 ^ 31 workers: they start with at least
  one worker each, the workers of the partitions, one partition after another, are all the workers,
  each exactly once, and every partition can enter its region.
\<close>

theorem partitions_tile_workers:
  assumes "parse_args_kokkos argv = Inr (opts, rv)" and "unat (n_threads opts) < 2 ^ 31"
    and "length (sh_ready sh) = unat (n_threads opts)"
  shows "case kokkos_spin_up (n_threads opts) (kokkos_partitions opts) sh of
      Inl e \<Rightarrow> False
    | Inr (tpp, s) \<Rightarrow> 0 < tpp \<and> length (ks_master s) = unat (kokkos_partitions opts)
        \<and> concat (map (workers_of tpp) [0..<length (ks_master s)]) = [0..<length (ks_phase s)]
        \<and> (\<forall>p<length (ks_master s). \<exists>s'. enter_region tpp p s = Inr s')"
proof -
  let ?n = "unat (n_threads opts)" and ?k = "unat (kokkos_partitions opts)"
  note even = parse_args_kokkos_even [OF assms(1)]
  then have all: "?k * (?n div ?k) = ?n" using mult_div_mod_eq [of ?k ?n] by simp
  from even have pos: "0 < ?n div ?k" by (simp add: div_greater_zero_iff)
  have tpp: "threads_per_partition (n_threads opts) (kokkos_partitions opts) = int (?n div ?k)"
    by (rule threads_per_partition_small [OF assms(2)])
  have loop: "int_loop (kokkos_partitions opts) = Inr [0..<?k]" using even(2) assms(2) by simp
  have "p * (?n div ?k) + ?n div ?k \<le> ?n" if "p < ?k" for p
    using that all mult_le_mono1 [of "Suc p" ?k "?n div ?k"] by (simp add: add.commute)
  moreover have "int p * int (?n div ?k) + int (?n div ?k) \<le> 2 ^ 31" if "p < ?k" for p
  proof -
    from calculation [OF that] assms(2) have "p * (?n div ?k) + ?n div ?k \<le> 2 ^ 31" by linarith
    then have "int (p * (?n div ?k) + ?n div ?k) \<le> int (2 ^ 31)" by (simp only: of_nat_le_iff)
    then show ?thesis by simp
  qed
  moreover have "kokkos_partitions opts \<noteq> 0" using even(1) by auto
  ultimately show ?thesis
    using pos all assms(3) by (simp add: kokkos_spin_up_def loop tpp workers_tile enter_region_def)
qed

theorem partitions_tile_workers_witness:
  "case parse_args_kokkos [''app'', ''--ranks'', ''6'', ''--backend-kokkos-partitions'', ''3''] of
     Inl e \<Rightarrow> False
   | Inr (opts, rv) \<Rightarrow>
       (case kokkos_spin_up (n_threads opts) (kokkos_partitions opts) \<lparr>sh_ready = replicate 6 deque_new, sh_triggered = False\<rparr> of
          Inl e \<Rightarrow> False
        | Inr (tpp, s) \<Rightarrow> 0 < tpp \<and> length (ks_master s) = 3
            \<and> concat (map (workers_of tpp) [0..<length (ks_master s)]) = [0..<6])"
proof -
  have parse: "parse_args_kokkos [''app'', ''--ranks'', ''6'', ''--backend-kokkos-partitions'', ''3'']
      = Inr (\<lparr>n_threads = 6, lookahead = 20, kokkos_partitions = 3\<rparr>, [''app''])"
    by (simp add: parse_args_kokkos_def check_partitions_def n_threads_default_def lookahead_default_def
        kokkos_partitions_default_def atoi_def is_space_def digit_of_def Let_def)
  have loop: "int_loop 3 = Inr [0..<3]" by (simp only: int_loop_eq_Inr) simp
  show ?thesis
    using partitions_tile_workers [OF parse, of "\<lparr>sh_ready = replicate 6 deque_new, sh_triggered = False\<rparr>"]
    by (auto simp: parse kokkos_spin_up_def loop split: sum.splits)
qed

text \<open>
  Without the bound the narrowing matters: a negative number of workers is accepted, becomes a large
  one, and its quotient by the default number of partitions a negative \<open>int\<close>, with which no region can be entered.
\<close>

lemma negative_partition:
  "parse_args_kokkos [''app'', ''--ranks'', ''-4''] = Inr (\<lparr>n_threads = - 4, lookahead = 20, kokkos_partitions = 4\<rparr>, [''app''])"
  "threads_per_partition (- 4) 4 = -1" "enter_region (-1) p s = Inl BadTeamSize"
proof -
  show "parse_args_kokkos [''app'', ''--ranks'', ''-4''] = Inr (\<lparr>n_threads = - 4, lookahead = 20, kokkos_partitions = 4\<rparr>, [''app''])"
    by (simp add: parse_args_kokkos_def check_partitions_def n_threads_default_def lookahead_default_def
        kokkos_partitions_default_def atoi_def is_space_def digit_of_def Let_def)
  show "threads_per_partition (- 4) 4 = -1" by code_simp
  show "enter_region (-1) p s = Inl BadTeamSize" by (simp add: enter_region_def)
qed

end
