(* ===== verification/Decrements.thy ===== *)
theory Decrements
  imports Safety
begin

text \<open>
  Where \<open>decrement_count\<close> can meet a counter that has triggered: every place of the sources that
  decrements one, and why none of them is ever too late in a reachable configuration, the release event
  of a publication apart, whose fetchers the frontend counts.
\<close>

section \<open>Operations that do not fail on a decrement\<close>

text \<open>The result of an operation is not the failed assertion of \<open>decrement_count\<close>.\<close>

definition in_time :: "rt_error + 'a \<Rightarrow> bool" where
  "in_time r \<longleftrightarrow> r \<noteq> Inl DecrementAfterTrigger"

named_theorems in_time_intros

lemma in_time_basic [simp]:
  "in_time (Inr x)" "in_time (Inl e) \<longleftrightarrow> e \<noteq> DecrementAfterTrigger"
  "in_time (at e xs i) \<longleftrightarrow> i < length xs \<or> e \<noteq> DecrementAfterTrigger"
  "in_time (deref e p) \<longleftrightarrow> p \<noteq> None \<or> e \<noteq> DecrementAfterTrigger"
  "in_time (require e b) \<longleftrightarrow> b \<or> e \<noteq> DecrementAfterTrigger"
  by (auto simp: in_time_def)

lemma in_time_bind [in_time_intros]:
  "in_time m \<Longrightarrow> (\<And>x. m = Inr x \<Longrightarrow> in_time (f x)) \<Longrightarrow> in_time (bindE m f)"
  by (cases m) auto

lemma in_time_then_do [in_time_intros]: "in_time r \<Longrightarrow> in_time (then_do r cs)"
  unfolding then_do_def by (intro in_time_intros) auto

lemma in_time_decrement: "in_time (decrement_count e w) \<longleftrightarrow> \<not> is_triggered e w"
  by (auto simp: in_time_def decrement_count_def is_triggered_def bindE_eq_Inl make_ready_def Let_def split: if_splits)

lemma in_time_access [simp]:
  "in_time (use_at u w)" "in_time (flow_at f w)" "in_time (worker_at i w)" "in_time (worker_index j w)"
  "in_time (control_block_of f w)" "in_time (invocation_at ip w)" "in_time (lock_invocation ip w)"
  "in_time (first_input ip w)" "in_time (in_flow_of u w)" "in_time (in_block_of u w)"
  "in_time (data_of_block c w)" "in_time (data_of_use u w)" "in_time (token_of coll w)"
  "in_time (read_flow_slot fs w)" "in_time (read_anti_flow_slot afs w)"
  "in_time (related_flow_ptr rel w)" "in_time (related_flow_deref rel w)" "in_time (related_anti_flow_ptr rel w)"
  "in_time (collection_block_of f w)" "in_time (cblk_key cb w)" "in_time (published_entry t k w)"
  "in_time (ensure_entry t k w)" "in_time (publication_key cb rel w)" "in_time (parent_token_of f w)"
  "in_time (published_key u d w)" "in_time (assign_key h w)"
  by (auto simp: in_time_def bindE_eq_Inl use_at_def flow_at_def worker_at_def worker_index_def control_block_of_def
      invocation_at_def lock_invocation_def first_input_def in_flow_of_def in_block_of_def data_of_block_def
      data_of_use_def token_of_def read_flow_slot_def read_anti_flow_slot_def related_flow_ptr_def
      related_flow_deref_def related_anti_flow_ptr_def collection_block_of_def cblk_key_def published_entry_def
      evaluate_at_def ensure_entry_def publication_key_def parent_token_of_def published_key_def assign_key_def
      split: option.splits prod.splits flow_slot.splits anti_flow_slot.splits)

lemma in_time_memory [simp]:
  "in_time (op_new n m)" "in_time (op_delete p m)" "in_time (mem_read p m)" "in_time (mem_destroy p m)"
  "in_time (int_loop k)" "in_time (cblk_of_handle ser h m)" "in_time (cblk_collection ser h' k m)"
  "in_time (data_for_index ser cb k)" "in_time (copy_data ser h' src dest m)" "in_time (cblk_copy ser ph cb m)"
  "in_time (reduce_into E op h' src dest m)"
  by (auto simp: in_time_def bindE_eq_Inl op_new_def op_delete_def mem_read_def mem_destroy_def int_loop_def
      cblk_of_handle_def cblk_collection_def data_for_index_def copy_data_def cblk_copy_def reduce_into_def Let_def
      split: option.splits)

lemma in_time_events [simp]:
  "in_time (advance_count e n w)" "in_time (increment_count e w)" "in_time (attach_or_do_action e a cs w)"
  "in_time (attach_action e a w)" "in_time (attach_decrement_of e e' w)" "in_time (make_flow c n w)"
  "in_time (make_anti_flow n w)" "in_time (emplace_ready i op w)" "in_time (add_dependency_on p e w)"
  by (auto simp: in_time_def bindE_eq_Inl advance_count_def increment_count_def attach_or_do_action_def
      attach_action_def attach_decrement_of_def make_flow_def make_anti_flow_def emplace_ready_def
      add_dependency_on_def worker_at_def Let_def split: prod.splits)

lemma in_time_loops [simp]:
  "in_time (collect f us) \<longleftrightarrow> collect f us \<noteq> Inl DecrementAfterTrigger"
  "in_time (unpack_into v ps m)" "in_time (reduce_elements E op h cb p is m)" "in_time (setup_data deps w)"
  "in_time (set_parent_tokens t deps w)" "in_time (emplace_all is rop w)"
proof -
  show "in_time (collect f us) \<longleftrightarrow> collect f us \<noteq> Inl DecrementAfterTrigger" by (simp add: in_time_def)
  show "in_time (unpack_into v ps m)"
    by (induction ps arbitrary: m) (auto intro!: in_time_intros)
  show "in_time (reduce_elements E op h cb p is m)"
    by (induction "is" arbitrary: m) (auto intro!: in_time_intros)
  show "in_time (setup_data deps w)"
    by (induction deps arbitrary: w) (auto intro!: in_time_intros)
  show "in_time (set_parent_tokens t deps w)"
    by (induction deps arbitrary: w) (auto intro!: in_time_intros)
  show "in_time (emplace_all is rop w)"
    by (induction "is" arbitrary: w) (auto intro!: in_time_intros)
qed

lemma in_time_collect: "(\<And>u. in_time (f u)) \<Longrightarrow> collect f us \<noteq> Inl DecrementAfterTrigger"
  by (induction us) (auto simp: bindE_eq_Inl in_time_def)

lemma in_time_new_event: "new_event n w = (e, w') \<Longrightarrow> \<not> is_triggered e w'"
  by (auto simp: new_event_def is_triggered_def)

section \<open>Procedures\<close>

lemma in_time_register [simp]:
  "in_time (register_use u w)" "in_time (register_in E u w)" "in_time (register_anti_in u w)"
  "in_time (register_out u w)" "in_time (register_anti_out u w)" "in_time (release_use u w)"
  "in_time (alias_flows me e e' w)"
proof -
  have set: "in_time (set_in_flow u r)" if "in_time r" for r :: "rt_error + flow_ptr \<times> cmd list \<times> 'a world"
    using that unfolding set_in_flow_def by (auto intro!: in_time_intros)
  have "in_time (in_flow_of_cblk cm w)" for cm
    by (auto simp: in_flow_of_cblk_def make_cblk_def make_flow_def new_event_def in_time_decrement is_triggered_def
        intro!: in_time_intros)
  then have "in_time (in_flow_initial E us w)" "in_time (in_flow_initial_collection E us w)" for us
    by (auto simp: in_flow_initial_def in_flow_initial_collection_def intro!: in_time_intros)
  moreover have "in_time (in_flow_next rel w)" "in_time (in_flow_indexed_local E rel w)" "in_time (in_flow_indexed_fetching us w)"
    for us rel
    by (auto simp: in_flow_next_def in_flow_indexed_local_def in_flow_indexed_fetching_def Let_def
        intro!: in_time_intros split: prod.splits)
  ultimately show "in_time (register_in E u w)"
    by (auto simp: register_in_def reuse_in_flow_def Let_def intro!: in_time_intros set split: description.split)
  have "in_time (anti_in_forwarding u us w)" for us
    by (auto simp: anti_in_forwarding_def make_anti_flow_def new_event_def in_time_decrement is_triggered_def
        set_anti_in_flow_def intro!: in_time_intros)
  moreover have "in_time (anti_in_same u us w)" "in_time (anti_in_next u us w)" "in_time (anti_in_indexed_local u us w)" for us
    by (auto simp: anti_in_same_def anti_in_next_def anti_in_indexed_local_def set_anti_in_flow_def
        intro!: in_time_intros split: option.split)
  ultimately show "in_time (register_anti_in u w)"
    by (auto simp: register_anti_in_def set_anti_in_flow_def intro!: in_time_intros split: description.split)
  show "in_time (register_out u w)"
    by (auto simp: register_out_def out_related_def set_out_flow_def out_same_def out_next_def out_null_def
        out_indexed_local_def Let_def intro!: in_time_intros split: description.split option.split prod.splits)
  have "in_time (anti_out_initial u w)"
    by (auto simp: anti_out_initial_def set_anti_out_flow_def intro!: in_time_intros)
  then show "in_time (register_anti_out u w)"
    by (auto simp: register_anti_out_def anti_out_related_def set_anti_out_flow_def anti_out_same_def anti_out_next_def
        anti_out_indexed_local_def anti_out_indexed_fetching_def Let_def
        intro!: in_time_intros split: description.split option.split prod.splits)
  show "in_time (register_use u w)" by (auto simp: register_use_def intro!: in_time_intros)
  show "in_time (release_use u w)"
    by (auto simp: release_use_def handle_aliasing_for_released_use_def Let_def intro!: in_time_intros split: option.split)
  show "in_time (alias_flows me e e' w)" by (auto simp: alias_flows_def intro!: in_time_intros)
qed

lemma in_time_publish [simp]: "in_time (publish_use u d w)"
proof -
  have "\<not> is_triggered e w1" if "advance_count e n w = Inr w1" for e n w1 and w :: "'a world"
    using that by (auto simp: advance_count_def is_triggered_def)
  then have "in_time (publish_at_entry u n en w1)" for n en and w1 :: "'a world"
    by (auto simp: publish_at_entry_def in_time_decrement intro!: in_time_intros)
  then show ?thesis by (auto simp: publish_use_def intro!: in_time_intros)
qed

lemma in_time_operations [simp]:
  "in_time (run_operation me op w)" "in_time (run_ignoring_message me op w)" "in_time (work_loop_round E me drawn w)"
  "in_time (user_code E u code w)" "in_time (reduce_collection_use ui uo d w)" "in_time (register_task me t w)"
  "in_time (register_task_collection tc w)"
proof -
  have run: "in_time (run_operation me op w)" for op and w :: "'a world"
    by (auto simp: run_operation_def run_task_def intro!: in_time_intros split: ready_op.split message_kind.split)
  then show "in_time (run_operation me op w)" .
  have ign: "in_time (run_ignoring_message me op w)" for op and w :: "'a world"
    unfolding run_ignoring_message_def using run by (auto intro!: in_time_intros)
  then show "in_time (run_ignoring_message me op w)" .
  have "in_time (try_to_steal_work E me drawn w)"
    using ign by (auto simp: try_to_steal_work_def intro!: in_time_intros split: option.split prod.split)
  with run show "in_time (work_loop_round E me drawn w)"
    by (auto simp: work_loop_round_def intro!: in_time_intros split: option.split prod.split)
  show "in_time (user_code E u code w)" by (auto simp: user_code_def intro!: in_time_intros)
  show "in_time (reduce_collection_use ui uo d w)" by (auto simp: reduce_collection_use_def intro!: in_time_intros)
  show "in_time (register_task me t w)" by (auto simp: register_task_def intro!: in_time_intros)
  show "in_time (register_task_collection tc w)"
    by (auto simp: register_task_collection_def Let_def intro!: in_time_intros split: prod.splits)
qed

lemma in_time_action:
  "in_time (run_action E me a w) \<longleftrightarrow> (\<forall>e. a = DecrementAction e \<longrightarrow> \<not> is_triggered e w)"
  by (cases a) (auto simp: run_action_def in_time_decrement run_enqueue_action_def run_fetched_def run_publish_copy_def
      run_collective_decrement_def run_contribute_def run_contribute_after_anti_def run_contribute_reduce_def
      run_allreduce_done_def run_reduce_in_ready_def run_reduce_anti_ready_def run_shutdown_action_def
      run_region_shutdown_action_def in_time_collect Let_def intro!: in_time_intros split: option.split prod.split)

text \<open>A contribution without an anti-in flow decrements the ready event of the invocation at once.\<close>

lemma in_time_allreduce:
  assumes "\<And>t ip. token_of (cd_collection d) w = Inr t \<Longrightarrow> t < length (w_tokens w)
    \<Longrightarrow> tk_collectives (w_tokens w ! t) tag = Some ip \<Longrightarrow> \<not> is_triggered (invocation_ready_event ip) w"
  shows "in_time (allreduce_use u d tag w)"
proof -
  have more: "in_time (contribute_more u op ip w)" if "\<not> is_triggered (invocation_ready_event ip) w" for op ip
    using that by (auto simp: contribute_more_def Let_def in_time_decrement is_triggered_def push_input_frame
        intro!: in_time_intros split: option.split)
  have first: "in_time (contribute_first u t tag ip w1)" if "\<not> is_triggered (invocation_ready_event ip) w1"
    for t ip and w1 :: "'a world"
  proof -
    have "\<not> is_triggered (invocation_ready_event ip) (push_input_use ip u w2)"
      if "attach_action (invocation_ready_event ip) (AllreduceDoneAction ip t tag) w1 = Inr (cs, w2)" for cs w2
      using that \<open>\<not> is_triggered _ w1\<close>
      by (auto simp: attach_action_def attach_or_do_action_def is_triggered_def push_input_frame split: if_splits)
    then show ?thesis
      by (auto simp: contribute_first_def Let_def in_time_decrement intro!: in_time_intros split: option.split)
  qed
  have new: "\<not> is_triggered (invocation_ready_event ip) (set_collectives t f w1)" if "make_invocation n w = (ip, w1)"
    for n ip w1 t f
    using that by (auto simp: make_invocation_def new_event_def Let_def is_triggered_def)
  show ?thesis
    unfolding allreduce_use_def evaluate_or_evaluate_first_def
    by (auto intro!: in_time_intros more first new simp: Let_def dest: assms split: prod.splits option.split)
qed

text \<open>So every decrement that comes too late is one of these.\<close>

lemma in_time_step:
  assumes "\<And>e. c = CDecrement e \<or> c = CAction (DecrementAction e) \<Longrightarrow> \<not> is_triggered e w"
    and "shutdown_counter \<in># credit_cmd c \<Longrightarrow> \<not> is_triggered shutdown_counter w"
    and "\<And>u d tag t ip. c = CApi (AllreduceUse u d tag) \<Longrightarrow> token_of (cd_collection d) w = Inr t
      \<Longrightarrow> t < length (w_tokens w) \<Longrightarrow> tk_collectives (w_tokens w ! t) tag = Some ip
      \<Longrightarrow> \<not> is_triggered (invocation_ready_event ip) w"
  shows "in_time (step E me drawn c w)"
proof (cases c)
  case (CApi a)
  with assms(3) show ?thesis
    by (cases a) (auto simp: step_def run_api_def intro!: in_time_allreduce)
next
  case (CCreateTasks name ts i)
  with assms(2) show ?thesis
    by (cases ts) (auto simp: step_def in_time_decrement Let_def intro!: in_time_intros split: prod.splits)
next
  case (CTaskFinished old)
  with assms(2) have "\<not> is_triggered shutdown_counter (update_worker me f w)" for f
    by (simp add: is_triggered_def update_worker_def)
  with CTaskFinished show ?thesis
    by (auto simp: step_def task_finished_def in_time_decrement intro!: in_time_intros)
qed (use assms(1) in \<open>auto simp: step_def in_time_decrement in_time_action task_dependency_def task_anti_dependency_def
      enqueue_or_run_def stack_run_def stack_exit_def erase_collective_def spin_up_worker_threads_def work_loop_start_def
      join_worker_def Let_def intro!: in_time_intros\<close>)

section \<open>The ready events of collectives\<close>

text \<open>They are not release events either: an invocation and an entry never share an event.\<close>

definition invocations_plain :: "'d world \<Rightarrow> bool" where
  "invocations_plain w \<longleftrightarrow> (\<forall>p\<in>set (w_invocations w). plain_event w (invocation_ready_event (fst p)))"

lemma allreduce_invocations:
  assumes "allreduce_use u d tag w = Inr (cs, w')" and "wf_world w" and "p' \<in> set (w_invocations w')"
  shows "fst p' \<in> fst ` set (w_invocations w) \<or> plain_event w' (invocation_ready_event (fst p'))"
proof -
  have mem: "fst p' \<in> set (map fst (w_invocations w'))" using assms(3) by auto
  have push: "map fst (w_invocations (push_input_use ip u v)) = map fst (w_invocations v)" for ip and v :: "'a world"
    by (simp add: push_input_use_def update_invocation_def Let_def map_fst_update)
  from assms(1) show ?thesis
  proof (cases rule: claims.W_allreduce)
    case (more t ip)
    have "calm (push_input_use ip u w) w'"
      using more(4) by (auto simp: contribute_more_def then_do_def Let_def dest!: calm_primitives split: option.splits)
    with push [of ip w] mem have "fst p' \<in> set (map fst (w_invocations w))" by (simp add: calm_def del: set_map)
    then show ?thesis by simp
  next
    case (first t ip w1)
    let ?w2 = "set_collectives t (\<lambda>_. (tk_collectives (w_tokens w ! t))(tag \<mapsto> ip)) w1"
    from first(4) have new: "w_invocations ?w2 = w_invocations w @ [(ip, \<lparr>iv_input_uses = [], iv_size = tk_size (w_tokens w ! t), iv_owned = True\<rparr>)]"
      "w_entries ?w2 = w_entries w" "length (w_events ?w2) = Suc (length (w_events w))"
      "invocation_ready_event ip = length (w_events w)"
      by (auto simp: make_invocation_def new_event_def set_collectives_def Let_def)
    with assms(2) have plain: "plain_event ?w2 (invocation_ready_event ip)"
      by (auto simp: plain_event_def release_events_def wf_world_def)
    from first(5) obtain v where v: "calm ?w2 v" "calm (push_input_use ip u v) w'"
      by (auto simp: contribute_first_def Let_def dest!: calm_primitives split: option.splits)
    then have "map fst (w_invocations w') = map fst (w_invocations ?w2)" by (simp add: calm_def push)
    with mem new(1) have "fst p' \<in> fst ` set (w_invocations w) \<or> fst p' = ip" by auto
    moreover have "plain_event w' (invocation_ready_event ip)"
      using plain_event_grows [OF plain contribute_grows(2) [OF first(5)]] .
    ultimately show ?thesis by auto
  qed
qed

lemma step_invocations:
  assumes s: "step E me drawn c w = Inr (cs, w')" and wf: "wf_world w" and p: "p' \<in> set (w_invocations w')"
  shows "fst p' \<in> fst ` set (w_invocations w) \<or> plain_event w' (invocation_ready_event (fst p'))"
proof -
  have same: ?thesis if "w_invocations w' = w_invocations w" using that p by auto
  have shaped: ?thesis if "mild w w1" "w' = w1 \<or> w' = update_use u f w1" for w1 u f
    using that same by (auto simp: mild_def update_use_def)
  show ?thesis
  proof (cases c)
    case (CRegisterIn u)
    with s register_in_shape [of E u w cs w'] shaped show ?thesis by (auto simp: step_def)
  next
    case (CRegisterAntiIn u)
    with s anti_in_shape [of u w cs w'] shaped calm_mild show ?thesis by (fastforce simp: step_def)
  next
    case (CRegisterOut u)
    with s out_shape [of u w cs w'] shaped calm_mild show ?thesis by (fastforce simp: step_def)
  next
    case (CRegisterAntiOut u)
    with s anti_out_shape [of u w cs w'] shaped calm_mild show ?thesis by (fastforce simp: step_def)
  next
    case (CRelease u)
    with s release_frame [of u w cs w'] same show ?thesis by (simp add: step_def)
  next
    case (CEraseCollective t tag ip)
    with s have "map fst (w_invocations w') = map fst (w_invocations w)"
      by (auto simp: step_def erase_collective_def update_invocation_def set_collectives_def Let_def map_fst_update)
    with p have "fst p' \<in> set (map fst (w_invocations w))" by (metis image_eqI set_map)
    then show ?thesis by simp
  next
    case (CApi a)
    with s have run: "run_api E me a w = Inr (cs, w')" by (simp add: step_def)
    show ?thesis
    proof (cases a)
      case (RegisterUse u)
      with run register_frame [of u w cs w'] same show ?thesis by (simp add: run_api_def)
    next
      case (ReleaseUse u)
      with run release_frame [of u w cs w'] same show ?thesis by (simp add: run_api_def)
    next
      case (RegisterTaskCollection tc)
      with run have "w_invocations w' = w_invocations w"
        by (auto simp: run_api_def register_task_collection_def make_token_def Let_def same_books_def
            dest!: set_parent_tokens_frame increment_count_frame)
      then show ?thesis by (rule same)
    next
      case (PublishUse u d)
      with run publish_mild [of u d w cs w'] same show ?thesis by (simp add: run_api_def mild_def)
    next
      case (AllreduceUse u d tag)
      with run have "allreduce_use u d tag w = Inr (cs, w')" by (simp add: run_api_def)
      from allreduce_invocations [OF this wf p] show ?thesis .
    qed (use run in \<open>auto simp: run_api_def intro!: same dest!: calm_intros simp: calm_def\<close>)
  qed (use s in \<open>auto simp: step_def add_dorment_def intro!: same dest!: calm_run_action calm_intros calm_plain simp: calm_def\<close>)
qed

lemma reaches_invocations_plain:
  "reaches E g \<Longrightarrow> good_flows (cf_world g) \<and> invocations_plain (cf_world g)"
proof (induction rule: reaches_invariant)
  case (start g)
  then show ?case using starts_good(1) starts_world(5) by (fastforce simp: invocations_plain_def)
next
  case (step g g')
  then obtain i c cs drawn cs' w' where s: "step E i drawn c (cf_world g) = Inr (cs', w')" and w': "cf_world g' = w'"
    by (auto elim!: disciplinedE)
  with step.IH have good: "good_flows (cf_world g)" "grows (cf_world g) w'" "good_flows w'" and "wf_world (cf_world g)"
    using step_good_flows [OF s] by (auto simp: good_flows_def)
  have "plain_event w' (invocation_ready_event (fst p'))" if "p' \<in> set (w_invocations w')" for p'
    using step_invocations [OF s \<open>wf_world _\<close> that] step.IH plain_event_grows [OF _ good(2)]
    by (auto simp: invocations_plain_def)
  with good(3) w' show ?case by (simp add: invocations_plain_def)
qed

text \<open>An invocation that waits for a contribution has not completed.\<close>

lemma waiting_invocation_untriggered:
  assumes r: "reaches E g" and i: "i < length (w_invocations (cf_world g))"
    and "length (iv_input_uses (snd (w_invocations (cf_world g) ! i))) < iv_size (snd (w_invocations (cf_world g) ! i))"
  shows "\<not> is_triggered (invocation_ready_event (fst (w_invocations (cf_world g) ! i))) (cf_world g)"
proof -
  let ?w = "cf_world g" and ?p = "w_invocations (cf_world g) ! i"
  let ?e = "invocation_ready_event (fst ?p)"
  have "?e \<in># reserved_counts ?w"
  proof -
    let ?f = "\<lambda>(ip, iv). replicate_mset (2 * iv_size iv - 2 * length (iv_input_uses iv)) (invocation_ready_event ip)"
    have "?e \<in># ?f ?p" using assms(3) by (simp add: split_beta in_replicate_mset)
    moreover have "?f ?p \<subseteq># reserved_counts ?w" unfolding reserved_counts_def using i by (intro sum_list_member) simp
    ultimately show ?thesis by (rule mset_subset_eqD [rotated])
  qed
  then have "?e \<in># outstanding g" by (simp add: outstanding_def owed_def stack_credits_def committed_def)
  moreover have "?e \<notin> release_events ?w"
    using reaches_invocations_plain [OF r] i by (auto simp: invocations_plain_def plain_event_def)
  ultimately show ?thesis using outstanding_untriggered(2) [OF r] by (simp add: is_triggered_def)
qed

section \<open>Property\<close>

text \<open>
  C9. No decrement comes too late. Of everything that a disciplined thread may do next, the decrements
  that are queued, that end a task or the registration of a collection, and those inside registrations
  and contributions to collectives, only one can fail the assertion of \<open>decrement_count\<close> that the
  counter has not triggered: a single decrement of the release event of a publication, which has
  triggered already. A queued decrement of any other counter succeeds.
\<close>

theorem decrement_never_fails:
  assumes "reaches E g" and "i < length (cf_stacks g)" and "cf_stacks g ! i = c # cs" and "frontend_ok g c"
  shows "(case step E i drawn c (cf_world g) of
      Inl err \<Rightarrow> err = DecrementAfterTrigger \<longrightarrow>
        (\<exists>e\<in>release_events (cf_world g). is_triggered e (cf_world g)
           \<and> (c = CDecrement e \<or> c = CAction (DecrementAction e)))
    | Inr _ \<Rightarrow> True)
    \<and> (\<forall>e. e \<notin> release_events (cf_world g) \<and> (c = CDecrement e \<or> c = CAction (DecrementAction e))
         \<longrightarrow> (\<exists>cs' w'. step E i drawn c (cf_world g) = Inr (cs', w')))"
proof -
  let ?w = "cf_world g"
  have stack: "c # cs \<in> set (cf_stacks g)" using assms(2,3) nth_mem by metis
  have owed: "\<not> is_triggered e ?w \<and> e < length (w_events ?w)" if "e \<in># credit_cmd c" "e \<notin> release_events ?w" for e
  proof -
    have "e \<in># outstanding g" using mset_subset_eqD [OF outstanding_cmd [OF _ stack] that(1)] by simp
    from outstanding_untriggered(1,2) [OF assms(1) that(2) this] show ?thesis by (simp add: is_triggered_def)
  qed
  have late: "\<exists>e\<in>release_events ?w. is_triggered e ?w \<and> (c = CDecrement e \<or> c = CAction (DecrementAction e))"
    if "\<not> in_time (step E i drawn c ?w)"
  proof (rule ccontr)
    assume not: "\<not> ?thesis"
    have "in_time (step E i drawn c ?w)"
    proof (rule in_time_step)
      show "\<not> is_triggered e ?w" if "c = CDecrement e \<or> c = CAction (DecrementAction e)" for e
        using that not owed [of e] by auto
      show "\<not> is_triggered shutdown_counter ?w" if "shutdown_counter \<in># credit_cmd c"
        using owed [OF that] reaches_good [OF assms(1)] by (simp add: plain_event_def)
    next
      fix u d tag t ip
      assume c: "c = CApi (AllreduceUse u d tag)" and t: "token_of (cd_collection d) ?w = Inr t"
        "t < length (w_tokens ?w)" and ip: "tk_collectives (w_tokens ?w ! t) tag = Some ip"
      have "tables_ok ?w" using reaches_good [OF assms(1)] by (simp add: good_flows_def wf_world_def)
      with t(2) ip have i: "invocation_id ip < length (w_invocations ?w)" "fst (w_invocations ?w ! invocation_id ip) = ip"
        unfolding tables_ok_def by (meson nth_mem)+
      moreover from assms(4) c t ip have "length (iv_input_uses (snd (w_invocations ?w ! invocation_id ip)))
          < iv_size (snd (w_invocations ?w ! invocation_id ip))"
        by (simp add: room_at_def)
      ultimately show "\<not> is_triggered (invocation_ready_event ip) ?w"
        using waiting_invocation_untriggered [OF assms(1)] by metis
    qed
    with that show False by simp
  qed
  have queued: "\<exists>cs' w'. step E i drawn c ?w = Inr (cs', w')"
    if "e \<notin> release_events ?w" "c = CDecrement e \<or> c = CAction (DecrementAction e)" for e
  proof -
    have "e \<in># credit_cmd c" using that(2) by auto
    from owed [OF this that(1)] that(2) show ?thesis
      by (auto simp: step_def run_action_def decrement_count_def is_triggered_def Let_def make_ready_def)
  qed
  show ?thesis
  proof
    show "case step E i drawn c ?w of
        Inl err \<Rightarrow> err = DecrementAfterTrigger \<longrightarrow>
          (\<exists>e\<in>release_events ?w. is_triggered e ?w \<and> (c = CDecrement e \<or> c = CAction (DecrementAction e)))
      | Inr _ \<Rightarrow> True"
      using late by (simp add: in_time_def split: sum.split)
  qed (use queued in blast)
qed

theorem decrement_never_fails_witness:
  "\<exists>g cs' w'. reaches sample_env g \<and> cf_stacks g ! 0 \<noteq> [] \<and> hd (cf_stacks g ! 0) = CDecrement 2
     \<and> step sample_env 0 0 (CDecrement 2) (cf_world g) = Inr (cs', w')"
proof -
  have "holds (\<lambda>g. 2 \<notin> release_events (cf_world g) \<and> 0 < length (cf_stacks g) \<and> cf_stacks g ! 0 \<noteq> []
      \<and> hd (cf_stacks g ! 0) = CDecrement 2) (sample_run 18)"
    by code_simp
  then obtain g where r: "reaches sample_env g" and g: "2 \<notin> release_events (cf_world g)" "0 < length (cf_stacks g)"
    "cf_stacks g ! 0 \<noteq> []" "hd (cf_stacks g ! 0) = CDecrement 2"
    by (rule sample_run_reaches) auto
  then have "cf_stacks g ! 0 = CDecrement 2 # tl (cf_stacks g ! 0)" by (metis list.collapse)
  from decrement_never_fails [OF r g(2) this, of 0] g(1) have "\<exists>cs' w'. step sample_env 0 0 (CDecrement 2) (cf_world g) = Inr (cs', w')"
    by simp
  with r g(3,4) show ?thesis by blast
qed

end
