(* ===== verification/Spec2Isabelle.thy ===== *)
theory Spec2Isabelle
  imports ThreadSafeQueue TryLock ConcurrentContainers EventRace DebugReport DebugLoop Pointers Startup Finish Unimplemented PartitionRun Decrements
begin

text \<open>
  The simple backend of DARMA (\<open>src/src\<close>), a task runtime for one node with shared memory. The
  frontend, which is another repository, tells it about tasks, about the uses that tasks make of data
  and about the flows that connect the uses; the backend finds out when a task may run, runs it on one
  of its workers, and shuts down when nothing is left.

  \<^bold>\<open>The program's parts.\<close> A \<^emph>\<open>join counter\<close> is an event with a count that triggers when it is
  decremented to 0; actions are attached to events and run when these trigger. A \<^emph>\<open>flow\<close> is a version
  of some data (a control block) with the counter that says when it may be read, an \<^emph>\<open>anti-flow\<close> the
  counter that says when the data may be overwritten. \<open>register_use\<close> gives a use its four flows as its
  four relationships describe, \<open>release_use\<close> decrements the counters that the use holds. Publication
  and the collectives move data between uses when their flows are ready. A task is a pending operation
  on the counters of its dependencies; when they are ready, it is queued on a worker, whose loop runs
  the operations of its queue or steals others. The shutdown counter counts the tasks; when it
  triggers, every worker is sent the message that ends its loop.

  \<^bold>\<open>Theories of the components\<close>, from the bottom up. \<open>Prelude\<close>: errors as values (an \<open>assert\<close> that fails,
  a null dereference, storage that is lacking), sums over lists, 64-bit counters and the loop with an
  \<open>int\<close> index below a \<open>size_t\<close>. \<open>QueueInterface\<close>: the contract of a FIFO queue as
  a locale. \<open>ThreadSafeQueue\<close> (\<open>data_structures/queue.hpp\<close>): the linked list with its nodes on a heap,
  refined to that contract. \<open>ConcurrentContainers\<close> (\<open>concurrent_list.hpp\<close>, \<open>concurrent_map.hpp\<close>). \<open>TryLock\<close>
  (\<open>util.hpp\<close>). \<open>Pointers\<close> (\<open>pointers.hpp\<close>, \<open>mutex.hpp\<close>): threads that exchange and access a pointer under a
  shared or a plain mutex. \<open>EventRace\<close> (\<open>event.hpp\<close>, \<open>join_counter.hpp\<close>): attaching and triggering with
  every atomic access a step of its own. \<open>Arguments\<close> (\<open>parse_arguments.cpp\<close>). \<open>ControlBlocks\<close>
  (\<open>flow/control_block.hpp\<close>): the life of data over a memory of objects, with sizes and offsets of 64 bits and
  an \<open>operator new\<close> that fails when there is no room. \<open>World\<close>: the state of a running
  backend, a record whose fields are the heap objects of the code, numbered, and the primitives on
  events. On it \<open>PendingOps\<close> (\<open>pending_operation.hpp\<close>), \<open>Uses\<close> (\<open>register_use.cpp\<close>, \<open>release_use.cpp\<close>,
  \<open>flow/aliasing_strategy.cpp\<close>), \<open>Publication\<close> (\<open>publish.cpp\<close>), \<open>Collectives\<close> (\<open>collectives.cpp\<close>), \<open>Tasks\<close>
  (\<open>ready_operation.cpp\<close>, the registration of tasks and of task collections in \<open>runtime/runtime.cpp\<close>) and
  \<open>Workers\<close> (\<open>worker/worker_threads.cpp\<close>, \<open>work_stealing_random.cpp\<close>, the construction and shutdown of
  the runtime). \<open>Machine\<close> puts them together, and \<open>Startup\<close> starts it from a command line (\<open>main.cpp\<close>).
  \<open>DebugPrinter\<close>, \<open>DebugLoop\<close> and \<open>DebugReport\<close> are the debug build (\<open>debug.hpp\<close>, \<open>main.cpp\<close>).
  \<open>Unimplemented\<close> holds the functions of the runtime that only fail an assertion (the migration functions,
  the allreduce with separate input and output uses) and \<open>get_execution_resource_count\<close>. \<open>Partitions\<close>
  (\<open>worker/worker_openmp.cpp\<close>) is the other kind of workers, those of the build with Kokkos, as a program
  of its own: threads that take one step per access to shared state.

  \<^bold>\<open>The workers of the build with Kokkos.\<close> \<open>Partitions\<close>: the queues of the workers, the tasks put aside
  for each partition, where every worker is in \<open>run_work_loop\<close> and every master in \<open>spin_up_worker_threads\<close>;
  a schedule is a list of threads. \<open>worker_openmp.cpp\<close> uses a class \<open>ReadyTaskHolder\<close> and a function
  \<open>Worker::run_task\<close> that the repository does not define: they are parameters (\<open>kokkos_env\<close>), and a call of
  \<open>run_task\<close> is any number of steps that change the queues and the trigger in any way. \<open>PartitionRun\<close> has the
  invariant of all runs, which shows that no task that was taken is lost or run twice and that
  data-parallel tasks run alone in their partition; what a worker does that meets such a task; and how
  the partitions of a command line divide the workers. That the partitions come to an end depends on
  \<open>run_task\<close> and is not claimed.

  \<^bold>\<open>The machine.\<close> Every worker's thread has a stack of commands. A procedure of the sources that calls
  others, runs actions or decrements several counters becomes one step followed by commands for the
  rest, so the threads interleave between these; a step itself is atomic. For the steps on an event this
  is justified by \<open>EventRace\<close>: the actions of an event run exactly once, after the last decrement,
  however its accesses interleave; for the queues, deques and maps by their locks. An error is \<open>Inl\<close> and
  ends the run; \<open>sched\<close> is the step of some thread, with any draw of the random generator.

  \<^bold>\<open>What the frontend must do.\<close> The theorems on the machine are about runs (\<open>reaches\<close>) in which every call
  of the frontend is disciplined (\<open>frontend_ok\<close> in \<open>Invariant\<close>): a use is registered once, and only
  released, published or contributed while it is registered and the frontend's own, a version is
  published once, and a collective gets no more contributions than it has members; and in which the
  counts stay below \<open>2 ^ 64\<close> (\<open>fits\<close>), so that no counter wraps. \<open>Samples\<close> checks these conditions step by
  step on concrete runs, for the witnesses, with the bound 64 on the outstanding decrements instead of
  \<open>2 ^ 64\<close>; its programs need fewer than 20.

  \<^bold>\<open>The proofs.\<close> \<open>Tally\<close> is the locale of sums over everything that waits in queues or is on stacks;
  \<open>Accounting\<close>, \<open>StepAccounting\<close>, \<open>UseAccounting\<close>, \<open>OpAccounting\<close> and \<open>CommAccounting\<close> show that each
  command keeps every count equal to the decrements to come. \<open>Claims\<close>, \<open>Ledger\<close>, \<open>ClaimSteps\<close>,
  \<open>StepClaims\<close>, \<open>ChainShape\<close> and \<open>StepShape\<close> show that no use is in two hands. \<open>Invariant\<close>, \<open>Discipline\<close> and
  \<open>Reachable\<close> put this together to the invariant of all reachable configurations; \<open>Growth\<close> and \<open>FlowEvents\<close>
  add that events stay and that the flows of uses are plain. The properties rest on these: \<open>Safety\<close>
  (counts balance, no double release, shutdown comes last, no lost wake-up), \<open>Decrements\<close> (which
  decrement can come too late: only one of the release event of a publication), \<open>Work\<close> and
  \<open>Progress\<close> (the work that a configuration holds bounds the steps that can change it), \<open>Registration\<close> and \<open>Exchange\<close> (what registration, publication and the collectives do to flows
  and data), \<open>Placement\<close> (placement and stealing), \<open>Shutdown\<close> (each worker has exactly one of: the
  shutdown action to come, a message in its queue, or a loop that has ended; so none stops before the last
  task and none is left behind) and \<open>Finish\<close> (fair runs end with all threads returned, or idle while the
  shutdown counter still waits). \<open>Ordinary\<close> is the locale of quantities of the queues that ordinary steps
  do not increase, on which \<open>Shutdown\<close> and \<open>Finish\<close> count messages, joins and shutdown actions. No loop needs fuel: the recursion of each definition is structural or has a measure, except for
  \<open>consume_all\<close>, a \<open>partial_function\<close> that is shown to return, and the loops of the workers and of the
  debug thread, which are steps of a relation.

  \<^bold>\<open>Not modelled.\<close> The destruction of flows, control blocks and tokens by \<open>shared_ptr\<close>, and so the use
  of an object after its last owner is gone: objects of the machine are never removed. Memory orders
  weaker than the default, and data races on fields that are not atomic. The OpenMP branch of
  \<open>spin_up_worker_threads\<close>, which calls \<open>run_work_loop\<close> with arguments that no version of it takes, and the
  fcontext workers (\<open>worker_openmp_fcontext.cpp\<close> and its branches of \<open>runtime.cpp\<close>), which switch contexts
  of boost and return from the entry function of a context. The files that are commented out (\<open>worker/worker.cpp\<close>, \<open>pending_task.cpp\<close>,
  \<open>flow/mergeable_flow.hpp\<close>). What follows the failing assertion in the
  allreduce with separate input and output uses. The frontend: tasks are
  lists of calls, and serialization, reductions and user code are parameters (\<open>env\<close>).
\<close>

end
